(* ===== verification/Prelude.thy ===== *)
theory Prelude
  imports Main "HOL-Library.Word"
begin

text \<open>
  Shared vocabulary of the development: the machine-integer types, the outcome type that makes
  undefined behaviour of the C++ code a value, host-order (little-endian) and network-order
  (big-endian) readings of byte buffers, the address space of heap objects, the bounded
  "advance while the successor is present" loop that the acknowledgement code runs, and generic
  lemmas on these. The collections \<open>codec\<close> and \<open>outcome_simps\<close> carry the component proofs.
\<close>

unbundle bit_operations_syntax

named_theorems codec "reading back what was written to a byte buffer"

named_theorems outcome_simps "evaluation of the outcome type"

section \<open>Machine types\<close>

type_synonym u8 = "8 word"
type_synonym u16 = "16 word"
type_synonym u32 = "32 word"
type_synonym u64 = "64 word"
type_synonym bytes = "8 word list"
type_synonym sockaddr = "u32 \<times> u16"   \<comment> \<open>an IPv4 \<open>sockaddr\<close>: \<open>s_addr\<close> as stored, the port as a number\<close>

section \<open>Outcomes: what C++ leaves undefined is a fault value\<close>

datatype fault =
    OutOfBounds    \<comment> \<open>an access outside the buffer or array\<close>
  | NullDeref      \<comment> \<open>a null pointer is dereferenced\<close>
  | UseAfterFree   \<comment> \<open>an object that is not alive is used or deleted\<close>
  | ShiftRange     \<comment> \<open>a shift by a negative count or by at least the width\<close>
  | Diverges       \<comment> \<open>a loop does not end\<close>
  | Uncaught       \<comment> \<open>an exception that nobody catches\<close>
  | BadConversion  \<comment> \<open>a floating-point number is converted to an integer type that cannot hold it\<close>

type_synonym 'a outcome = "fault + 'a"

definition bind_out :: "'a outcome \<Rightarrow> ('a \<Rightarrow> 'b outcome) \<Rightarrow> 'b outcome" where
  "bind_out m f = (case m of Inl e \<Rightarrow> Inl e | Inr x \<Rightarrow> f x)"

definition of_option :: "fault \<Rightarrow> 'a option \<Rightarrow> 'a outcome" where
  "of_option e m = (case m of None \<Rightarrow> Inl e | Some x \<Rightarrow> Inr x)"

lemma bind_out_Inl [simp, outcome_simps]: "bind_out (Inl e) f = Inl e"
  by (simp add: bind_out_def)

lemma bind_out_Inr [simp, outcome_simps]: "bind_out (Inr x) f = f x"
  by (simp add: bind_out_def)

lemma of_option_None [simp, outcome_simps]: "of_option e None = Inl e"
  by (simp add: of_option_def)

lemma of_option_Some [simp, outcome_simps]: "of_option e (Some x) = Inr x"
  by (simp add: of_option_def)

lemma bind_out_eq_Inr_iff: "bind_out m f = Inr y \<longleftrightarrow> (\<exists>x. m = Inr x \<and> f x = Inr y)"
  by (cases m) auto

lemma bind_out_eq_Inl_iff:
  "bind_out m f = Inl e \<longleftrightarrow> m = Inl e \<or> (\<exists>x. m = Inr x \<and> f x = Inl e)"
  by (cases m) auto

lemma bind_out_assoc: "bind_out (bind_out m f) g = bind_out m (\<lambda>x. bind_out (f x) g)"
  by (cases m) auto

lemma bind_out_Inr_id [simp]: "bind_out m Inr = m"
  by (cases m) auto

lemma of_option_eq_Inr_iff: "of_option e m = Inr y \<longleftrightarrow> m = Some y"
  by (cases m) auto

section \<open>Host-order and network-order integers in byte buffers\<close>

text \<open>
  A \<open>uint16_t*\<close>, \<open>uint32_t*\<close> or \<open>uint64_t*\<close> cast into a buffer reads 2, 4 or 8 bytes in host
  order; the targets of this program are little-endian. \<open>NS_GET16\<close> and \<open>NS_GET32\<close> read in
  network order.
\<close>

fun le_val :: "bytes \<Rightarrow> nat" where
  "le_val [] = 0"
| "le_val (b # bs) = unat b + 256 * le_val bs"

fun le_enc :: "nat \<Rightarrow> nat \<Rightarrow> bytes" where
  "le_enc 0 v = []"
| "le_enc (Suc n) v = of_nat (v mod 256) # le_enc n (v div 256)"

definition be_val :: "bytes \<Rightarrow> nat" where
  "be_val bs = le_val (rev bs)"

definition get_le :: "nat \<Rightarrow> nat \<Rightarrow> bytes \<Rightarrow> nat outcome" where
  "get_le n off buf =
     (if off + n \<le> length buf then Inr (le_val (take n (drop off buf))) else Inl OutOfBounds)"

definition get_be :: "nat \<Rightarrow> nat \<Rightarrow> bytes \<Rightarrow> nat outcome" where
  "get_be n off buf =
     (if off + n \<le> length buf then Inr (be_val (take n (drop off buf))) else Inl OutOfBounds)"

definition overlay :: "bytes \<Rightarrow> bytes \<Rightarrow> bytes" where
  \<comment> \<open>what \<open>recvfrom\<close> or \<open>memcpy\<close> leaves in a buffer: the new bytes, then the old tail\<close>
  "overlay new buf = new @ drop (length new) buf"

lemma length_le_enc [simp]: "length (le_enc n v) = n"
  by (induction n arbitrary: v) auto

lemma unat_byte_of_nat [simp]: "unat (of_nat (v mod 256) :: u8) = v mod 256"
  by (simp add: unat_of_nat)

lemma le_val_enc_mod: "le_val (le_enc n v) = v mod 256 ^ n"
proof (induction n arbitrary: v)
  case 0
  show ?case by simp
next
  case (Suc n)
  have "le_val (le_enc (Suc n) v) = v mod 256 + 256 * (v div 256 mod 256 ^ n)"
    using Suc.IH by simp
  also have "\<dots> = v mod (256 * 256 ^ n)"
    by (simp add: mod_mult2_eq)
  finally show ?case by simp
qed

lemma le_val_enc [codec]: "v < 256 ^ n \<Longrightarrow> le_val (le_enc n v) = v"
  by (simp add: le_val_enc_mod)

lemma le_val_bound: "le_val bs < 256 ^ length bs"
proof (induction bs)
  case (Cons b bs)
  have "unat b < 256" using unsigned_less [of b, where 'a = nat] by simp
  with Cons show ?case by simp
qed simp

lemma le_val_enc_u16 [codec]: "le_val (le_enc 2 (unat (x :: u16))) = unat x"
  using unsigned_less [of x, where 'a = nat] by (simp add: le_val_enc)

lemma le_val_enc_u32 [codec]: "le_val (le_enc 4 (unat (x :: u32))) = unat x"
  using unsigned_less [of x, where 'a = nat] by (simp add: le_val_enc)

lemma le_val_enc_u64 [codec]: "le_val (le_enc 8 (unat (x :: u64))) = unat x"
  using unsigned_less [of x, where 'a = nat] by (simp add: le_val_enc)

lemma le_enc_4: "le_enc 4 v = [of_nat (v mod 256), of_nat (v div 256 mod 256),
    of_nat (v div 256 div 256 mod 256), of_nat (v div 256 div 256 div 256 mod 256)]"
proof -
  have "4 = Suc (Suc (Suc (Suc 0)))" by simp
  then show ?thesis by (simp only: le_enc.simps)
qed

lemma length_overlay [simp]: "length new \<le> length buf \<Longrightarrow> length (overlay new buf) = length buf"
  by (simp add: overlay_def)

lemma get_le_Inr_iff: "get_le n off buf = Inr v \<longleftrightarrow>
    off + n \<le> length buf \<and> v = le_val (take n (drop off buf))"
  by (auto simp: get_le_def)

lemma get_le_append [codec]:
  "length pre = off \<Longrightarrow> length mid = n \<Longrightarrow> get_le n off (pre @ mid @ post) = Inr (le_val mid)"
  by (simp add: get_le_def)

section \<open>Byte order of addresses and ports\<close>

definition bswap :: "nat \<Rightarrow> nat \<Rightarrow> nat" where
  "bswap n v = le_val (rev (le_enc n v))"

definition htonl :: "u32 \<Rightarrow> u32" where
  "htonl x = of_nat (bswap 4 (unat x))"

abbreviation ntohl :: "u32 \<Rightarrow> u32" where
  "ntohl \<equiv> htonl"

definition htons :: "u16 \<Rightarrow> u16" where
  "htons x = of_nat (bswap 2 (unat x))"

lemma le_enc_val: "le_enc (length bs) (le_val bs) = bs"
proof (induction bs)
  case (Cons b bs)
  have b: "unat b < 256" using unsigned_less [of b, where 'a = nat] by simp
  have "of_nat ((unat b + 256 * le_val bs) mod 256) = b"
    using b by simp
  moreover have "(unat b + 256 * le_val bs) div 256 = le_val bs"
    using b by simp
  ultimately show ?case using Cons by simp
qed simp

lemma bswap_bswap: "v < 256 ^ n \<Longrightarrow> bswap n (bswap n v) = v"
proof -
  assume v: "v < 256 ^ n"
  have "le_enc n (le_val (rev (le_enc n v))) = rev (le_enc n v)"
    using le_enc_val [of "rev (le_enc n v)"] by simp
  with v show ?thesis by (simp add: bswap_def le_val_enc)
qed

lemma bswap_bound: "bswap n v < 256 ^ n"
  using le_val_bound [of "rev (le_enc n v)"] by (simp add: bswap_def)

lemma htonl_htonl [simp]: "htonl (htonl x) = x"
proof -
  have x: "unat x < 256 ^ 4" using unsigned_less [of x, where 'a = nat] by simp
  have "unat (of_nat (bswap 4 (unat x)) :: u32) = bswap 4 (unat x)"
    using bswap_bound [of 4 "unat x"] by (simp add: unat_of_nat)
  with bswap_bswap [OF x] show ?thesis by (simp add: htonl_def)
qed

lemma htonl_inject [simp]: "htonl x = htonl y \<longleftrightarrow> x = y"
  by (metis htonl_htonl)

section \<open>Increments that do not wrap\<close>

lemma unat_plus_one:
  assumes "i < (a :: u64)"
  shows "unat (i + 1) = unat i + 1"
proof -
  have "unat i < unat a" using assms by (simp add: word_less_nat_alt)
  moreover have "unat a < 2 ^ 64" using unsigned_less [of a, where 'a = nat] by simp
  ultimately show ?thesis by (simp add: unat_word_ariths)
qed

lemma unat_inc: "(z :: u64) + 1 \<noteq> 0 \<Longrightarrow> unat (z + 1) = unat z + 1"
proof -
  assume nz: "z + 1 \<noteq> 0"
  have e: "unat (z + 1) = (unat z + 1) mod 2 ^ 64" by (simp add: unat_word_ariths)
  have "unat z < 2 ^ 64" using unsigned_less [of z, where 'a = nat] by simp
  moreover have "unat (z + 1) \<noteq> 0" using nz by (simp add: unat_eq_0)
  ultimately show ?thesis using e by (cases "unat z + 1 = 2 ^ 64") auto
qed

lemma u64_less_plus_one: "(z :: u64) + 1 \<noteq> 0 \<Longrightarrow> z < z + 1"
  by (simp add: word_less_nat_alt unat_inc)

section \<open>The advance loop\<close>

text \<open>
  \<^verbatim>\<open>while (found(x + 1)) x++;\<close> on a \<open>uint64_t\<close>. The fuel bounds the number of tests of the
  guard; \<open>advance_terminates\<close> says how much is enough: when what can be found is held in an
  array, one more than its length.
\<close>

fun advance :: "nat \<Rightarrow> (u64 \<Rightarrow> bool) \<Rightarrow> u64 \<Rightarrow> u64 option" where
  "advance 0 P x = None"
| "advance (Suc f) P x = (if P (x + 1) then advance f P (x + 1) else Some x)"

lemma advance_None: "advance f P x = None \<Longrightarrow> \<forall>k\<in>{1..f}. P (x + of_nat k)"
proof (induction f arbitrary: x)
  case 0
  show ?case by simp
next
  case (Suc f)
  then have p: "P (x + 1)" and n: "advance f P (x + 1) = None"
    by (auto split: if_splits)
  show ?case
  proof
    fix k assume k: "k \<in> {1..Suc f}"
    show "P (x + of_nat k)"
    proof (cases "k = 1")
      case True
      with p show ?thesis by simp
    next
      case False
      with k have "k - 1 \<in> {1..f}" by auto
      with Suc.IH [OF n] have "P (x + 1 + of_nat (k - 1))" by blast
      moreover from k have "x + 1 + of_nat (k - 1) = x + of_nat k"
        by (cases k) (auto simp: algebra_simps)
      ultimately show ?thesis by metis
    qed
  qed
qed

lemma advance_terminates:
  assumes found: "\<And>i. P i \<Longrightarrow> i \<in> set arr" and small: "length arr < 2 ^ 64 - 1"
  shows "\<exists>y. advance (Suc (length arr)) P x = Some y"
proof (rule ccontr)
  let ?n = "Suc (length arr)"
  assume "\<not> ?thesis"
  then have all: "\<forall>k\<in>{1..?n}. P (x + of_nat k)"
    using advance_None by (metis not_None_eq)
  have "inj_on (\<lambda>k. x + of_nat k :: u64) {1..?n}"
  proof (rule inj_onI)
    fix i j assume ij: "i \<in> {1..?n}" "j \<in> {1..?n}"
      and eq: "x + of_nat i = (x + of_nat j :: u64)"
    from eq have "unat (of_nat i :: u64) = unat (of_nat j :: u64)" by simp
    with ij small show "i = j" by (simp add: unat_of_nat)
  qed
  then have "card ((\<lambda>k. x + of_nat k :: u64) ` {1..?n}) = ?n"
    by (simp add: card_image)
  moreover have "(\<lambda>k. x + of_nat k :: u64) ` {1..?n} \<subseteq> set arr"
    using all found by blast
  then have "card ((\<lambda>k. x + of_nat k :: u64) ` {1..?n}) \<le> card (set arr)"
    by (simp add: card_mono)
  ultimately show False using card_length [of arr] by simp
qed

lemma advance_stops: "advance f P x = Some y \<Longrightarrow> \<not> P (y + 1)"
  by (induction f arbitrary: x) (auto split: if_splits)

lemma advance_invariant:
  "advance f P x = Some y \<Longrightarrow> Q x \<Longrightarrow> (\<And>z. Q z \<Longrightarrow> P (z + 1) \<Longrightarrow> Q (z + 1)) \<Longrightarrow> Q y"
  by (induction f arbitrary: x) (auto split: if_splits)

end
