(* ===== verification/RingBuffer.thy ===== *)
theory RingBuffer
  imports Prelude
begin

text \<open>
  The arithmetic of circular arrays, and the first-in-first-out interface that the queues of the
  program promise. \<open>ring_list\<close> is the abstraction function: the elements between the read index
  and the write index of an array that wraps around at its capacity. The locale \<open>fifo\<close> states
  what a client of a queue may rely on while there is room; it is interpreted on \<open>AckQueue\<close> in
  \<open>Package\<close> and on \<open>PackageSegmentList\<close> in \<open>Segments\<close>.
\<close>

definition ring_list :: "'a list \<Rightarrow> nat \<Rightarrow> nat \<Rightarrow> nat \<Rightarrow> 'a list" where
  "ring_list arr cap start n = map (\<lambda>i. arr ! ((start + i) mod cap)) [0..<n]"

definition ring_ok :: "'a list \<Rightarrow> nat \<Rightarrow> nat \<Rightarrow> nat \<Rightarrow> nat \<Rightarrow> bool" where
  "ring_ok arr cap start end n \<longleftrightarrow>
     0 < cap \<and> length arr = cap \<and> start < cap \<and> n \<le> cap \<and> end = (start + n) mod cap"

lemma length_ring_list [simp]: "length (ring_list arr cap start n) = n"
  by (simp add: ring_list_def)

lemma ring_list_0 [simp]: "ring_list arr cap start 0 = []"
  by (simp add: ring_list_def)

lemma ring_list_eq_Nil [simp]: "ring_list arr cap start n = [] \<longleftrightarrow> n = 0"
  by (simp add: ring_list_def)

lemma ring_ok_end_less: "ring_ok arr cap start end n \<Longrightarrow> end < cap"
  by (simp add: ring_ok_def)

lemma mod_add_distinct:
  assumes "i < (c :: nat)" "j < c" "(s + i) mod c = (s + j) mod c"
  shows "i = j"
proof -
  have *: "p = q" if "p \<le> q" "q < c" "(s + p) mod c = (s + q) mod c" for p q
  proof -
    have "c dvd (s + q) - (s + p)"
      using that by (subst mod_eq_dvd_iff_nat [symmetric]) auto
    with that show ?thesis by (auto dest: dvd_imp_le)
  qed
  show ?thesis using assms *[of i j] *[of j i] by (cases "i \<le> j") auto
qed

text \<open>Writing beyond the live window leaves the window alone.\<close>

lemma ring_list_update_outside:
  assumes "n \<le> k" "k < cap"
  shows "ring_list (arr[(start + k) mod cap := x]) cap start n = ring_list arr cap start n"
proof -
  have "(start + k) mod cap \<noteq> (start + i) mod cap" if "i < n" for i
    using mod_add_distinct [of k cap i start] assms that by auto
  then show ?thesis by (simp add: ring_list_def)
qed

lemma ring_list_nth: "i < n \<Longrightarrow> ring_list arr cap start n ! i = arr ! ((start + i) mod cap)"
  by (simp add: ring_list_def)

lemma ring_list_update_inside:
  assumes "k < n" "n \<le> cap" "length arr = cap"
  shows "ring_list (arr[(start + k) mod cap := x]) cap start n = (ring_list arr cap start n)[k := x]"
proof (rule nth_equalityI)
  fix i assume "i < length (ring_list (arr[(start + k) mod cap := x]) cap start n)"
  then have i: "i < n" by simp
  have "(start + k) mod cap < length arr" using assms by (cases cap) auto
  moreover have "(start + k) mod cap = (start + i) mod cap \<Longrightarrow> k = i"
    using mod_add_distinct [of k cap i start] assms i by simp
  ultimately show "ring_list (arr[(start + k) mod cap := x]) cap start n ! i
      = (ring_list arr cap start n)[k := x] ! i"
    using i assms by (auto simp: ring_list_nth nth_list_update)
qed simp

lemma ring_list_Suc: "ring_list arr cap start (Suc n) =
    ring_list arr cap start n @ [arr ! ((start + n) mod cap)]"
  by (simp add: ring_list_def)

lemma ring_list_snoc:
  assumes "ring_ok arr cap start end n" "n < cap"
  shows "ring_list (arr[end := x]) cap start (Suc n) = ring_list arr cap start n @ [x]"
  using assms ring_list_update_outside [of n n cap arr start x]
  by (simp add: ring_list_Suc ring_ok_def)

lemma ring_ok_snoc:
  assumes "ring_ok arr cap start end n" "n < cap"
  shows "ring_ok (arr[end := x]) cap start ((end + 1) mod cap) (Suc n)"
  using assms by (simp add: ring_ok_def mod_simps)

lemma ring_list_Cons:
  assumes "ring_ok arr cap start end (Suc n)"
  shows "ring_list arr cap start (Suc n) = arr ! start # ring_list arr cap ((start + 1) mod cap) n"
proof -
  have "map (\<lambda>i. arr ! ((start + i) mod cap)) [0..<Suc n] =
      arr ! (start mod cap) # map (\<lambda>i. arr ! ((start + Suc i) mod cap)) [0..<n]"
    by (simp add: upt_conv_Cons map_Suc_upt [symmetric] del: upt_Suc map_Suc_upt)
  then show ?thesis using assms by (simp add: ring_list_def ring_ok_def mod_simps)
qed

lemma ring_ok_tl:
  assumes "ring_ok arr cap start end (Suc n)"
  shows "ring_ok arr cap ((start + 1) mod cap) end n"
  using assms by (simp add: ring_ok_def mod_simps)

lemmas ring_simps = ring_list_snoc ring_ok_snoc ring_list_Cons ring_ok_tl

section \<open>The queue interface\<close>

locale fifo =
  fixes push :: "'a \<Rightarrow> 'q \<Rightarrow> 'q"
    and pop :: "'q \<Rightarrow> 'r \<times> 'q"
    and contents :: "'q \<Rightarrow> 'a list"
    and room :: "'q \<Rightarrow> nat"
    and invar :: "'q \<Rightarrow> bool"
    and ret :: "'a \<Rightarrow> 'r"
    and none :: "'r"
  assumes contents_push: "invar q \<Longrightarrow> 0 < room q \<Longrightarrow> contents (push x q) = contents q @ [x]"
    and invar_push: "invar q \<Longrightarrow> 0 < room q \<Longrightarrow> invar (push x q)"
    and room_push: "invar q \<Longrightarrow> 0 < room q \<Longrightarrow> room (push x q) = room q - 1"
    and pop_empty: "invar q \<Longrightarrow> contents q = [] \<Longrightarrow> pop q = (none, q)"
    and pop_fst: "invar q \<Longrightarrow> contents q = x # xs \<Longrightarrow> fst (pop q) = ret x"
    and pop_contents: "invar q \<Longrightarrow> contents q = x # xs \<Longrightarrow> contents (snd (pop q)) = xs"
    and pop_invar: "invar q \<Longrightarrow> invar (snd (pop q))"
begin

primrec pops :: "nat \<Rightarrow> 'q \<Rightarrow> 'r list \<times> 'q" where
  "pops 0 q = ([], q)"
| "pops (Suc n) q = (case pop q of (r, q1) \<Rightarrow> case pops n q1 of (rs, q2) \<Rightarrow> (r # rs, q2))"

lemma push_all:
  "invar q \<Longrightarrow> length xs \<le> room q \<Longrightarrow>
     invar (fold push xs q) \<and> contents (fold push xs q) = contents q @ xs"
proof (induction xs arbitrary: q)
  case (Cons x xs)
  then have r: "0 < room q" and l: "length xs \<le> room (push x q)"
    by (auto simp: room_push)
  have "invar (push x q)" using Cons.prems(1) r by (rule invar_push)
  then show ?case using Cons.IH [OF _ l] contents_push [OF Cons.prems(1) r, of x] by simp
qed simp

lemma pops_contents:
  "invar q \<Longrightarrow> contents q = xs @ ys \<Longrightarrow>
     fst (pops (length xs) q) = map ret xs \<and> contents (snd (pops (length xs) q)) = ys"
proof (induction xs arbitrary: q)
  case (Cons x xs)
  obtain r q1 where p: "pop q = (r, q1)" by fastforce
  have "contents q = x # (xs @ ys)" using Cons.prems by simp
  with Cons.prems(1) p have "r = ret x" "contents q1 = xs @ ys" "invar q1"
    using pop_fst pop_contents pop_invar by (metis fst_conv, metis snd_conv, metis snd_conv)
  with Cons.IH [of q1] p show ?case by (auto split: prod.splits)
qed simp

text \<open>What goes in comes out, once and in order.\<close>

lemma fifo_order:
  assumes "invar q" "contents q = []" "length xs \<le> room q"
  shows "fst (pops (length xs) (fold push xs q)) = map ret xs"
proof -
  have "invar (fold push xs q)" "contents (fold push xs q) = xs @ []"
    using push_all [OF assms(1,3)] assms(2) by auto
  then show ?thesis using pops_contents by blast
qed

end

end
