(* ===== verification/Package.thy ===== *)
theory Package
  imports RingBuffer
begin

text \<open>
  Model of \<open>src/src/rudp/Package.h\<close>: the package types of the reliable-UDP protocol, the queue of
  identifiers waiting to be acknowledged (\<open>AckQueue\<close>), and the classes that lay packages out in
  byte buffers. A class that keeps typed pointers into its \<open>bytes\<close> (\<open>base\<close>, \<open>data\<close>, \<open>ack\<close>,
  \<open>ping\<close>, \<open>create\<close>, \<open>create_r\<close>) is a record of what these pointers show, with a \<open>_bytes\<close>
  function that gives the buffer. A \<open>load\<close> from a receive buffer reads through the same layout
  and faults when it reads outside the buffer.
\<close>

section \<open>Package types and sizes\<close>

datatype PackageType =
    ConnectionCreate | ConnectionCreateR | ConnectionClose | ConnectionCloseR | Ping | Data | Ack

fun type_code :: "PackageType \<Rightarrow> nat" where
  "type_code ConnectionCreate = 0"
| "type_code ConnectionCreateR = 1"
| "type_code ConnectionClose = 2"
| "type_code ConnectionCloseR = 3"
| "type_code Ping = 4"
| "type_code Data = 5"
| "type_code Ack = 6"

definition decode_type :: "nat \<Rightarrow> PackageType option" where
  "decode_type n =
     (if n = 0 then Some ConnectionCreate else if n = 1 then Some ConnectionCreateR
      else if n = 2 then Some ConnectionClose else if n = 3 then Some ConnectionCloseR
      else if n = 4 then Some Ping else if n = 5 then Some Data
      else if n = 6 then Some Ack else None)"

definition parse_package_type :: "bytes \<Rightarrow> PackageType option outcome" where
  "parse_package_type buf = bind_out (get_le 4 0 buf) (\<lambda>n. Inr (decode_type n))"

text \<open>The sizes the compiler gives the wire structures; an empty struct has size 1 in C++.\<close>

definition sizeof_base :: nat where "sizeof_base = 4"
definition sizeof_data :: nat where "sizeof_data = 16"
definition sizeof_ack :: nat where "sizeof_ack = 24"
definition sizeof_ping :: nat where "sizeof_ping = 1"
definition sizeof_create :: nat where "sizeof_create = 4"
definition sizeof_create_r :: nat where "sizeof_create_r = 8"
definition sizeof_close :: nat where "sizeof_close = 1"

lemmas sizeof_defs = sizeof_base_def sizeof_data_def sizeof_ack_def sizeof_ping_def
  sizeof_create_def sizeof_create_r_def sizeof_close_def

lemma type_code_less: "type_code t < 7"
  by (cases t) auto

lemma decode_type_code [codec]: "decode_type (type_code t) = Some t"
  by (cases t) (auto simp: decode_type_def)

lemma decode_type_eq_Some_iff: "decode_type n = Some t \<longleftrightarrow> n = type_code t"
  by (cases t) (auto simp: decode_type_def split: if_splits)

section \<open>AckQueue\<close>

text \<open>
  \<open>arr\<close> is allocated uninitialised, so the constructor takes the contents it finds there. The
  copy constructor shares the array (and does not own it): two queues on one array are two
  records whose \<open>aq_arr\<close> fields the caller keeps equal (\<open>aq_view\<close> re-reads the shared array).
\<close>

record ackqueue =
  aq_arr :: "u64 list"
  aq_len :: nat
  aq_start :: nat
  aq_end :: nat
  aq_capacity :: nat
  aq_mem :: bool

definition AckQueue_new :: "u64 list \<Rightarrow> nat \<Rightarrow> ackqueue" where
  "AckQueue_new junk capacity =
     \<lparr>aq_arr = take capacity junk, aq_len = 0, aq_start = 0, aq_end = 0,
      aq_capacity = capacity, aq_mem = True\<rparr>"

definition AckQueue_copy :: "ackqueue \<Rightarrow> ackqueue" where
  "AckQueue_copy q = q\<lparr>aq_mem := False\<rparr>"

definition AckQueue_push :: "u64 \<Rightarrow> ackqueue \<Rightarrow> ackqueue" where
  "AckQueue_push x q =
     q\<lparr>aq_arr := (aq_arr q)[aq_end q := x],
       aq_end := (aq_end q + 1) mod aq_capacity q,
       aq_len := aq_len q + 1\<rparr>"

definition AckQueue_pop :: "ackqueue \<Rightarrow> u64 \<times> ackqueue" where
  "AckQueue_pop q =
     (if aq_len q = 0 then (0, q)
      else (aq_arr q ! aq_start q,
            q\<lparr>aq_start := (aq_start q + 1) mod aq_capacity q, aq_len := aq_len q - 1\<rparr>))"

definition AckQueue_rebase :: "ackqueue \<Rightarrow> ackqueue" where
  "AckQueue_rebase q = q\<lparr>aq_len := 0, aq_start := aq_end q\<rparr>"

definition AckQueue_size :: "ackqueue \<Rightarrow> nat" where
  "AckQueue_size q = aq_len q"

definition aq_view :: "u64 list \<Rightarrow> ackqueue \<Rightarrow> ackqueue" where
  "aq_view arr q = q\<lparr>aq_arr := arr\<rparr>"

definition aq_contents :: "ackqueue \<Rightarrow> u64 list" where
  "aq_contents q = ring_list (aq_arr q) (aq_capacity q) (aq_start q) (aq_len q)"

definition aq_ok :: "ackqueue \<Rightarrow> bool" where
  "aq_ok q \<longleftrightarrow> ring_ok (aq_arr q) (aq_capacity q) (aq_start q) (aq_end q) (aq_len q)"

definition aq_room :: "ackqueue \<Rightarrow> nat" where
  "aq_room q = aq_capacity q - aq_len q"

section \<open>PackageData\<close>

type_synonym timeval = "int \<times> int"  \<comment> \<open>\<open>tv_sec\<close>, \<open>tv_usec\<close>\<close>

record PackageData =
  pd_type :: PackageType
  pd_package_id :: u64
  pd_una :: u64
  pd_data :: bytes
  pd_send_count :: int
  pd_send_time :: timeval

definition pd_bytes :: "PackageData \<Rightarrow> bytes" where
  "pd_bytes p = le_enc 4 (type_code (pd_type p)) @ le_enc 8 (unat (pd_package_id p))
     @ le_enc 8 (unat (pd_una p)) @ pd_data p"

definition pd_length :: "PackageData \<Rightarrow> nat" where
  "pd_length p = sizeof_base + sizeof_data + length (pd_data p)"

text \<open>
  The two constructors for packages to send leave the header fields as the allocator gave them;
  the identifiers are arguments here.
\<close>

definition PackageData_from_data :: "u64 \<Rightarrow> u64 \<Rightarrow> timeval \<Rightarrow> bytes \<Rightarrow> PackageData" where
  "PackageData_from_data junk_id junk_una junk_time bs =
     \<lparr>pd_type = Data, pd_package_id = junk_id, pd_una = junk_una, pd_data = bs,
      pd_send_count = 0, pd_send_time = junk_time\<rparr>"

definition PackageData_len :: "u64 \<Rightarrow> u64 \<Rightarrow> timeval \<Rightarrow> bytes \<Rightarrow> PackageData" where
  \<comment> \<open>\<open>junk\<close> is the uninitialised payload of the requested length\<close>
  "PackageData_len junk_id junk_una junk_time junk = PackageData_from_data junk_id junk_una junk_time junk"

text \<open>
  From a receive buffer: the first \<open>total_len\<close> bytes are copied. The receiver reads both header
  fields of the copy right after the constructor, which faults when the copy is shorter than
  the header.
\<close>

definition PackageData_from_buf :: "timeval \<Rightarrow> bytes \<Rightarrow> nat \<Rightarrow> PackageData outcome" where
  "PackageData_from_buf junk_time buf total_len =
     (let b = take total_len buf in
      bind_out (get_le 8 sizeof_base b) (\<lambda>i.
      bind_out (get_le 8 (sizeof_base + 8) b) (\<lambda>u.
        Inr \<lparr>pd_type = Data, pd_package_id = of_nat i, pd_una = of_nat u,
             pd_data = drop (sizeof_base + sizeof_data) b,
             pd_send_count = 0, pd_send_time = junk_time\<rparr>)))"

section \<open>PackageAck\<close>

record PackageAck =
  pa_una :: u64
  pa_send_from :: u64
  pa_ack_list :: "u64 list"

definition pa_bytes :: "PackageAck \<Rightarrow> bytes" where
  "pa_bytes a = le_enc 4 (type_code Ack) @ le_enc 8 (unat (pa_una a))
     @ le_enc 8 (unat (pa_send_from a)) @ le_enc 8 (length (pa_ack_list a))
     @ concat (map (\<lambda>i. le_enc 8 (unat i)) (pa_ack_list a))"

definition pa_length :: "PackageAck \<Rightarrow> nat" where
  "pa_length a = sizeof_base + sizeof_ack + 8 * length (pa_ack_list a)"

text \<open>
  \<open>load\<close> from the queue: the loop pops until \<open>max_ack\<close> identifiers above \<open>una\<close> were taken or the
  queue is empty; identifiers at or below \<open>una\<close> are consumed and not listed.
\<close>

function ack_load_loop :: "nat \<Rightarrow> u64 \<Rightarrow> ackqueue \<Rightarrow> u64 list \<times> ackqueue" where
  "ack_load_loop room una q =
     (if 0 < room \<and> 0 < AckQueue_size q then
        (case AckQueue_pop q of (x, q1) \<Rightarrow>
          (if una < x then
             (case ack_load_loop (room - 1) una q1 of (xs, q2) \<Rightarrow> (x # xs, q2))
           else ack_load_loop room una q1))
      else ([], q))"
  by pat_completeness auto
termination
  by (relation "measure (\<lambda>(room, una, q). aq_len q)")
    (auto simp: AckQueue_size_def AckQueue_pop_def split: if_splits)

definition PackageAck_load_queue ::
  "nat \<Rightarrow> u64 \<Rightarrow> ackqueue \<Rightarrow> PackageAck \<Rightarrow> PackageAck \<times> ackqueue" where
  "PackageAck_load_queue max_ack una q a =
     (case ack_load_loop max_ack una q of (xs, q1) \<Rightarrow>
        (a\<lparr>pa_una := una, pa_ack_list := xs\<rparr>, q1))"

text \<open>\<open>load\<close> from a receive buffer, with the reads of \<open>ack_list\<close> that the receiver's loop makes.\<close>

fun get_u64s :: "nat \<Rightarrow> nat \<Rightarrow> bytes \<Rightarrow> u64 list outcome" where
  "get_u64s 0 off buf = Inr []"
| "get_u64s (Suc n) off buf =
     bind_out (get_le 8 off buf) (\<lambda>v.
     bind_out (get_u64s n (off + 8) buf) (\<lambda>vs. Inr (of_nat v # vs)))"

definition PackageAck_load_buf :: "bytes \<Rightarrow> PackageAck outcome" where
  "PackageAck_load_buf buf =
     bind_out (get_le 8 sizeof_base buf) (\<lambda>una.
     bind_out (get_le 8 (sizeof_base + 8) buf) (\<lambda>send_from.
     bind_out (get_le 8 (sizeof_base + 16) buf) (\<lambda>ack_count.
     bind_out (get_u64s ack_count (sizeof_base + sizeof_ack) buf) (\<lambda>ids.
       Inr \<lparr>pa_una = of_nat una, pa_send_from = of_nat send_from, pa_ack_list = ids\<rparr>))))"

section \<open>PackagePing and the connection packages\<close>

definition PackagePing_bytes :: "bool \<Rightarrow> bytes" where
  "PackagePing_bytes ping_back = le_enc 4 (type_code Ping) @ [if ping_back then 1 else 0]"

definition ping_back_of :: "bytes \<Rightarrow> bool outcome" where
  "ping_back_of buf = bind_out (get_le 1 sizeof_base buf) (\<lambda>b. Inr (b \<noteq> 0))"

definition ping_set_back :: "bytes \<Rightarrow> bytes" where
  \<comment> \<open>\<open>load\<close> stores the type again; the answer differs from the question in \<open>ping_back\<close> alone\<close>
  "ping_set_back buf = (overlay (le_enc 4 (type_code Ping)) buf)[sizeof_base := 1]"

definition PackageConnectionCreate_bytes :: "u32 \<Rightarrow> bytes" where
  "PackageConnectionCreate_bytes download_speed =
     le_enc 4 (type_code ConnectionCreate) @ le_enc 4 (unat download_speed)"

definition PackageConnectionCreateR_bytes :: "u32 \<Rightarrow> u32 \<Rightarrow> bytes" where
  "PackageConnectionCreateR_bytes download_speed port =
     le_enc 4 (type_code ConnectionCreateR) @ le_enc 4 (unat port) @ le_enc 4 (unat download_speed)"

definition PackageConnectionClose_bytes :: "u8 \<Rightarrow> bytes" where
  \<comment> \<open>the empty struct contributes one byte that is never written\<close>
  "PackageConnectionClose_bytes junk = le_enc 4 (type_code ConnectionClose) @ [junk]"

section \<open>AckQueue is a queue while it has room\<close>

lemma AckQueue_push_ok:
  assumes "aq_ok q" "0 < aq_room q"
  shows "aq_ok (AckQueue_push x q)"
    and "aq_contents (AckQueue_push x q) = aq_contents q @ [x]"
    and "aq_room (AckQueue_push x q) = aq_room q - 1"
  using assms by (auto simp: aq_ok_def aq_contents_def aq_room_def AckQueue_push_def
      intro: ring_ok_snoc [simplified] simp: ring_list_snoc [simplified])

lemma AckQueue_pop_ok:
  assumes "aq_ok q"
  shows "aq_ok (snd (AckQueue_pop q))"
    and "aq_contents q = [] \<Longrightarrow> AckQueue_pop q = (0, q)"
    and "aq_contents q = x # xs \<Longrightarrow> fst (AckQueue_pop q) = x"
    and "aq_contents q = x # xs \<Longrightarrow> aq_contents (snd (AckQueue_pop q)) = xs"
proof -
  have *: "ring_list (aq_arr q) (aq_capacity q) (aq_start q) (aq_len q) =
      aq_arr q ! aq_start q #
      ring_list (aq_arr q) (aq_capacity q) ((aq_start q + 1) mod aq_capacity q) (aq_len q - 1)"
    and **: "ring_ok (aq_arr q) (aq_capacity q) ((aq_start q + 1) mod aq_capacity q)
      (aq_end q) (aq_len q - 1)" if "0 < aq_len q"
    using assms that ring_list_Cons [of "aq_arr q" "aq_capacity q" "aq_start q" "aq_end q" "aq_len q - 1"]
      ring_ok_tl [of "aq_arr q" "aq_capacity q" "aq_start q" "aq_end q" "aq_len q - 1"]
    by (auto simp: aq_ok_def)
  show "aq_ok (snd (AckQueue_pop q))" using assms ** by (auto simp: AckQueue_pop_def aq_ok_def)
  show "aq_contents q = [] \<Longrightarrow> AckQueue_pop q = (0, q)"
    by (simp add: aq_contents_def AckQueue_pop_def)
  show "aq_contents q = x # xs \<Longrightarrow> fst (AckQueue_pop q) = x"
    and "aq_contents q = x # xs \<Longrightarrow> aq_contents (snd (AckQueue_pop q)) = xs"
    using * by (cases "aq_len q"; auto simp: aq_contents_def AckQueue_pop_def)+
qed

interpretation ackq: fifo AckQueue_push AckQueue_pop aq_contents aq_room aq_ok id "0 :: u64"
  by unfold_locales (simp_all add: AckQueue_push_ok AckQueue_pop_ok)

lemma AckQueue_size_contents: "AckQueue_size q = length (aq_contents q)"
  by (simp add: AckQueue_size_def aq_contents_def)


text \<open>
  The acknowledgement sender copies the queue, empties the original with \<open>rebase\<close> and then reads
  the copy without holding the lock, while the receiver pushes to the original. Both share the
  array, so the copy is re-read through the array as the pushes left it.
\<close>

lemma aq_rebase_ok: "aq_ok q \<Longrightarrow> aq_ok (AckQueue_rebase q)"
  by (auto simp: aq_ok_def AckQueue_rebase_def ring_ok_def)

lemma aq_rebase_contents [simp]: "aq_contents (AckQueue_rebase q) = []"
  by (simp add: aq_contents_def AckQueue_rebase_def)

lemma aq_push_all_frame:
  "aq_capacity (fold AckQueue_push xs q) = aq_capacity q \<and>
   aq_end (fold AckQueue_push xs q) =
     (if xs = [] then aq_end q else (aq_end q + length xs) mod aq_capacity q)"
  by (induction xs arbitrary: q) (auto simp: AckQueue_push_def mod_simps)

lemma aq_snapshot_stable:
  assumes ok: "aq_ok q"
  shows "length xs \<le> aq_room q \<Longrightarrow>
    aq_contents (aq_view (aq_arr (fold AckQueue_push xs (AckQueue_rebase q))) (AckQueue_copy q))
    = aq_contents q"
proof (induction xs rule: rev_induct)
  case Nil
  show ?case by (simp add: aq_view_def AckQueue_copy_def AckQueue_rebase_def aq_contents_def)
next
  case (snoc x xs)
  let ?l = "fold AckQueue_push xs (AckQueue_rebase q)"
  have e: "aq_end ?l = (aq_start q + (aq_len q + length xs)) mod aq_capacity q"
    using ok aq_push_all_frame [of xs "AckQueue_rebase q"]
    by (auto simp: aq_ok_def ring_ok_def AckQueue_rebase_def mod_simps add.assoc)
  have "aq_len q + length xs < aq_capacity q"
    using snoc.prems ok by (auto simp: aq_room_def aq_ok_def ring_ok_def)
  from ring_list_update_outside [OF _ this, of "aq_len q" "aq_arr ?l" "aq_start q" x]
  have "ring_list (aq_arr (AckQueue_push x ?l)) (aq_capacity q) (aq_start q) (aq_len q)
      = ring_list (aq_arr ?l) (aq_capacity q) (aq_start q) (aq_len q)"
    using e by (simp add: AckQueue_push_def)
  then show ?case using snoc
    by (simp add: aq_contents_def aq_view_def AckQueue_copy_def)
qed

section \<open>Filling an acknowledgement package\<close>

declare ack_load_loop.simps [simp del]

lemma ack_load_loop_split:
  "aq_ok q \<Longrightarrow> ack_load_loop n una q = (xs, q') \<Longrightarrow>
     aq_ok q' \<and> (\<exists>pre. aq_contents q = pre @ aq_contents q' \<and> filter (\<lambda>i. una < i) pre = xs) \<and>
     length xs \<le> n \<and> (length xs < n \<longrightarrow> aq_contents q' = [])"
proof (induction n una q arbitrary: xs q' rule: ack_load_loop.induct)
  case (1 n una q)
  show ?case
  proof (cases "0 < n \<and> aq_contents q \<noteq> []")
    case False
    with 1(4) have "xs = []" "q' = q" "length xs < n \<Longrightarrow> aq_contents q = []"
      by (auto simp: ack_load_loop.simps [of n una q] AckQueue_size_contents split: if_splits)
    with 1(3) show ?thesis by simp
  next
    case True
    then obtain x ys where c: "aq_contents q = x # ys" by (cases "aq_contents q") auto
    obtain q1 where p: "AckQueue_pop q = (x, q1)"
      using AckQueue_pop_ok(3) [OF 1(3) c] by (metis prod.collapse)
    have q1: "aq_ok q1" "aq_contents q1 = ys"
      using AckQueue_pop_ok(1,4) [OF 1(3)] c p by (metis snd_conv)+
    have g: "0 < n \<and> 0 < AckQueue_size q" using True by (simp add: AckQueue_size_contents)
    show ?thesis
    proof (cases "una < x")
      case gt: True
      obtain zs q2 where r: "ack_load_loop (n - 1) una q1 = (zs, q2)" by fastforce
      have x: "xs = x # zs" "q' = q2"
        using 1(4) g p gt r by (auto simp: ack_load_loop.simps [of n una q])
      from 1(1) [OF g p [symmetric] gt q1(1) r] obtain pre where pre: "aq_ok q2"
        "aq_contents q1 = pre @ aq_contents q2" "filter (\<lambda>i. una < i) pre = zs"
        "length zs \<le> n - 1" "length zs < n - 1 \<longrightarrow> aq_contents q2 = []" by blast
      have "aq_contents q = (x # pre) @ aq_contents q'" "filter (\<lambda>i. una < i) (x # pre) = xs"
        using pre c q1 x gt by simp_all
      moreover have "length xs \<le> n" "length xs < n \<longrightarrow> aq_contents q' = []"
        using pre(4,5) x g by auto
      ultimately show ?thesis using pre(1) x by blast
    next
      case le: False
      have r: "ack_load_loop n una q1 = (xs, q')"
        using 1(4) g p le by (simp add: ack_load_loop.simps [of n una q])
      from 1(2) [OF g p [symmetric] le q1(1) r] obtain pre where pre: "aq_ok q'"
        "aq_contents q1 = pre @ aq_contents q'" "filter (\<lambda>i. una < i) pre = xs"
        "length xs \<le> n" "length xs < n \<longrightarrow> aq_contents q' = []" by blast
      have "aq_contents q = (x # pre) @ aq_contents q'" "filter (\<lambda>i. una < i) (x # pre) = xs"
        using pre c q1 le by simp_all
      then show ?thesis using pre by blast
    qed
  qed
qed

lemma ack_load_loop_takes:
  assumes "aq_ok q" "ack_load_loop n una q = (xs, q')"
  shows "xs = take n (filter (\<lambda>i. una < i) (aq_contents q))"
proof -
  from ack_load_loop_split [OF assms] obtain pre where
    pre: "aq_contents q = pre @ aq_contents q'" "filter (\<lambda>i. una < i) pre = xs"
    "length xs \<le> n" "length xs < n \<longrightarrow> aq_contents q' = []" by blast
  have "filter (\<lambda>i. una < i) (aq_contents q) = xs @ filter (\<lambda>i. una < i) (aq_contents q')"
    unfolding pre(1) by (simp add: pre(2))
  then show ?thesis using pre(3,4) by (cases "length xs = n") auto
qed

lemma ack_load_loop_progress:
  assumes "aq_ok q" "0 < n" "aq_contents q \<noteq> []" "ack_load_loop n una q = (xs, q')"
  shows "AckQueue_size q' < AckQueue_size q"
proof -
  from ack_load_loop_split [OF assms(1,4)] obtain pre where
    pre: "aq_contents q = pre @ aq_contents q'" "filter (\<lambda>i. una < i) pre = xs"
    "length xs < n \<longrightarrow> aq_contents q' = []" by blast
  have "pre \<noteq> []"
  proof
    assume "pre = []"
    with pre assms(2,3) show False by auto
  qed
  with pre(1) show ?thesis by (simp add: AckQueue_size_contents)
qed

section \<open>Round trips of the package layouts\<close>

lemma length_pd_bytes: "length (pd_bytes p) = pd_length p"
  by (simp add: pd_bytes_def pd_length_def sizeof_defs)

lemma length_concat_u64 [simp]: "length (concat (map (\<lambda>i. le_enc 8 (unat (i :: u64))) xs)) = 8 * length xs"
  by (induction xs) auto

lemma length_pa_bytes: "length (pa_bytes a) = pa_length a"
  by (simp add: pa_bytes_def pa_length_def sizeof_defs)

lemma pd_bytes_type: "parse_package_type (overlay (pd_bytes p) buf) = Inr (Some (pd_type p))"
proof -
  have "type_code (pd_type p) < 256 ^ 4" using type_code_less [of "pd_type p"] by simp
  then show ?thesis
    by (simp add: parse_package_type_def overlay_def pd_bytes_def get_le_def le_val_enc decode_type_code)
qed

lemma PackageData_roundtrip:
  "PackageData_from_buf t (overlay (pd_bytes p) buf) (pd_length p) =
     Inr (p\<lparr>pd_type := Data, pd_send_count := 0, pd_send_time := t\<rparr>)"
proof -
  have "take (pd_length p) (overlay (pd_bytes p) buf) = pd_bytes p"
    by (simp add: overlay_def length_pd_bytes [symmetric])
  then show ?thesis
    by (simp add: PackageData_from_buf_def pd_bytes_def sizeof_defs get_le_def le_val_enc_u64
        drop_append)
qed

lemma get_u64s_append:
  "length pre = off \<Longrightarrow>
   get_u64s (length xs) off (pre @ concat (map (\<lambda>i. le_enc 8 (unat (i :: u64))) xs) @ post) = Inr xs"
proof (induction xs arbitrary: pre off)
  case (Cons x xs)
  have "get_u64s (length xs) (off + 8)
      ((pre @ le_enc 8 (unat x)) @ concat (map (\<lambda>i. le_enc 8 (unat i)) xs) @ post) = Inr xs"
    using Cons.prems by (intro Cons.IH) simp
  moreover have "get_le 8 off (pre @ le_enc 8 (unat x) @ concat (map (\<lambda>i. le_enc 8 (unat i)) xs) @ post)
      = Inr (unat x)"
    using Cons.prems by (simp add: get_le_append le_val_enc_u64)
  ultimately show ?case by simp
qed simp

lemma PackageAck_roundtrip:
  assumes "length (pa_ack_list a) < 2 ^ 64"
  shows "PackageAck_load_buf (overlay (pa_bytes a) buf) = Inr a"
proof -
  let ?xs = "pa_ack_list a"
  let ?h = "le_enc 4 (type_code Ack) @ le_enc 8 (unat (pa_una a))
     @ le_enc 8 (unat (pa_send_from a)) @ le_enc 8 (length ?xs)"
  have b: "overlay (pa_bytes a) buf =
      ?h @ concat (map (\<lambda>i. le_enc 8 (unat i)) ?xs) @ drop (pa_length a) buf"
    by (simp add: overlay_def length_pa_bytes) (simp add: pa_bytes_def)
  have n: "length ?xs < 256 ^ 8" using assms by simp
  have "get_u64s (length ?xs) 28 (overlay (pa_bytes a) buf) = Inr ?xs"
    unfolding b by (rule get_u64s_append) simp
  moreover have "get_le 8 4 (overlay (pa_bytes a) buf) = Inr (unat (pa_una a))"
    "get_le 8 12 (overlay (pa_bytes a) buf) = Inr (unat (pa_send_from a))"
    "get_le 8 20 (overlay (pa_bytes a) buf) = Inr (length ?xs)"
    unfolding b using n by (simp_all add: get_le_def le_val_enc_u64 le_val_enc)
  ultimately show ?thesis by (simp add: PackageAck_load_buf_def sizeof_defs)
qed

section \<open>Properties\<close>

text \<open>
  A data package survives the wire: the receiver recognises its type and rebuilds identifier,
  cumulative acknowledgement and payload from the datagram, whatever the receive buffer held before.
\<close>

lemma package_data_wire:
  "parse_package_type (overlay (pd_bytes p) buf) = Inr (Some (pd_type p)) \<and>
   PackageData_from_buf t (overlay (pd_bytes p) buf) (length (pd_bytes p)) =
     Inr (p\<lparr>pd_type := Data, pd_send_count := 0, pd_send_time := t\<rparr>)"
  by (simp add: pd_bytes_type PackageData_roundtrip length_pd_bytes)

text \<open>
  The acknowledgement queue is first-in first-out: from any state of the queue, wherever the
  indices stand, pushing as many identifiers as there is room for and then popping everything
  gives the old contents followed by the new identifiers, each once and in order.
\<close>

lemma ackqueue_fifo:
  assumes "aq_ok q" "length xs \<le> aq_room q"
  shows "fst (ackq.pops (length (aq_contents q @ xs)) (fold AckQueue_push xs q)) = aq_contents q @ xs"
  using ackq.push_all [OF assms] ackq.pops_contents [of "fold AckQueue_push xs q" "aq_contents q @ xs" "[]"]
  by simp

lemma ackqueue_fifo_witness:
  "fst (ackq.pops 3 (fold AckQueue_push [5, 6] \<lparr>aq_arr = [0, 0, 7], aq_len = 1, aq_start = 2, aq_end = 0,
     aq_capacity = 3, aq_mem = True\<rparr>)) = [7, 5, 6]"
proof -
  let ?q = "\<lparr>aq_arr = [0, 0, 7], aq_len = 1, aq_start = 2, aq_end = 0, aq_capacity = 3, aq_mem = True\<rparr>"
  have "aq_ok ?q" "length [5, 6 :: u64] \<le> aq_room ?q" "aq_contents ?q = [7]"
    by (simp_all add: aq_ok_def ring_ok_def aq_room_def aq_contents_def ring_list_def)
  with ackqueue_fifo [OF this(1,2)] show ?thesis by (simp add: numeral_3_eq_3)
qed

text \<open>
  Reading a snapshot without the lock is safe: the acknowledgement sender copies the queue and
  rebases the original; while the receiver pushes no more identifiers than the queue had room for,
  the copy, which shares the array, keeps the contents it was taken with.
\<close>

lemma ackqueue_snapshot:
  assumes "aq_ok q" "length xs \<le> aq_room q"
  shows "aq_contents (aq_view (aq_arr (fold AckQueue_push xs (AckQueue_rebase q))) (AckQueue_copy q))
    = aq_contents q"
  using assms by (rule aq_snapshot_stable)

lemma ackqueue_snapshot_witness:
  "aq_contents (aq_view
     (aq_arr (fold AckQueue_push [9] (AckQueue_rebase (AckQueue_push 4 (AckQueue_new [0, 0] 2)))))
     (AckQueue_copy (AckQueue_push 4 (AckQueue_new [0, 0] 2)))) = [4]"
proof -
  let ?q = "AckQueue_push 4 (AckQueue_new [0, 0] 2)"
  have "aq_ok ?q" "length [9 :: u64] \<le> aq_room ?q"
    by (simp_all add: aq_ok_def ring_ok_def AckQueue_push_def AckQueue_new_def aq_room_def)
  from ackqueue_snapshot [OF this] show ?thesis
    by (simp add: aq_contents_def ring_list_def AckQueue_push_def AckQueue_new_def)
qed

end
