(* ===== verification/Crypto.thy ===== *)
theory Crypto
  imports Prelude
begin

text \<open>
  Model of \<open>src/src/SharpCrypto.h\<close> and \<open>src/src/SharpCrypto.cpp\<close>: the key buffer and the framing of an encrypted
  message as nonce, authenticator and ciphertext. The two libsodium functions are arguments:
  \<open>easy key nonce m\<close> is \<open>crypto_secretbox_easy\<close> (the authenticated ciphertext of \<open>m\<close>) and
  \<open>open_easy key nonce c\<close> is \<open>crypto_secretbox_open_easy\<close> (\<open>None\<close> for a return value other than
  0). What the code relies on is \<open>secretbox_spec\<close>: the ciphertext is \<open>crypto_secretbox_MACBYTES\<close>
  longer than the message, and opening it with the same key and nonce gives the message back.
\<close>

definition crypto_secretbox_KEYBYTES :: nat where "crypto_secretbox_KEYBYTES = 32"
definition crypto_secretbox_NONCEBYTES :: nat where "crypto_secretbox_NONCEBYTES = 24"
definition crypto_secretbox_MACBYTES :: nat where "crypto_secretbox_MACBYTES = 16"

definition SHARPVPN_CRYPTO_OVERHEAD :: nat where
  "SHARPVPN_CRYPTO_OVERHEAD = crypto_secretbox_NONCEBYTES + crypto_secretbox_MACBYTES"

lemmas crypto_sizes = crypto_secretbox_KEYBYTES_def crypto_secretbox_NONCEBYTES_def
  crypto_secretbox_MACBYTES_def SHARPVPN_CRYPTO_OVERHEAD_def

type_synonym easy = "bytes \<Rightarrow> bytes \<Rightarrow> bytes \<Rightarrow> bytes"
type_synonym open_easy = "bytes \<Rightarrow> bytes \<Rightarrow> bytes \<Rightarrow> bytes option"

definition secretbox_spec :: "easy \<Rightarrow> open_easy \<Rightarrow> bool" where
  "secretbox_spec easy open_easy \<longleftrightarrow>
     (\<forall>k n m. length (easy k n m) = length m + crypto_secretbox_MACBYTES) \<and>
     (\<forall>k n m. open_easy k n (easy k n m) = Some m)"

record SharpCrypto =
  sc_key :: bytes
  sc_key_buf :: bytes

definition SharpCrypto_new :: "bytes \<Rightarrow> SharpCrypto" where
  "SharpCrypto_new encryption_key =
     (let key = (if length encryption_key > crypto_secretbox_KEYBYTES
                 then take crypto_secretbox_KEYBYTES encryption_key else encryption_key)
      in \<lparr>sc_key = key, sc_key_buf = overlay key (replicate crypto_secretbox_KEYBYTES 0)\<rparr>)"

definition SharpCrypto_encrypt :: "easy \<Rightarrow> SharpCrypto \<Rightarrow> bytes \<Rightarrow> bytes \<Rightarrow> bytes" where
  \<comment> \<open>\<open>nonce\<close> is what \<open>randombytes_buf\<close> drew; the result is what is written to \<open>ciphertext\<close>\<close>
  "SharpCrypto_encrypt easy c nonce message = nonce @ easy (sc_key_buf c) nonce message"

text \<open>
  \<open>clen - crypto_secretbox_NONCEBYTES\<close> is unsigned: for a shorter input the length given to
  libsodium wraps around and the authenticator is computed over memory outside the buffer.
\<close>

definition SharpCrypto_decrypt :: "open_easy \<Rightarrow> SharpCrypto \<Rightarrow> bytes \<Rightarrow> bytes option outcome" where
  "SharpCrypto_decrypt open_easy c ciphertext =
     (if length ciphertext < crypto_secretbox_NONCEBYTES then Inl OutOfBounds
      else Inr (open_easy (sc_key_buf c) (take crypto_secretbox_NONCEBYTES ciphertext)
                  (drop crypto_secretbox_NONCEBYTES ciphertext)))"

lemma length_key_buf: "length (sc_key_buf (SharpCrypto_new k)) = crypto_secretbox_KEYBYTES"
  by (simp add: SharpCrypto_new_def Let_def overlay_def)

lemma sc_key_rekey: "SharpCrypto_new (sc_key (SharpCrypto_new k)) = SharpCrypto_new k"
  by (simp add: SharpCrypto_new_def Let_def)

lemma decrypt_encrypt:
  assumes "secretbox_spec easy open_easy" "length nonce = crypto_secretbox_NONCEBYTES"
  shows "SharpCrypto_decrypt open_easy c (SharpCrypto_encrypt easy c nonce m) = Inr (Some m)"
  using assms by (simp add: SharpCrypto_decrypt_def SharpCrypto_encrypt_def secretbox_spec_def)

lemma length_encrypt:
  assumes "secretbox_spec easy open_easy" "length nonce = crypto_secretbox_NONCEBYTES"
  shows "length (SharpCrypto_encrypt easy c nonce m) = length m + SHARPVPN_CRYPTO_OVERHEAD"
  using assms by (simp add: SharpCrypto_encrypt_def secretbox_spec_def crypto_sizes)

end
