(* ===== verification/NetStruct.thy ===== *)
theory NetStruct
  imports Package Crypto
begin

text \<open>
  Model of \<open>src/src/rudp/NetStruct.h\<close> and \<open>src/src/rudp/NetStruct.cpp\<close>: the containers of the
  reliable-UDP engine. Packages are heap objects that several containers point to, so they live
  in an explicit store: an address is a number, an address without object is deleted or was
  never allocated, and \<open>delete\<close> or a dereference of such an address is a fault.
\<close>

section \<open>The store of packages\<close>

record heap =
  hp_obj :: "nat \<Rightarrow> PackageData option"
  hp_next :: nat

definition heap_empty :: heap where
  "heap_empty = \<lparr>hp_obj = (\<lambda>_. None), hp_next = 0\<rparr>"

definition heap_new :: "PackageData \<Rightarrow> heap \<Rightarrow> nat \<times> heap" where
  "heap_new d h = (hp_next h, h\<lparr>hp_obj := (hp_obj h)(hp_next h := Some d), hp_next := hp_next h + 1\<rparr>)"

definition heap_delete :: "nat option \<Rightarrow> heap \<Rightarrow> heap outcome" where
  "heap_delete p h =
     (case p of None \<Rightarrow> Inr h
      | Some a \<Rightarrow> (if hp_obj h a = None then Inl UseAfterFree
                  else Inr (h\<lparr>hp_obj := (hp_obj h)(a := None)\<rparr>)))"

definition heap_get :: "nat option \<Rightarrow> heap \<Rightarrow> PackageData outcome" where
  "heap_get p h =
     (case p of None \<Rightarrow> Inl NullDeref | Some a \<Rightarrow> of_option UseAfterFree (hp_obj h a))"

definition heap_put :: "nat \<Rightarrow> PackageData \<Rightarrow> heap \<Rightarrow> heap" where
  "heap_put a d h = h\<lparr>hp_obj := (hp_obj h)(a := Some d)\<rparr>"

definition slot :: "nat \<Rightarrow> u64 \<Rightarrow> nat" where
  "slot capacity i = unat i mod capacity"

section \<open>IdSet\<close>

text \<open>The array is allocated uninitialised: the constructor takes what the memory held.\<close>

record idset =
  is_arr :: "u64 list"
  is_size :: nat

definition IdSet_new :: "u64 list \<Rightarrow> nat \<Rightarrow> idset" where
  "IdSet_new junk arr_size = \<lparr>is_arr = take arr_size junk, is_size = arr_size\<rparr>"

definition IdSet_insert :: "u64 \<Rightarrow> idset \<Rightarrow> idset" where
  "IdSet_insert a s = s\<lparr>is_arr := (is_arr s)[slot (is_size s) a := a]\<rparr>"

definition IdSet_find :: "u64 \<Rightarrow> idset \<Rightarrow> u64" where
  "IdSet_find index s =
     (if is_arr s ! slot (is_size s) index \<noteq> index then 0
      else is_arr s ! slot (is_size s) index)"

definition is_ok :: "idset \<Rightarrow> bool" where
  "is_ok s \<longleftrightarrow> 0 < is_size s \<and> length (is_arr s) = is_size s"

section \<open>PackageMap\<close>

record packagemap =
  pm_data :: "nat option list"
  pm_capacity :: nat
  pm_arr_id :: "u64 list"
  pm_head :: nat
  pm_tail :: nat
  pm_len :: nat

definition PackageMap_new :: "nat \<Rightarrow> packagemap" where
  "PackageMap_new arr_size =
     \<lparr>pm_data = replicate arr_size None, pm_capacity = arr_size, pm_arr_id = replicate arr_size 0,
      pm_head = 1, pm_tail = 1, pm_len = 0\<rparr>"

definition PackageMap_find :: "u64 \<Rightarrow> packagemap \<Rightarrow> nat option" where
  "PackageMap_find index m =
     (if pm_arr_id m ! slot (pm_capacity m) index = index
      then pm_data m ! slot (pm_capacity m) index else None)"

definition PackageMap_index :: "u64 \<Rightarrow> packagemap \<Rightarrow> nat option" where
  "PackageMap_index index m = pm_data m ! slot (pm_capacity m) index"

definition PackageMap_set :: "u64 \<Rightarrow> nat \<Rightarrow> heap \<times> packagemap \<Rightarrow> (heap \<times> packagemap) outcome" where
  "PackageMap_set index data hm =
     (case hm of (h, m) \<Rightarrow>
      let k = slot (pm_capacity m) index in
      bind_out (if pm_arr_id m ! k \<noteq> 0 then heap_delete (pm_data m ! k) h else Inr h) (\<lambda>h.
        Inr (h, m\<lparr>pm_arr_id := (pm_arr_id m)[k := index],
                  pm_data := (pm_data m)[k := Some data]\<rparr>)))"

definition PackageMap_erase :: "u64 \<Rightarrow> heap \<times> packagemap \<Rightarrow> (heap \<times> packagemap) outcome" where
  "PackageMap_erase index hm =
     (case hm of (h, m) \<Rightarrow>
      let k = slot (pm_capacity m) index in
      if pm_arr_id m ! k = index then
        bind_out (heap_delete (pm_data m ! k) h) (\<lambda>h.
          Inr (h, m\<lparr>pm_arr_id := (pm_arr_id m)[k := 0]\<rparr>))
      else Inr (h, m))"

text \<open>
  \<open>push\<close> spins, releasing the lock, while the map is full or the slot is taken: \<open>Inr None\<close> is one
  turn of that loop. The fields \<open>head\<close>, \<open>tail\<close> and \<open>len\<close> are used by \<open>push\<close> and \<open>pop\<close> alone.
\<close>

definition PackageMap_push :: "nat \<Rightarrow> heap \<times> packagemap \<Rightarrow> (heap \<times> packagemap) option outcome" where
  "PackageMap_push data hm =
     (case hm of (h, m) \<Rightarrow>
      bind_out (heap_get (Some data) h) (\<lambda>d.
      let index = slot (pm_capacity m) (pd_package_id d) in
      if pm_capacity m \<le> pm_len m \<or> pm_arr_id m ! index \<noteq> 0 then Inr None
      else if length (pm_data m) \<le> pm_tail m then Inl OutOfBounds
      else bind_out (heap_delete (pm_data m ! pm_tail m) h) (\<lambda>h.
        Inr (Some (h, m\<lparr>pm_data := (pm_data m)[pm_tail m := Some data],
                        pm_arr_id := (pm_arr_id m)[pm_tail m := pd_package_id d],
                        pm_tail := (pm_tail m + 1) mod pm_capacity m,
                        pm_len := pm_len m + 1\<rparr>)))))"

definition PackageMap_pop :: "packagemap \<Rightarrow> (nat option \<times> packagemap) outcome" where
  "PackageMap_pop m =
     (if pm_len m = 0 then Inr (None, m)
      else if length (pm_data m) \<le> pm_head m then Inl OutOfBounds
      else Inr (pm_data m ! pm_head m,
             m\<lparr>pm_head := (pm_head m + 1) mod pm_capacity m, pm_len := pm_len m - 1\<rparr>))"

fun delete_all :: "nat option list \<Rightarrow> heap \<Rightarrow> heap outcome" where
  "delete_all [] h = Inr h"
| "delete_all (p # ps) h = bind_out (heap_delete p h) (delete_all ps)"

definition PackageMap_de_init :: "heap \<times> packagemap \<Rightarrow> heap outcome" where
  "PackageMap_de_init hm = (case hm of (h, m) \<Rightarrow> delete_all (pm_data m) h)"

section \<open>PackageQueueMap\<close>

record packagequeuemap =
  qm_queue :: "u64 list"
  qm_resend_queue :: "u64 list"
  qm_arr :: "u64 list"
  qm_ref :: "int list"
  qm_len :: nat
  qm_resend_len :: nat
  qm_capacity :: nat
  qm_data_list :: "nat option list"
  qm_start :: nat
  qm_end :: nat
  qm_resend_start :: nat
  qm_resend_end :: nat

definition PackageQueueMap_new :: "nat \<Rightarrow> packagequeuemap" where
  "PackageQueueMap_new capacity =
     \<lparr>qm_queue = replicate (2 * capacity) 0, qm_resend_queue = replicate capacity 0,
      qm_arr = replicate capacity 0, qm_ref = replicate capacity 0, qm_len = 0, qm_resend_len = 0,
      qm_capacity = capacity, qm_data_list = replicate capacity None, qm_start = 0, qm_end = 0,
      qm_resend_start = 0, qm_resend_end = 0\<rparr>"

definition PackageQueueMap_index :: "u64 \<Rightarrow> packagequeuemap \<Rightarrow> nat option" where
  "PackageQueueMap_index i m =
     (if qm_arr m ! slot (qm_capacity m) i \<noteq> i then None
      else qm_data_list m ! slot (qm_capacity m) i)"

definition PackageQueueMap_push ::
  "nat \<Rightarrow> u64 \<Rightarrow> heap \<times> packagequeuemap \<Rightarrow> (heap \<times> packagequeuemap) outcome" where
  "PackageQueueMap_push data i hm =
     (case hm of (h, m) \<Rightarrow>
      let k = slot (qm_capacity m) i in
      bind_out (if qm_arr m ! k \<noteq> 0 then heap_delete (qm_data_list m ! k) h else Inr h) (\<lambda>h.
        Inr (h, m\<lparr>qm_queue := (qm_queue m)[qm_end m := i],
                  qm_end := (qm_end m + 1) mod (2 * qm_capacity m),
                  qm_data_list := (qm_data_list m)[k := Some data],
                  qm_arr := (qm_arr m)[k := i],
                  qm_ref := (qm_ref m)[k := 1],
                  qm_len := qm_len m + 1\<rparr>)))"

definition PackageQueueMap_erase ::
  "u64 \<Rightarrow> heap \<times> packagequeuemap \<Rightarrow> (heap \<times> packagequeuemap) outcome" where
  "PackageQueueMap_erase i hm =
     (case hm of (h, m) \<Rightarrow>
      let k = slot (qm_capacity m) i in
      if qm_arr m ! k \<noteq> i then Inr (h, m)
      else let m1 = m\<lparr>qm_ref := (qm_ref m)[k := qm_ref m ! k - 1]\<rparr> in
        if qm_ref m1 ! k > 0 then Inr (h, m1)
        else bind_out (heap_delete (qm_data_list m1 ! k) h) (\<lambda>h.
          Inr (h, m1\<lparr>qm_arr := (qm_arr m1)[k := 0]\<rparr>)))"

definition PackageQueueMap_push_resend :: "u64 \<Rightarrow> packagequeuemap \<Rightarrow> packagequeuemap" where
  "PackageQueueMap_push_resend i m =
     (let k = slot (qm_capacity m) i in
      m\<lparr>qm_resend_queue := (qm_resend_queue m)[qm_resend_end m := i],
        qm_resend_end := (qm_resend_end m + 1) mod qm_capacity m,
        qm_ref := (qm_ref m)[k := qm_ref m ! k + 1],
        qm_resend_len := qm_resend_len m + 1\<rparr>)"

definition PackageQueueMap_pop :: "packagequeuemap \<Rightarrow> nat option \<times> packagequeuemap" where
  "PackageQueueMap_pop m =
     (if qm_len m = 0 \<and> qm_resend_len m = 0 then (None, m)
      else let (return_id, m1) =
        (if 0 < qm_resend_len m then
           (qm_resend_queue m ! qm_resend_start m,
            m\<lparr>qm_resend_start := (qm_resend_start m + 1) mod qm_capacity m,
              qm_resend_len := qm_resend_len m - 1\<rparr>)
         else
           (qm_queue m ! qm_start m,
            m\<lparr>qm_start := (qm_start m + 1) mod (2 * qm_capacity m), qm_len := qm_len m - 1\<rparr>))
      in (PackageQueueMap_index return_id m1, m1))"

definition PackageQueueMap_size :: "packagequeuemap \<Rightarrow> nat" where
  "PackageQueueMap_size m = qm_resend_len m + qm_len m"

fun delete_live :: "u64 list \<Rightarrow> nat option list \<Rightarrow> heap \<Rightarrow> heap outcome" where
  "delete_live (i # is) (p # ps) h =
     bind_out (if i \<noteq> 0 then heap_delete p h else Inr h) (delete_live is ps)"
| "delete_live _ _ h = Inr h"

definition PackageQueueMap_destroy :: "heap \<times> packagequeuemap \<Rightarrow> heap outcome" where
  "PackageQueueMap_destroy hm = (case hm of (h, m) \<Rightarrow> delete_live (qm_arr m) (qm_data_list m) h)"

section \<open>The store\<close>

definition heap_ok :: "heap \<Rightarrow> bool" where
  "heap_ok h \<longleftrightarrow> (\<forall>a \<ge> hp_next h. hp_obj h a = None)"

lemma heap_ok_empty: "heap_ok heap_empty"
  by (simp add: heap_ok_def heap_empty_def)

lemma heap_ok_new: "heap_ok h \<Longrightarrow> heap_ok (snd (heap_new d h))"
  by (simp add: heap_ok_def heap_new_def)

lemma heap_delete_live:
  "hp_obj h a = Some d \<Longrightarrow> heap_delete (Some a) h = Inr (h\<lparr>hp_obj := (hp_obj h)(a := None)\<rparr>)"
  by (simp add: heap_delete_def)

lemma slot_less: "0 < capacity \<Longrightarrow> slot capacity i < capacity"
  by (simp add: slot_def)

section \<open>IdSet\<close>

lemma is_ok_insert: "is_ok s \<Longrightarrow> is_ok (IdSet_insert a s)"
  by (simp add: is_ok_def IdSet_insert_def)

lemma is_size_insert [simp]: "is_size (IdSet_insert a s) = is_size s"
  by (simp add: IdSet_insert_def)

lemma IdSet_find_insert:
  assumes "is_ok s"
  shows "IdSet_find i (IdSet_insert a s) =
    (if slot (is_size s) i = slot (is_size s) a then (if i = a then a else 0) else IdSet_find i s)"
  using assms slot_less [of "is_size s" a]
  by (auto simp: IdSet_find_def IdSet_insert_def is_ok_def)

lemma IdSet_find_0 [simp]: "IdSet_find 0 s = 0"
  by (simp add: IdSet_find_def)

lemma IdSet_find_nonzero:
  assumes "is_ok s" "IdSet_find i s \<noteq> 0"
  shows "i \<in> set (is_arr s)" "i \<noteq> 0" "IdSet_find i s = i"
proof -
  have "is_arr s ! slot (is_size s) i = i" using assms(2) by (auto simp: IdSet_find_def split: if_splits)
  then show "i \<in> set (is_arr s)" using assms(1) slot_less [of "is_size s" i]
    by (metis is_ok_def nth_mem)
  show "i \<noteq> 0" "IdSet_find i s = i" using assms(2) by (auto simp: IdSet_find_def split: if_splits)
qed

section \<open>PackageMap\<close>

definition pm_addrs :: "packagemap \<Rightarrow> nat set" where
  "pm_addrs m = {a. \<exists>k < pm_capacity m. pm_arr_id m ! k \<noteq> 0 \<and> pm_data m ! k = Some a}"

definition pm_ok :: "heap \<Rightarrow> packagemap \<Rightarrow> bool" where
  "pm_ok h m \<longleftrightarrow>
     0 < pm_capacity m \<and> length (pm_data m) = pm_capacity m \<and> length (pm_arr_id m) = pm_capacity m \<and>
     (\<forall>k < pm_capacity m. pm_arr_id m ! k \<noteq> 0 \<longrightarrow>
        slot (pm_capacity m) (pm_arr_id m ! k) = k \<and>
        (\<exists>a d. pm_data m ! k = Some a \<and> hp_obj h a = Some d)) \<and>
     (\<forall>j < pm_capacity m. \<forall>k < pm_capacity m. pm_arr_id m ! j \<noteq> 0 \<longrightarrow> pm_arr_id m ! k \<noteq> 0 \<longrightarrow>
        pm_data m ! j = pm_data m ! k \<longrightarrow> j = k)"

definition pm_abs :: "heap \<Rightarrow> packagemap \<Rightarrow> u64 \<Rightarrow> PackageData option" where
  "pm_abs h m i =
     (if i = 0 then None else case PackageMap_find i m of None \<Rightarrow> None | Some a \<Rightarrow> hp_obj h a)"

lemma pm_new_ok: "0 < capacity \<Longrightarrow> pm_ok h (PackageMap_new capacity)"
  by (simp add: pm_ok_def PackageMap_new_def)

lemma pm_new_abs: "0 < capacity \<Longrightarrow> pm_abs h (PackageMap_new capacity) i = None"
  using slot_less [of capacity i]
  by (auto simp: pm_abs_def PackageMap_new_def PackageMap_find_def split: option.splits)

lemma pm_ok_dests:
  assumes "pm_ok h m"
  shows "0 < pm_capacity m" "length (pm_data m) = pm_capacity m"
    and "length (pm_arr_id m) = pm_capacity m"
    and "k < pm_capacity m \<Longrightarrow> pm_arr_id m ! k \<noteq> 0 \<Longrightarrow> slot (pm_capacity m) (pm_arr_id m ! k) = k"
    and "k < pm_capacity m \<Longrightarrow> pm_arr_id m ! k \<noteq> 0 \<Longrightarrow>
           \<exists>a d. pm_data m ! k = Some a \<and> hp_obj h a = Some d"
    and "j < pm_capacity m \<Longrightarrow> k < pm_capacity m \<Longrightarrow> pm_arr_id m ! j \<noteq> 0 \<Longrightarrow>
           pm_arr_id m ! k \<noteq> 0 \<Longrightarrow> pm_data m ! j = pm_data m ! k \<Longrightarrow> j = k"
  using assms unfolding pm_ok_def by blast+

lemma PackageMap_find_live:
  assumes ok: "pm_ok h m" and i: "i \<noteq> 0"
  shows "PackageMap_find i m = None \<longleftrightarrow> pm_abs h m i = None"
    and "PackageMap_find i m = Some a \<Longrightarrow> hp_obj h a \<noteq> None \<and> a \<in> pm_addrs m"
    and "PackageMap_find i m \<noteq> None \<Longrightarrow> i \<in> set (pm_arr_id m)"
proof -
  let ?k = "slot (pm_capacity m) i"
  have k: "?k < pm_capacity m" using ok by (simp add: slot_less pm_ok_def)
  have *: "\<exists>a d. pm_data m ! ?k = Some a \<and> hp_obj h a = Some d" if "pm_arr_id m ! ?k = i"
    using ok k i that by (auto simp: pm_ok_def)
  then show "PackageMap_find i m = None \<longleftrightarrow> pm_abs h m i = None"
    using i by (auto simp: pm_abs_def PackageMap_find_def)
  show "PackageMap_find i m = Some a \<Longrightarrow> hp_obj h a \<noteq> None \<and> a \<in> pm_addrs m"
    using * i k by (auto simp: PackageMap_find_def pm_addrs_def split: if_splits)
  show "PackageMap_find i m \<noteq> None \<Longrightarrow> i \<in> set (pm_arr_id m)"
    using k pm_ok_dests(3) [OF ok] by (metis PackageMap_find_def nth_mem)
qed

text \<open>
  \<open>set\<close> deletes what the slot held, whatever its identifier, and \<open>erase\<close> deletes the package with
  that identifier; neither deletes an object twice, and no object outside the map is touched.
\<close>

lemma PackageMap_set_ok:
  assumes ok: "pm_ok h m" and i: "i \<noteq> 0" and d: "hp_obj h a = Some d" and fresh: "a \<notin> pm_addrs m"
  shows "\<exists>h' m'. PackageMap_set i a (h, m) = Inr (h', m') \<and> pm_ok h' m' \<and>
     pm_capacity m' = pm_capacity m \<and> hp_next h' = hp_next h \<and>
     pm_addrs m' \<subseteq> insert a (pm_addrs m) \<and>
     (\<forall>b. b \<notin> pm_addrs m \<longrightarrow> hp_obj h' b = hp_obj h b) \<and>
     (\<forall>j. pm_abs h' m' j =
        (if slot (pm_capacity m) j = slot (pm_capacity m) i then (if j = i then Some d else None)
         else pm_abs h m j))"
proof -
  let ?c = "pm_capacity m" let ?k = "slot ?c i"
  have k: "?k < ?c" using ok by (simp add: slot_less pm_ok_def)
  have c: "0 < ?c" "length (pm_data m) = ?c" "length (pm_arr_id m) = ?c"
    using ok by (auto simp: pm_ok_def)
  define m' where "m' = m\<lparr>pm_arr_id := (pm_arr_id m)[?k := i], pm_data := (pm_data m)[?k := Some a]\<rparr>"
  note D = pm_ok_dests [OF ok]
  obtain h' where del:
      "(if pm_arr_id m ! ?k \<noteq> 0 then heap_delete (pm_data m ! ?k) h else Inr h) = Inr h'"
    and next': "hp_next h' = hp_next h"
    and obj: "\<And>b. hp_obj h' b \<noteq> hp_obj h b \<Longrightarrow> pm_arr_id m ! ?k \<noteq> 0 \<and> pm_data m ! ?k = Some b"
  proof (cases "pm_arr_id m ! ?k = 0")
    case True
    then show ?thesis using that [of h] by simp
  next
    case False
    then obtain a0 d0 where "pm_data m ! ?k = Some a0" "hp_obj h a0 = Some d0" using D(5) k by blast
    with False show ?thesis
      by (intro that [of "h\<lparr>hp_obj := (hp_obj h)(a0 := None)\<rparr>"])
        (auto simp: heap_delete_live split: if_splits)
  qed
  have set: "PackageMap_set i a (h, m) = Inr (h', m')"
    by (simp add: PackageMap_set_def Let_def del m'_def)
  have keep: "hp_obj h' b = hp_obj h b" if "b \<notin> pm_addrs m" for b
    using obj [of b] that k by (auto simp: pm_addrs_def)
  have other: "hp_obj h' b = hp_obj h b" if "j < ?c" "j \<noteq> ?k" "pm_arr_id m ! j \<noteq> 0"
      "pm_data m ! j = Some b" for j b
    using obj [of b] that k D(6) [of j ?k] by metis
  have a: "hp_obj h' a = Some d" using keep [OF fresh] d by simp
  have dist: "pm_data m ! j \<noteq> Some a" if "j < ?c" "pm_arr_id m ! j \<noteq> 0" for j
    using that fresh by (auto simp: pm_addrs_def)
  have ok': "pm_ok h' m'"
    unfolding pm_ok_def
  proof (intro conjI allI impI)
    fix j assume j: "j < pm_capacity m'" "pm_arr_id m' ! j \<noteq> 0"
    show "slot (pm_capacity m') (pm_arr_id m' ! j) = j"
      using j k c D(4) [of j] by (cases "j = ?k") (auto simp: m'_def)
    show "\<exists>a d. pm_data m' ! j = Some a \<and> hp_obj h' a = Some d"
    proof (cases "j = ?k")
      case True
      with a k c show ?thesis by (auto simp: m'_def)
    next
      case False
      with j D(5) [of j] other [of j] show ?thesis by (auto simp: m'_def)
    qed
  next
    fix j l assume "j < pm_capacity m'" "l < pm_capacity m'" "pm_arr_id m' ! j \<noteq> 0"
      "pm_arr_id m' ! l \<noteq> 0" "pm_data m' ! j = pm_data m' ! l"
    then show "j = l" using k c D(6) [of j l] dist [of j] dist [of l]
      by (cases "j = ?k"; cases "l = ?k") (simp_all add: m'_def)
  qed (use c in \<open>auto simp: m'_def\<close>)
  have abs: "pm_abs h' m' j = (if slot ?c j = ?k then (if j = i then Some d else None)
      else pm_abs h m j)" for j
  proof (cases "slot ?c j = ?k")
    case True
    with k c a i show ?thesis by (auto simp: pm_abs_def PackageMap_find_def m'_def)
  next
    case False
    have jc: "slot ?c j < ?c" using c by (simp add: slot_less)
    have "hp_obj h' b = hp_obj h b" if "j \<noteq> 0" "pm_arr_id m ! slot ?c j = j"
        "pm_data m ! slot ?c j = Some b" for b
      using other [OF jc False] that by simp
    with False show ?thesis
      by (auto simp: pm_abs_def PackageMap_find_def m'_def split: option.splits)
  qed
  have addrs: "pm_addrs m' \<subseteq> insert a (pm_addrs m)"
    using k c by (auto simp: pm_addrs_def m'_def nth_list_update split: if_splits)
  have "pm_capacity m' = ?c" by (simp add: m'_def)
  with set ok' next' keep abs addrs show ?thesis by blast
qed

lemma PackageMap_erase_ok:
  assumes ok: "pm_ok h m" and i: "i \<noteq> 0"
  shows "\<exists>h' m'. PackageMap_erase i (h, m) = Inr (h', m') \<and> pm_ok h' m' \<and>
     pm_capacity m' = pm_capacity m \<and> hp_next h' = hp_next h \<and> pm_addrs m' \<subseteq> pm_addrs m \<and>
     (\<forall>b. b \<notin> pm_addrs m \<longrightarrow> hp_obj h' b = hp_obj h b) \<and>
     pm_abs h' m' = (pm_abs h m)(i := None)"
proof (cases "pm_arr_id m ! slot (pm_capacity m) i = i")
  case False
  then have "PackageMap_erase i (h, m) = Inr (h, m)" by (simp add: PackageMap_erase_def Let_def)
  moreover have "pm_abs h m i = None" using False i by (simp add: pm_abs_def PackageMap_find_def)
  ultimately show ?thesis using ok by auto
next
  case True
  let ?c = "pm_capacity m" let ?k = "slot ?c i"
  have k: "?k < ?c" using ok by (simp add: slot_less pm_ok_def)
  have c: "0 < ?c" "length (pm_data m) = ?c" "length (pm_arr_id m) = ?c"
    using ok by (auto simp: pm_ok_def)
  obtain a d where a: "pm_data m ! ?k = Some a" "hp_obj h a = Some d"
    using ok k True i by (auto simp: pm_ok_def)
  define m' where "m' = m\<lparr>pm_arr_id := (pm_arr_id m)[?k := 0]\<rparr>"
  define h' where "h' = h\<lparr>hp_obj := (hp_obj h)(a := None)\<rparr>"
  have er: "PackageMap_erase i (h, m) = Inr (h', m')"
    using True a by (simp add: PackageMap_erase_def Let_def heap_delete_live m'_def h'_def)
  have in_a: "a \<in> pm_addrs m" using k True i a by (auto simp: pm_addrs_def)
  then have keep: "hp_obj h' b = hp_obj h b" if "b \<notin> pm_addrs m" for b
    using that by (auto simp: h'_def)
  have other: "b \<noteq> a" if "j < ?c" "j \<noteq> ?k" "pm_arr_id m ! j \<noteq> 0" "pm_data m ! j = Some b" for j b
    using that pm_ok_dests(6) [OF ok, of j ?k] k True i a(1) by auto
  have ok': "pm_ok h' m'"
    unfolding pm_ok_def
  proof (intro conjI allI impI)
    fix j assume j: "j < pm_capacity m'" "pm_arr_id m' ! j \<noteq> 0"
    then have jk: "j \<noteq> ?k" using k c by (auto simp: m'_def)
    then show "slot (pm_capacity m') (pm_arr_id m' ! j) = j"
      using j pm_ok_dests(4) [OF ok, of j] by (simp add: m'_def)
    show "\<exists>a d. pm_data m' ! j = Some a \<and> hp_obj h' a = Some d"
      using jk j pm_ok_dests(5) [OF ok, of j] other [of j] by (auto simp: m'_def h'_def)
  next
    fix j l assume "j < pm_capacity m'" "l < pm_capacity m'" "pm_arr_id m' ! j \<noteq> 0"
      "pm_arr_id m' ! l \<noteq> 0" "pm_data m' ! j = pm_data m' ! l"
    then show "j = l" using k c pm_ok_dests(6) [OF ok, of j l]
      by (cases "j = ?k"; cases "l = ?k") (simp_all add: m'_def)
  qed (use c in \<open>auto simp: m'_def\<close>)
  have "pm_abs h' m' j = ((pm_abs h m)(i := None)) j" for j
  proof (cases "slot ?c j = ?k")
    case True
    with k c i \<open>pm_arr_id m ! ?k = i\<close> show ?thesis
      by (auto simp: pm_abs_def PackageMap_find_def m'_def)
  next
    case False
    have jc: "slot ?c j < ?c" using c by (simp add: slot_less)
    have "hp_obj h' b = hp_obj h b" if "j \<noteq> 0" "pm_arr_id m ! slot ?c j = j"
        "pm_data m ! slot ?c j = Some b" for b
      using other [OF jc False] that by (simp add: h'_def)
    with False show ?thesis
      by (auto simp: pm_abs_def PackageMap_find_def m'_def split: option.splits)
  qed
  then have abs: "pm_abs h' m' = (pm_abs h m)(i := None)" by blast
  have addrs: "pm_addrs m' \<subseteq> pm_addrs m"
    using k c by (auto simp: pm_addrs_def m'_def nth_list_update split: if_splits)
  have "pm_capacity m' = ?c" "hp_next h' = hp_next h" by (auto simp: m'_def h'_def)
  with er ok' keep abs addrs show ?thesis by blast
qed

section \<open>Properties\<close>

text \<open>
  C25: The receive pool is a map with one package per slot. \<open>set\<close> of a non-zero identifier never
  deletes freed or foreign memory, stores the package, and takes out exactly the package that the
  slot held; \<open>erase\<close> then removes exactly the package with that identifier.
\<close>

theorem package_map_refines:
  assumes "pm_ok h m" "i \<noteq> 0" "hp_obj h a = Some d" "a \<notin> pm_addrs m"
  shows "\<exists>h1 m1 h2 m2. PackageMap_set i a (h, m) = Inr (h1, m1) \<and> PackageMap_erase i (h1, m1) = Inr (h2, m2) \<and>
     pm_ok h1 m1 \<and> pm_ok h2 m2 \<and>
     pm_abs h1 m1 = (\<lambda>j. if j = i then Some d
        else if slot (pm_capacity m) j = slot (pm_capacity m) i then None else pm_abs h m j) \<and>
     pm_abs h2 m2 = (pm_abs h1 m1)(i := None)"
proof -
  obtain h1 m1 where s: "PackageMap_set i a (h, m) = Inr (h1, m1)" "pm_ok h1 m1"
    "\<forall>j. pm_abs h1 m1 j = (if slot (pm_capacity m) j = slot (pm_capacity m) i
        then (if j = i then Some d else None) else pm_abs h m j)"
    using PackageMap_set_ok [OF assms] by blast
  obtain h2 m2 where e: "PackageMap_erase i (h1, m1) = Inr (h2, m2)" "pm_ok h2 m2"
    "pm_abs h2 m2 = (pm_abs h1 m1)(i := None)"
    using PackageMap_erase_ok [OF s(2) assms(2)] by blast
  have "pm_abs h1 m1 = (\<lambda>j. if j = i then Some d
        else if slot (pm_capacity m) j = slot (pm_capacity m) i then None else pm_abs h m j)"
    using s(3) by (auto simp: fun_eq_iff)
  with s(1,2) e show ?thesis by blast
qed

theorem package_map_refines_witness:
  "\<exists>h1 m1 h2 m2.
     PackageMap_set 6 0 (snd (heap_new (PackageData_from_data 6 0 (0, 0) [1]) heap_empty), PackageMap_new 4)
       = Inr (h1, m1) \<and> PackageMap_erase 6 (h1, m1) = Inr (h2, m2) \<and>
     pm_abs h1 m1 6 = Some (PackageData_from_data 6 0 (0, 0) [1]) \<and> pm_abs h2 m2 6 = None"
proof -
  let ?d = "PackageData_from_data 6 0 (0, 0) [1]" and ?m = "PackageMap_new 4"
  let ?h = "snd (heap_new ?d heap_empty)"
  have "pm_ok ?h ?m" "(6 :: u64) \<noteq> 0" "hp_obj ?h 0 = Some ?d" "0 \<notin> pm_addrs ?m"
    by (simp_all add: pm_new_ok, simp_all add: heap_new_def heap_empty_def pm_addrs_def PackageMap_new_def)
  from package_map_refines [OF this] show ?thesis by fastforce
qed

end
