(* ===== verification/WaitList.thy ===== *)
theory WaitList
  imports NetStruct
begin

text \<open>
  Model of the class \<open>AckWaitList\<close> of \<open>src/src/rudp/NetStruct.cpp\<close>: the packages that were sent and
  wait for their acknowledgement, in the order of sending. A package that was sent again is in the
  list more than once; \<open>count_list\<close> counts the entries per identifier (modulo the capacity), and
  \<open>pop\<close> skips every entry that has a later one. The lemmas relate \<open>pop\<close> to its specification on
  lists, \<open>awl_pop_spec\<close>, and show that the counters stay exact.
\<close>

record ackwaitlist =
  wl_start :: nat
  wl_end :: nat
  wl_len :: int
  wl_capacity :: nat
  wl_queue :: "nat option list"
  wl_count :: "int list"

definition AckWaitList_new :: "nat \<Rightarrow> ackwaitlist" where
  "AckWaitList_new capacity =
     \<lparr>wl_start = 0, wl_end = 0, wl_len = 0, wl_capacity = capacity,
      wl_queue = replicate capacity None, wl_count = replicate capacity 0\<rparr>"

definition AckWaitList_push :: "nat \<Rightarrow> heap \<Rightarrow> ackwaitlist \<Rightarrow> ackwaitlist outcome" where
  "AckWaitList_push data h w =
     bind_out (heap_get (Some data) h) (\<lambda>d.
     let k = slot (wl_capacity w) (pd_package_id d) in
       Inr (w\<lparr>wl_queue := (wl_queue w)[wl_end w := Some data],
              wl_end := (wl_end w + 1) mod wl_capacity w,
              wl_count := (wl_count w)[k := wl_count w ! k + 1],
              wl_len := wl_len w + 1\<rparr>))"

text \<open>The loop of \<open>pop\<close>; each turn decrements a counter that is above 1.\<close>

function awl_skip :: "heap \<Rightarrow> ackwaitlist \<Rightarrow> (nat option \<times> nat \<times> ackwaitlist) outcome" where
  "awl_skip h w =
     (let return_data = wl_queue w ! wl_start w in
      case heap_get return_data h of
        Inl e \<Rightarrow> Inl e
      | Inr d \<Rightarrow>
         (let k = slot (wl_capacity w) (pd_package_id d) in
          if length (wl_count w) \<le> k then Inl OutOfBounds
          else if wl_count w ! k > 1 then
            awl_skip h (w\<lparr>wl_count := (wl_count w)[k := wl_count w ! k - 1],
                          wl_start := (wl_start w + 1) mod wl_capacity w,
                          wl_len := wl_len w - 1\<rparr>)
          else Inr (return_data, k, w)))"
  by pat_completeness auto

lemma sum_list_nat_update:
  assumes "k < length xs" "1 < (xs :: int list) ! k"
  shows "sum_list (map nat (xs[k := xs ! k - 1])) < sum_list (map nat xs)"
proof -
  have "xs = take k xs @ xs ! k # drop (Suc k) xs" using assms(1) by (simp add: id_take_nth_drop)
  moreover have "xs[k := xs ! k - 1] = take k xs @ (xs ! k - 1) # drop (Suc k) xs"
    using assms(1) by (rule upd_conv_take_nth_drop)
  ultimately have "sum_list (map nat xs) = sum_list (map nat (take k xs)) + nat (xs ! k)
        + sum_list (map nat (drop (Suc k) xs))"
    "sum_list (map nat (xs[k := xs ! k - 1])) = sum_list (map nat (take k xs)) + nat (xs ! k - 1)
        + sum_list (map nat (drop (Suc k) xs))"
    by (metis add.assoc list.simps(9) map_append sum_list.Cons sum_list_append)+
  then show ?thesis using assms(2) by simp
qed

termination awl_skip
  by (relation "measure (\<lambda>(h, w). sum_list (map nat (wl_count w)))")
    (auto intro: sum_list_nat_update)

declare awl_skip.simps [simp del]

definition AckWaitList_pop :: "heap \<Rightarrow> ackwaitlist \<Rightarrow> (nat option \<times> ackwaitlist) outcome" where
  "AckWaitList_pop h w =
     (if wl_len w \<le> 0 then Inr (None, w)
      else bind_out (awl_skip h w) (\<lambda>(return_data, k, w).
        Inr (return_data,
          w\<lparr>wl_start := (wl_start w + 1) mod wl_capacity w, wl_len := wl_len w - 1,
            wl_count := (wl_count w)[k := 0]\<rparr>)))"

definition AckWaitList_size :: "ackwaitlist \<Rightarrow> int" where
  "AckWaitList_size w = wl_len w"

section \<open>Specification and invariant\<close>

text \<open>
  The specification: the identifiers of the entries as a list; \<open>pop\<close> drops the entries whose
  counter class occurs again later and takes the first of the rest.
\<close>

fun awl_pop_spec :: "('a \<Rightarrow> 'k) \<Rightarrow> 'a list \<Rightarrow> 'a list" where
  "awl_pop_spec key [] = []"
| "awl_pop_spec key (x # xs) =
     (if key x \<in> key ` set xs then awl_pop_spec key xs else x # xs)"

definition wl_entries :: "ackwaitlist \<Rightarrow> nat option list" where
  "wl_entries w = ring_list (wl_queue w) (wl_capacity w) (wl_start w) (nat (wl_len w))"

definition wl_key :: "heap \<Rightarrow> nat \<Rightarrow> nat option \<Rightarrow> nat" where
  "wl_key h capacity p =
     (case heap_get p h of Inl _ \<Rightarrow> capacity | Inr d \<Rightarrow> slot capacity (pd_package_id d))"

definition wl_ok :: "heap \<Rightarrow> ackwaitlist \<Rightarrow> bool" where
  "wl_ok h w \<longleftrightarrow>
     0 \<le> wl_len w \<and>
     ring_ok (wl_queue w) (wl_capacity w) (wl_start w) (wl_end w) (nat (wl_len w)) \<and>
     length (wl_count w) = wl_capacity w \<and>
     (\<forall>p \<in> set (wl_entries w). \<exists>d. heap_get p h = Inr d) \<and>
     (\<forall>k < wl_capacity w. wl_count w ! k
        = int (length (filter (\<lambda>p. wl_key h (wl_capacity w) p = k) (wl_entries w))))"

lemma wl_new_ok: "0 < capacity \<Longrightarrow> wl_ok h (AckWaitList_new capacity)"
  by (simp add: wl_ok_def AckWaitList_new_def ring_ok_def wl_entries_def)

lemma awl_pop_spec_suffix: "\<exists>pre. xs = pre @ awl_pop_spec key xs"
  by (induction xs) (auto intro: exI [of _ "_ # _"])

lemma awl_pop_spec_nonempty: "xs \<noteq> [] \<Longrightarrow> awl_pop_spec key xs \<noteq> []"
  by (induction xs) (auto, force)

lemma awl_pop_spec_hd: "awl_pop_spec key xs = y # ys \<Longrightarrow> key y \<notin> key ` set ys"
  by (induction xs) (auto split: if_splits)

lemma awl_pop_spec_keeps: "set (map key (awl_pop_spec key xs)) = set (map key xs)"
  by (induction xs) auto

section \<open>The operations keep the invariant and implement the specification\<close>

definition wl_drop :: "nat \<Rightarrow> ackwaitlist \<Rightarrow> ackwaitlist" where
  "wl_drop k w = w\<lparr>wl_count := (wl_count w)[k := wl_count w ! k - 1],
                   wl_start := (wl_start w + 1) mod wl_capacity w, wl_len := wl_len w - 1\<rparr>"

lemma wl_entries_Cons:
  assumes "wl_ok h w" "0 < wl_len w"
  shows "wl_entries w = wl_queue w ! wl_start w # wl_entries (wl_drop k w)"
proof -
  have n: "nat (wl_len w) = Suc (nat (wl_len w - 1))" using assms(2) by simp
  show ?thesis
    using assms ring_list_Cons [of "wl_queue w" "wl_capacity w" "wl_start w" "wl_end w" "nat (wl_len w - 1)"]
    by (simp add: wl_ok_def wl_entries_def wl_drop_def n)
qed

lemma wl_head_key:
  assumes "wl_ok h w" "0 < wl_len w"
  obtains d where "heap_get (wl_queue w ! wl_start w) h = Inr d"
    and "slot (wl_capacity w) (pd_package_id d) = wl_key h (wl_capacity w) (wl_queue w ! wl_start w)"
    and "wl_key h (wl_capacity w) (wl_queue w ! wl_start w) < wl_capacity w"
proof -
  have "wl_queue w ! wl_start w \<in> set (wl_entries w)"
    using wl_entries_Cons [OF assms, of 0] by simp
  then obtain d where d: "heap_get (wl_queue w ! wl_start w) h = Inr d"
    using assms(1) by (auto simp: wl_ok_def)
  have "0 < wl_capacity w" using assms(1) by (simp add: wl_ok_def ring_ok_def)
  with that [OF d] d show ?thesis by (simp add: wl_key_def slot_def)
qed

lemma wl_drop_ok:
  assumes ok: "wl_ok h w" and len: "0 < wl_len w"
    and k: "k = wl_key h (wl_capacity w) (wl_queue w ! wl_start w)"
  shows "wl_ok h (wl_drop k w)"
proof -
  let ?f = "\<lambda>xs j. int (length (filter (\<lambda>p. wl_key h (wl_capacity w) p = j) xs))"
  have c: "wl_entries w = wl_queue w ! wl_start w # wl_entries (wl_drop k w)"
    using ok len by (rule wl_entries_Cons)
  have kc: "k < wl_capacity w" using wl_head_key [OF ok len] k by metis
  have "wl_count w ! j = ?f (wl_entries w) j" if "j < wl_capacity w" for j
    using ok that by (simp add: wl_ok_def)
  then have "wl_count (wl_drop k w) ! j = ?f (wl_entries (wl_drop k w)) j"
    if "j < wl_capacity w" for j
    using that kc k ok unfolding c by (auto simp: wl_drop_def wl_ok_def nth_list_update)
  moreover have "ring_ok (wl_queue w) (wl_capacity w) ((wl_start w + 1) mod wl_capacity w)
      (wl_end w) (nat (wl_len w - 1))"
  proof -
    have "nat (wl_len w) = Suc (nat (wl_len w - 1))" using len by simp
    then have "ring_ok (wl_queue w) (wl_capacity w) (wl_start w) (wl_end w) (Suc (nat (wl_len w - 1)))"
      using ok by (simp add: wl_ok_def)
    then show ?thesis by (rule ring_ok_tl)
  qed
  moreover have "\<forall>p \<in> set (wl_entries (wl_drop k w)). \<exists>d. heap_get p h = Inr d"
    using ok c by (simp add: wl_ok_def)
  ultimately show ?thesis using ok len
    by (simp add: wl_ok_def) (simp add: wl_drop_def)
qed

lemma wl_count_head:
  assumes ok: "wl_ok h w" and len: "0 < wl_len w"
    and k: "k = wl_key h (wl_capacity w) (wl_queue w ! wl_start w)"
  shows "1 < wl_count w ! k \<longleftrightarrow>
      k \<in> wl_key h (wl_capacity w) ` set (wl_entries (wl_drop k w))"
    and "1 \<le> wl_count w ! k"
proof -
  let ?g = "filter (\<lambda>p. wl_key h (wl_capacity w) p = k) (wl_entries (wl_drop k w))"
  have "k < wl_capacity w" using wl_head_key [OF ok len] k by metis
  then have c: "wl_count w ! k = 1 + int (length ?g)"
    using ok wl_entries_Cons [OF ok len, of k] k by (auto simp: wl_ok_def)
  then show "1 \<le> wl_count w ! k" by simp
  have "1 < wl_count w ! k \<longleftrightarrow> ?g \<noteq> []" using c by simp
  also have "\<dots> \<longleftrightarrow> k \<in> wl_key h (wl_capacity w) ` set (wl_entries (wl_drop k w))"
    by (auto simp: filter_empty_conv)
  finally show "1 < wl_count w ! k \<longleftrightarrow>
      k \<in> wl_key h (wl_capacity w) ` set (wl_entries (wl_drop k w))" .
qed

lemma awl_skip_ok:
  "wl_ok h w \<Longrightarrow> 0 < wl_len w \<Longrightarrow>
   \<exists>w'. awl_skip h w = Inr (wl_queue w' ! wl_start w',
           wl_key h (wl_capacity w) (wl_queue w' ! wl_start w'), w') \<and>
        wl_ok h w' \<and> 0 < wl_len w' \<and> wl_capacity w' = wl_capacity w \<and>
        wl_count w' ! wl_key h (wl_capacity w) (wl_queue w' ! wl_start w') = 1 \<and>
        wl_entries w' = awl_pop_spec (wl_key h (wl_capacity w)) (wl_entries w)"
proof (induction h w rule: awl_skip.induct)
  case (1 h w)
  let ?p = "wl_queue w ! wl_start w"
  define k where "k = wl_key h (wl_capacity w) ?p"
  obtain d where d: "heap_get ?p h = Inr d" "slot (wl_capacity w) (pd_package_id d) = k"
    and kc: "k < wl_capacity w"
    using wl_head_key [OF 1(2,3)] k_def by metis
  have nb: "\<not> length (wl_count w) \<le> k" using kc 1(2) by (simp add: wl_ok_def)
  have c: "wl_entries w = ?p # wl_entries (wl_drop k w)" using 1(2,3) by (rule wl_entries_Cons)
  note cnt = wl_count_head [OF 1(2,3) k_def]
  show ?case
  proof (cases "1 < wl_count w ! k")
    case True
    have s: "awl_skip h w = awl_skip h (wl_drop k w)"
      using d nb True by (simp add: awl_skip.simps [of h w] Let_def wl_drop_def)
    have ok: "wl_ok h (wl_drop k w)" using 1(2,3) k_def by (rule wl_drop_ok)
    have "wl_entries (wl_drop k w) \<noteq> []" using cnt(1) True by auto
    then have l: "0 < wl_len (wl_drop k w)" by (simp add: wl_entries_def)
    have IH: "\<exists>w'. awl_skip h (wl_drop k w) = Inr (wl_queue w' ! wl_start w',
           wl_key h (wl_capacity w) (wl_queue w' ! wl_start w'), w') \<and>
        wl_ok h w' \<and> 0 < wl_len w' \<and> wl_capacity w' = wl_capacity w \<and>
        wl_count w' ! wl_key h (wl_capacity w) (wl_queue w' ! wl_start w') = 1 \<and>
        wl_entries w' = awl_pop_spec (wl_key h (wl_capacity w)) (wl_entries (wl_drop k w))"
      using 1(1) [OF refl d(1) refl] d nb True ok l by (simp add: wl_drop_def)
    have "awl_pop_spec (wl_key h (wl_capacity w)) (wl_entries w)
        = awl_pop_spec (wl_key h (wl_capacity w)) (wl_entries (wl_drop k w))"
      using cnt(1) True c k_def by simp
    with IH s show ?thesis by simp
  next
    case False
    have "awl_skip h w = Inr (?p, k, w)"
      using d nb False by (simp add: awl_skip.simps [of h w] Let_def)
    moreover have "awl_pop_spec (wl_key h (wl_capacity w)) (wl_entries w) = wl_entries w"
      using cnt(1) False c k_def by simp
    moreover have "wl_count w ! k = 1" using cnt(2) False by simp
    ultimately show ?thesis using 1(2,3) k_def by auto
  qed
qed

lemma AckWaitList_pop_ok:
  assumes ok: "wl_ok h w" and len: "0 < wl_len w"
  shows "\<exists>p w'. AckWaitList_pop h w = Inr (p, w') \<and> wl_ok h w' \<and>
     wl_capacity w' = wl_capacity w \<and>
     p # wl_entries w' = awl_pop_spec (wl_key h (wl_capacity w)) (wl_entries w)"
proof -
  obtain w1 where w1: "awl_skip h w = Inr (wl_queue w1 ! wl_start w1,
           wl_key h (wl_capacity w) (wl_queue w1 ! wl_start w1), w1)"
    "wl_ok h w1" "0 < wl_len w1" "wl_capacity w1 = wl_capacity w"
    "wl_count w1 ! wl_key h (wl_capacity w) (wl_queue w1 ! wl_start w1) = 1"
    "wl_entries w1 = awl_pop_spec (wl_key h (wl_capacity w)) (wl_entries w)"
    using awl_skip_ok [OF assms] by blast
  define k where "k = wl_key h (wl_capacity w1) (wl_queue w1 ! wl_start w1)"
  have "AckWaitList_pop h w = Inr (wl_queue w1 ! wl_start w1, wl_drop k w1)"
    using w1 len by (simp add: AckWaitList_pop_def wl_drop_def k_def)
  moreover have "wl_ok h (wl_drop k w1)" using w1(2,3) k_def by (rule wl_drop_ok)
  moreover have "wl_entries w1 = wl_queue w1 ! wl_start w1 # wl_entries (wl_drop k w1)"
    using w1(2,3) by (rule wl_entries_Cons)
  ultimately show ?thesis using w1 by (auto simp: wl_drop_def)
qed

lemma AckWaitList_push_ok:
  assumes ok: "wl_ok h w" and room: "wl_len w < int (wl_capacity w)"
    and d: "hp_obj h a = Some d"
  shows "\<exists>w'. AckWaitList_push a h w = Inr w' \<and> wl_ok h w' \<and> wl_capacity w' = wl_capacity w \<and>
     wl_entries w' = wl_entries w @ [Some a] \<and> wl_len w' = wl_len w + 1"
proof -
  let ?k = "slot (wl_capacity w) (pd_package_id d)"
  define w' where "w' = w\<lparr>wl_queue := (wl_queue w)[wl_end w := Some a],
              wl_end := (wl_end w + 1) mod wl_capacity w,
              wl_count := (wl_count w)[?k := wl_count w ! ?k + 1],
              wl_len := wl_len w + 1\<rparr>"
  have g: "heap_get (Some a) h = Inr d" using d by (simp add: heap_get_def)
  have p: "AckWaitList_push a h w = Inr w'" using g by (simp add: AckWaitList_push_def w'_def Let_def)
  have r: "ring_ok (wl_queue w) (wl_capacity w) (wl_start w) (wl_end w) (nat (wl_len w))"
    and l: "nat (wl_len w) < wl_capacity w" "nat (wl_len w + 1) = Suc (nat (wl_len w))"
    using ok room by (auto simp: wl_ok_def)
  have e: "wl_entries w' = wl_entries w @ [Some a]"
    using ring_list_snoc [OF r l(1)] l(2) by (simp add: wl_entries_def w'_def)
  have key: "wl_key h (wl_capacity w) (Some a) = ?k" using g by (simp add: wl_key_def)
  have kc: "?k < wl_capacity w" using l(1) by (simp add: slot_def)
  have "wl_ok h w'"
    unfolding wl_ok_def e
    using ok g key kc ring_ok_snoc [OF r l(1), of "Some a"] l(2)
    by (auto simp: wl_ok_def w'_def nth_list_update)
  with p e show ?thesis by (auto simp: w'_def)
qed

section \<open>Properties\<close>

text \<open>
  C24: The wait list hands out each package after its last transmission. \<open>pop\<close> on a non-empty list
  returns, without touching freed memory, the first entry whose slot does not occur again later:
  the entries before it were superseded by a resend, no entry of its slot remains, every other slot
  keeps its entries, and the counters stay exact.
\<close>

theorem wait_list_pop:
  assumes "wl_ok h w" "0 < wl_len w"
  shows "\<exists>p w' pre. AckWaitList_pop h w = Inr (p, w') \<and> wl_ok h w' \<and>
     wl_entries w = pre @ p # wl_entries w' \<and>
     wl_key h (wl_capacity w) p \<notin> wl_key h (wl_capacity w) ` set (wl_entries w') \<and>
     wl_key h (wl_capacity w) ` set (wl_entries w)
       = insert (wl_key h (wl_capacity w) p) (wl_key h (wl_capacity w) ` set (wl_entries w'))"
proof -
  let ?key = "wl_key h (wl_capacity w)"
  obtain p w' where r: "AckWaitList_pop h w = Inr (p, w')" "wl_ok h w'"
      "p # wl_entries w' = awl_pop_spec ?key (wl_entries w)"
    using AckWaitList_pop_ok [OF assms] by blast
  obtain pre where "wl_entries w = pre @ p # wl_entries w'"
    using awl_pop_spec_suffix [of "wl_entries w" ?key] r(3) by auto
  moreover have "?key p \<notin> ?key ` set (wl_entries w')"
    using awl_pop_spec_hd [of ?key "wl_entries w"] r(3) by metis
  moreover have "?key ` set (wl_entries w) = insert (?key p) (?key ` set (wl_entries w'))"
    using awl_pop_spec_keeps [of ?key "wl_entries w"] unfolding r(3) [symmetric] by simp
  ultimately show ?thesis using r(1,2) by blast
qed

theorem wait_list_pop_witness:
  "\<exists>w0 w p w'. AckWaitList_push 0 (snd (heap_new (PackageData_from_data 6 0 (0, 0) [1]) heap_empty))
       (AckWaitList_new 4) = Inr w \<and>
     AckWaitList_pop (snd (heap_new (PackageData_from_data 6 0 (0, 0) [1]) heap_empty)) w = Inr (p, w') \<and>
     wl_entries w = w0 @ p # wl_entries w'"
proof -
  let ?h = "snd (heap_new (PackageData_from_data 6 0 (0, 0) [1]) heap_empty)"
  have "hp_obj ?h 0 = Some (PackageData_from_data 6 0 (0, 0) [1])"
    by (simp add: heap_new_def heap_empty_def)
  moreover have "wl_len (AckWaitList_new 4) = 0" "wl_capacity (AckWaitList_new 4) = 4"
    by (simp_all add: AckWaitList_new_def)
  ultimately obtain w where w: "AckWaitList_push 0 ?h (AckWaitList_new 4) = Inr w" "wl_ok ?h w" "wl_len w = 1"
    using AckWaitList_push_ok [OF wl_new_ok, of 4 ?h 0] by fastforce
  from wait_list_pop [OF w(2)] w(3) w(1) show ?thesis by auto
qed

end
