(* ===== verification/Segments.thy ===== *)
theory Segments
  imports NetStruct
begin

text \<open>
  The segment layer: \<open>PackageSegmentList\<close> and \<open>SegmentParser\<close> of \<open>src/src/rudp/NetStruct.cpp\<close>, the size
  macros of \<open>src/src/rudp/ReliableSocket.h\<close> and the packing loop of
  \<open>ReliableSocket::start_thread_segment\<close>. Tunnel packets are segments; several of them are framed
  as length and content and closed by a zero length in the plaintext of one data package. The
  lemmas show that the packing loop cuts the queue into frames that fit, that it ends exactly
  when every segment fits, and that the parser gives the segments back.
\<close>

section \<open>PackageSegmentList\<close>

type_synonym PackageSegment = bytes

record segmentlist =
  sl_list :: "PackageSegment list"
  sl_len :: nat
  sl_start :: nat
  sl_end :: nat
  sl_capacity :: nat

definition PackageSegment_new :: "bytes \<Rightarrow> nat \<Rightarrow> PackageSegment outcome" where
  "PackageSegment_new buf n = (if n \<le> length buf then Inr (take n buf) else Inl OutOfBounds)"

definition PackageSegmentList_new :: "PackageSegment list \<Rightarrow> nat \<Rightarrow> segmentlist" where
  "PackageSegmentList_new junk capacity =
     \<lparr>sl_list = take capacity junk, sl_len = 0, sl_start = 0, sl_end = 0, sl_capacity = capacity\<rparr>"

definition PackageSegmentList_copy :: "segmentlist \<Rightarrow> segmentlist" where
  "PackageSegmentList_copy q =
     \<lparr>sl_list = sl_list q, sl_len = sl_len q, sl_start = sl_start q, sl_end = sl_end q,
      sl_capacity = sl_capacity q\<rparr>"

definition PackageSegmentList_push :: "PackageSegment \<Rightarrow> segmentlist \<Rightarrow> segmentlist" where
  "PackageSegmentList_push seg q =
     q\<lparr>sl_list := (sl_list q)[sl_end q := seg], sl_end := (sl_end q + 1) mod sl_capacity q,
       sl_len := sl_len q + 1\<rparr>"

definition PackageSegmentList_pop :: "segmentlist \<Rightarrow> PackageSegment option \<times> segmentlist" where
  "PackageSegmentList_pop q =
     (if sl_len q = 0 then (None, q)
      else (Some (sl_list q ! sl_start q),
            q\<lparr>sl_start := (sl_start q + 1) mod sl_capacity q, sl_len := sl_len q - 1\<rparr>))"

definition PackageSegmentList_front :: "segmentlist \<Rightarrow> PackageSegment option" where
  "PackageSegmentList_front q = (if sl_len q = 0 then None else Some (sl_list q ! sl_start q))"

definition PackageSegmentList_rebase :: "segmentlist \<Rightarrow> segmentlist" where
  "PackageSegmentList_rebase q = q\<lparr>sl_len := 0, sl_start := sl_end q\<rparr>"

definition PackageSegmentList_size :: "segmentlist \<Rightarrow> nat" where
  "PackageSegmentList_size q = sl_len q"

section \<open>SegmentParser\<close>

record SegmentParser =
  sp_buf :: bytes
  sp_len :: nat
  sp_start :: nat

definition SegmentParser_new :: "bytes \<Rightarrow> SegmentParser" where
  "SegmentParser_new junk = \<lparr>sp_buf = take 1600 junk, sp_len = 0, sp_start = 0\<rparr>"

definition SegmentParser_load ::
  "open_easy \<Rightarrow> SharpCrypto \<Rightarrow> bytes \<Rightarrow> SegmentParser \<Rightarrow> SegmentParser outcome" where
  "SegmentParser_load open_easy c data sp =
     bind_out (SharpCrypto_decrypt open_easy c data) (\<lambda>r.
     case r of
       None \<Rightarrow> Inr sp
     | Some m \<Rightarrow>
        (if length (sp_buf sp) < length m then Inl OutOfBounds
         else if length m = 0 then Inr sp
         else Inr (sp\<lparr>sp_buf := overlay m (sp_buf sp), sp_len := length m, sp_start := 0\<rparr>)))"

text \<open>
  \<open>next_segment\<close> copies to a buffer of the caller; \<open>room\<close> is that buffer's size. The result is
  the returned length with the bytes written.
\<close>

definition SegmentParser_next :: "nat \<Rightarrow> SegmentParser \<Rightarrow> (bytes \<times> SegmentParser) outcome" where
  "SegmentParser_next room sp =
     (if sp_len sp = 0 then Inr ([], sp)
      else bind_out (get_le 2 (sp_start sp) (sp_buf sp)) (\<lambda>seg_len.
        if seg_len = 0 then Inr ([], sp)
        else if length (sp_buf sp) < sp_start sp + 2 + seg_len \<or> room < seg_len
        then Inl OutOfBounds
        else Inr (take seg_len (drop (sp_start sp + 2) (sp_buf sp)),
                  sp\<lparr>sp_start := sp_start sp + (seg_len + 2)\<rparr>)))"

section \<open>Sizes\<close>

definition MAX_MTU :: nat where "MAX_MTU = 1600"

text \<open>
  \<open>max_mtu - 20 - 8 - sizeof ...\<close> is computed in \<open>size_t\<close> and stored to \<open>int\<close>: for every \<open>int\<close>
  argument that keeps the difference in range, the difference.
\<close>

definition MAX_SEGMENT :: "int \<Rightarrow> int" where
  "MAX_SEGMENT max_mtu = max_mtu - 20 - 8 - int sizeof_base - int sizeof_data
     - int SHARPVPN_CRYPTO_OVERHEAD"

definition TUNNEL_MTU :: "int \<Rightarrow> int" where
  "TUNNEL_MTU max_mtu = MAX_SEGMENT max_mtu - 4 - 4"

section \<open>Packing segments\<close>

definition put_at :: "nat \<Rightarrow> bytes \<Rightarrow> bytes \<Rightarrow> bytes outcome" where
  "put_at off bs buf =
     (if off + length bs \<le> length buf then Inr (take off buf @ bs @ drop (off + length bs) buf)
      else Inl OutOfBounds)"

text \<open>
  The inner loop: while the front segment fits, write its length over the closing zero, its bytes,
  and a new closing zero.
\<close>

function fill_package ::
  "int \<Rightarrow> nat \<Rightarrow> bytes \<Rightarrow> segmentlist \<Rightarrow> (nat \<times> bytes \<times> segmentlist) outcome" where
  "fill_package max_segment start buf q =
     (case PackageSegmentList_front q of
        None \<Rightarrow> Inr (start, buf, q)
      | Some segment \<Rightarrow>
         (if max_segment - 2 - int start > int (length segment) then
            bind_out (put_at (start - 2) (le_enc 2 (length segment)) buf) (\<lambda>buf.
            bind_out (put_at start segment buf) (\<lambda>buf.
            bind_out (put_at (start + length segment) [0, 0] buf) (\<lambda>buf.
              fill_package max_segment (start + length segment + 2) buf
                (snd (PackageSegmentList_pop q)))))
          else Inr (start, buf, q)))"
  by pat_completeness auto
termination
  by (relation "measure (\<lambda>(max_segment, start, buf, q). sl_len q)")
    (auto simp: PackageSegmentList_front_def PackageSegmentList_pop_def split: if_splits)

declare fill_package.simps [simp del]

lemma fill_package_size:
  "fill_package ms start buf q = Inr (start', buf', q') \<Longrightarrow>
     sl_len q' \<le> sl_len q \<and> (sl_len q' = sl_len q \<longrightarrow> start' = start \<and> buf' = buf \<and> q' = q)"
proof (induction ms start buf q rule: fill_package.induct)
  case (1 ms start buf q)
  show ?case
  proof (cases "PackageSegmentList_front q")
    case None
    with 1(2) show ?thesis by (simp add: fill_package.simps [of ms start buf q])
  next
    case (Some s)
    show ?thesis
    proof (cases "ms - 2 - int start > int (length s)")
      case False
      with Some 1(2) show ?thesis by (simp add: fill_package.simps [of ms start buf q])
    next
      case True
      from 1(2) Some True obtain b where
        f: "fill_package ms (start + length s + 2) b (snd (PackageSegmentList_pop q))
            = Inr (start', buf', q')"
        by (auto simp: fill_package.simps [of ms start buf q] bind_out_eq_Inr_iff)
      have "sl_len (snd (PackageSegmentList_pop q)) < sl_len q"
        using Some by (auto simp: PackageSegmentList_front_def PackageSegmentList_pop_def split: if_splits)
      with 1(1) [OF Some True f] show ?thesis by linarith
    qed
  qed
qed

text \<open>
  The outer loop, one plaintext per package. A turn that leaves the queue as it was would repeat
  itself forever: that is the fault \<open>Diverges\<close>.
\<close>

function segment_batch :: "int \<Rightarrow> bytes \<Rightarrow> segmentlist \<Rightarrow> (bytes list \<times> bytes) outcome" where
  "segment_batch max_segment buf q =
     (if PackageSegmentList_size q = 0 then Inr ([], buf)
      else case fill_package max_segment 2 buf q of
        Inl e \<Rightarrow> Inl e
      | Inr r \<Rightarrow>
         (case r of (start, buf1, q1) \<Rightarrow>
           if start > 2 then
             bind_out (segment_batch max_segment buf1 q1) (\<lambda>(ps, buf2).
               Inr (take start buf1 # ps, buf2))
           else Inl Diverges))"
  by pat_completeness auto
termination
  by (relation "measure (\<lambda>(ms, buf, q). sl_len q)")
    (auto dest!: fill_package_size simp: le_less)

declare segment_batch.simps [simp del]

section \<open>PackageSegmentList is a queue while it has room\<close>

definition sl_contents :: "segmentlist \<Rightarrow> PackageSegment list" where
  "sl_contents q = ring_list (sl_list q) (sl_capacity q) (sl_start q) (sl_len q)"

definition sl_ok :: "segmentlist \<Rightarrow> bool" where
  "sl_ok q \<longleftrightarrow> ring_ok (sl_list q) (sl_capacity q) (sl_start q) (sl_end q) (sl_len q)"

definition sl_room :: "segmentlist \<Rightarrow> nat" where
  "sl_room q = sl_capacity q - sl_len q"

lemma PackageSegmentList_push_ok:
  assumes "sl_ok q" "0 < sl_room q"
  shows "sl_ok (PackageSegmentList_push x q)"
    and "sl_contents (PackageSegmentList_push x q) = sl_contents q @ [x]"
    and "sl_room (PackageSegmentList_push x q) = sl_room q - 1"
  using assms by (auto simp: sl_ok_def sl_contents_def sl_room_def PackageSegmentList_push_def
      intro: ring_ok_snoc [simplified] simp: ring_list_snoc [simplified])

lemma sl_front_pop_Cons:
  assumes "sl_ok q" "sl_contents q = x # xs"
  shows "PackageSegmentList_front q = Some x"
    and "PackageSegmentList_pop q = (Some x, snd (PackageSegmentList_pop q))"
    and "sl_contents (snd (PackageSegmentList_pop q)) = xs"
proof -
  have "0 < sl_len q" using assms(2) by (cases "sl_len q") (auto simp: sl_contents_def)
  then have "ring_list (sl_list q) (sl_capacity q) (sl_start q) (sl_len q) =
      sl_list q ! sl_start q #
      ring_list (sl_list q) (sl_capacity q) ((sl_start q + 1) mod sl_capacity q) (sl_len q - 1)"
    using assms(1) ring_list_Cons [of "sl_list q" "sl_capacity q" "sl_start q" "sl_end q" "sl_len q - 1"]
    by (simp add: sl_ok_def)
  with \<open>0 < sl_len q\<close> assms(2) show "PackageSegmentList_front q = Some x"
    "PackageSegmentList_pop q = (Some x, snd (PackageSegmentList_pop q))"
    "sl_contents (snd (PackageSegmentList_pop q)) = xs"
    by (auto simp: sl_contents_def PackageSegmentList_front_def PackageSegmentList_pop_def)
qed

lemma sl_front_Nil: "sl_contents q = [] \<Longrightarrow> PackageSegmentList_front q = None"
  by (simp add: sl_contents_def PackageSegmentList_front_def)

lemma sl_pop_ok: "sl_ok q \<Longrightarrow> sl_ok (snd (PackageSegmentList_pop q))"
  using ring_ok_tl [of "sl_list q" "sl_capacity q" "sl_start q" "sl_end q" "sl_len q - 1"]
  by (auto simp: sl_ok_def PackageSegmentList_pop_def)

interpretation seglist: fifo PackageSegmentList_push PackageSegmentList_pop sl_contents sl_room
  sl_ok Some "None :: PackageSegment option"
proof unfold_locales
  fix q x xs assume "sl_ok q" "sl_contents q = x # xs"
  from sl_front_pop_Cons [OF this] show "fst (PackageSegmentList_pop q) = Some x"
    and "sl_contents (snd (PackageSegmentList_pop q)) = xs"
    by (metis fst_conv, simp)
next
  show "PackageSegmentList_pop q = (None, q)" if "sl_contents q = []" for q
    using that by (simp add: sl_contents_def PackageSegmentList_pop_def)
qed (simp_all add: PackageSegmentList_push_ok sl_pop_ok)

section \<open>What the packing loop writes\<close>

definition seg_frame :: "PackageSegment \<Rightarrow> bytes" where
  "seg_frame s = le_enc 2 (length s) @ s"

definition seg_plain :: "PackageSegment list \<Rightarrow> bytes" where
  "seg_plain ss = concat (map seg_frame ss) @ [0, 0]"

lemma length_seg_plain: "length (seg_plain ss) = sum_list (map (\<lambda>s. length s + 2) ss) + 2"
  by (induction ss) (auto simp: seg_plain_def seg_frame_def)

text \<open>One turn of the inner loop: frame after frame, closed by the zero length.\<close>

lemma put_frame:
  assumes "2 \<le> start" "start + length s + 2 \<le> length buf"
  shows "\<exists>b1 b2 b3. put_at (start - 2) (le_enc 2 (length s)) buf = Inr b1 \<and>
     put_at start s b1 = Inr b2 \<and> put_at (start + length s) [0, 0] b2 = Inr b3 \<and>
     length b3 = length buf \<and>
     take (start + length s + 2) b3 = take (start - 2) buf @ seg_frame s @ [0, 0]"
proof -
  obtain t where t: "start = t + 2" using assms(1) by (metis add.commute le_Suc_ex)
  define b1 where "b1 = take t buf @ le_enc 2 (length s) @ drop (t + 2) buf"
  define b2 where "b2 = take t buf @ seg_frame s @ drop (t + 2 + length s) buf"
  define b3 where "b3 = (take t buf @ seg_frame s @ [0, 0]) @ drop (t + 2 + length s + 2) buf"
  have l: "length (take t buf) = t" using assms t by simp
  have 1: "put_at (start - 2) (le_enc 2 (length s)) buf = Inr b1"
    using assms by (simp add: put_at_def b1_def t)
  have 2: "put_at start s b1 = Inr b2"
    using assms l by (auto simp: put_at_def b1_def b2_def seg_frame_def t add.commute)
  have 3: "put_at (start + length s) [0, 0] b2 = Inr b3"
    using assms l by (simp add: put_at_def b2_def b3_def seg_frame_def t add.commute)
  have "length b3 = length buf" using assms l by (simp add: b3_def seg_frame_def t)
  moreover have "take (start + length s + 2) b3 = take (start - 2) buf @ seg_frame s @ [0, 0]"
    unfolding b3_def using assms l by (simp add: seg_frame_def t)
  ultimately show ?thesis using 1 2 3 by blast
qed

lemma fill_package_spec:
  "sl_ok q \<Longrightarrow> 2 \<le> start \<Longrightarrow> ms \<le> int (length buf) \<Longrightarrow>
   \<exists>taken start' buf' q'. fill_package ms start buf q = Inr (start', buf', q') \<and>
     sl_ok q' \<and> sl_contents q = taken @ sl_contents q' \<and> length buf' = length buf \<and>
     (taken = [] \<longrightarrow> start' = start \<and> buf' = buf) \<and>
     (taken \<noteq> [] \<longrightarrow> take start' buf' = take (start - 2) buf @ seg_plain taken \<and>
        start' = start - 2 + length (seg_plain taken) \<and> int start' < ms) \<and>
     (\<forall>s rest. sl_contents q' = s # rest \<longrightarrow> ms - 2 - int start' \<le> int (length s))"
proof (induction ms start buf q rule: fill_package.induct)
  case (1 ms start buf q)
  show ?case
  proof (cases "sl_contents q")
    case Nil
    with 1(2) show ?thesis
      by (auto simp: fill_package.simps [of ms start buf q] sl_front_Nil)
  next
    case (Cons s rest)
    note f = sl_front_pop_Cons [OF 1(2) Cons]
    show ?thesis
    proof (cases "ms - 2 - int start > int (length s)")
      case False
      then show ?thesis using 1(2) f(1) Cons
        by (auto simp: fill_package.simps [of ms start buf q] intro!: exI [of _ "[]"])
    next
      case True
      let ?q = "snd (PackageSegmentList_pop q)" let ?st = "start + length s + 2"
      have fits: "?st \<le> length buf" using True 1(4) by linarith
      obtain b1 b2 b3 where b: "put_at (start - 2) (le_enc 2 (length s)) buf = Inr b1"
          "put_at start s b1 = Inr b2" "put_at (start + length s) [0, 0] b2 = Inr b3"
          "length b3 = length buf" "take ?st b3 = take (start - 2) buf @ seg_frame s @ [0, 0]"
        using put_frame [OF 1(3) fits] by blast
      have step: "fill_package ms start buf q = fill_package ms ?st b3 ?q"
        using f(1) True b(1-3) by (simp add: fill_package.simps [of ms start buf q])
      have pre: "take (?st - 2) b3 = take (start - 2) buf @ seg_frame s"
      proof -
        have "take (?st - 2) b3 = take (?st - 2) (take ?st b3)" by simp
        also have "\<dots> = take (start - 2) buf @ seg_frame s"
        proof -
          have "length (take (start - 2) buf @ seg_frame s) = ?st - 2"
            using 1(3) fits by (simp add: seg_frame_def)
          then show ?thesis unfolding b(5) append_assoc [symmetric] by simp
        qed
        finally show ?thesis .
      qed
      have "ms \<le> int (length b3)" "2 \<le> ?st" using 1(4) b(4) by simp_all
      from 1(1) [OF f(1) True sl_pop_ok [OF 1(2)] this(2,1)] obtain taken start' buf' q' where r:
          "fill_package ms ?st b3 ?q = Inr (start', buf', q')" "sl_ok q'"
          "sl_contents ?q = taken @ sl_contents q'" "length buf' = length b3"
          "taken = [] \<longrightarrow> start' = ?st \<and> buf' = b3"
          "taken \<noteq> [] \<longrightarrow> take start' buf' = take (?st - 2) b3 @ seg_plain taken \<and>
             start' = ?st - 2 + length (seg_plain taken) \<and> int start' < ms"
          "\<forall>s rest. sl_contents q' = s # rest \<longrightarrow> ms - 2 - int start' \<le> int (length s)"
        by blast
      have "take start' buf' = take (start - 2) buf @ seg_plain (s # taken) \<and>
             start' = start - 2 + length (seg_plain (s # taken)) \<and> int start' < ms"
      proof (cases "taken = []")
        case t: True
        with r(5) b(5) 1(3) True show ?thesis by (simp add: seg_plain_def seg_frame_def)
      next
        case False
        obtain t where "start = t + 2" using 1(3) by (metis add.commute le_Suc_ex)
        with False r(6) pre show ?thesis by (auto simp: seg_plain_def seg_frame_def)
      qed
      moreover have "sl_contents q = (s # taken) @ sl_contents q'" using Cons f(3) r(3) by simp
      ultimately show ?thesis using step r(1,2,4,7) b(4) by (metis list.distinct(1))
    qed
  qed
qed

section \<open>The batch loop\<close>

lemma seg_plain_member: "s \<in> set ss \<Longrightarrow> length s + 4 \<le> length (seg_plain ss)"
  by (induction ss) (auto simp: seg_plain_def seg_frame_def)

lemma segment_batch_spec:
  "sl_ok q \<Longrightarrow> ms \<le> int (length buf) \<Longrightarrow> \<forall>s \<in> set (sl_contents q). int (length s) < ms - 4 \<Longrightarrow>
   \<exists>groups buf'. segment_batch ms buf q = Inr (map seg_plain groups, buf') \<and>
     concat groups = sl_contents q \<and> length buf' = length buf \<and> [] \<notin> set groups \<and>
     (\<forall>g \<in> set groups. int (length (seg_plain g)) < ms)"
proof (induction "sl_len q" arbitrary: q buf rule: less_induct)
  case less
  show ?case
  proof (cases "sl_contents q")
    case Nil
    then have "segment_batch ms buf q = Inr ([], buf)"
      by (simp add: segment_batch.simps [of ms buf q] PackageSegmentList_size_def sl_contents_def)
    then show ?thesis using Nil by (auto intro!: exI [of _ "[]"])
  next
    case (Cons s rest)
    obtain taken start' buf1 q1 where f: "fill_package ms 2 buf q = Inr (start', buf1, q1)"
      "sl_ok q1" "sl_contents q = taken @ sl_contents q1" "length buf1 = length buf"
      "taken = [] \<longrightarrow> start' = 2 \<and> buf1 = buf"
      "taken \<noteq> [] \<longrightarrow> take start' buf1 = seg_plain taken \<and>
         start' = length (seg_plain taken) \<and> int start' < ms"
      "\<forall>s rest. sl_contents q1 = s # rest \<longrightarrow> ms - 2 - int start' \<le> int (length s)"
      using fill_package_spec [OF less(2) _ less(3), of 2] by auto
    have ne: "taken \<noteq> []"
    proof
      assume "taken = []"
      with f(3,5) Cons have "sl_contents q1 = s # rest" "start' = 2" by simp_all
      with f(7) less(4) Cons show False by force
    qed
    then have st: "2 < start'" using f(6) by (cases taken) (auto simp: seg_plain_def seg_frame_def)
    have len: "sl_len q1 < sl_len q"
      using arg_cong [OF f(3), of length] ne by (cases taken) (auto simp: sl_contents_def)
    have nz: "PackageSegmentList_size q \<noteq> 0" using len by (simp add: PackageSegmentList_size_def)
    have "ms \<le> int (length buf1)" "\<forall>s \<in> set (sl_contents q1). int (length s) < ms - 4"
      using less(3,4) f(3,4) by simp_all
    from less(1) [OF len f(2) this] obtain groups buf2 where g:
      "segment_batch ms buf1 q1 = Inr (map seg_plain groups, buf2)" "concat groups = sl_contents q1"
      "length buf2 = length buf1" "[] \<notin> set groups" "\<forall>g \<in> set groups. int (length (seg_plain g)) < ms"
      by blast
    have "segment_batch ms buf q = Inr (map seg_plain (taken # groups), buf2)"
      using f(1,6) ne st nz g(1) by (auto simp: segment_batch.simps [of ms buf q])
    then show ?thesis using f(3,4,6) g ne
      by (intro exI [of _ "taken # groups"] exI [of _ buf2]) auto
  qed
qed

lemma segment_batch_diverges:
  "sl_ok q \<Longrightarrow> ms \<le> int (length buf) \<Longrightarrow> s \<in> set (sl_contents q) \<Longrightarrow> ms - 4 \<le> int (length s) \<Longrightarrow>
   segment_batch ms buf q = Inl Diverges"
proof (induction "sl_len q" arbitrary: q buf rule: less_induct)
  case less
  obtain taken start' buf1 q1 where f: "fill_package ms 2 buf q = Inr (start', buf1, q1)"
    "sl_ok q1" "sl_contents q = taken @ sl_contents q1" "length buf1 = length buf"
    "taken = [] \<longrightarrow> start' = 2 \<and> buf1 = buf"
    "taken \<noteq> [] \<longrightarrow> take start' buf1 = seg_plain taken \<and>
       start' = length (seg_plain taken) \<and> int start' < ms"
    using fill_package_spec [OF less(2) _ less(3), of 2] by auto
  have nz: "PackageSegmentList_size q \<noteq> 0"
    using less(4) by (cases "sl_len q") (auto simp: PackageSegmentList_size_def sl_contents_def)
  show ?case
  proof (cases "taken = []")
    case True
    with f(1,5) nz show ?thesis by (simp add: segment_batch.simps [of ms buf q])
  next
    case False
    then have st: "2 < start'" using f(6) by (cases taken) (auto simp: seg_plain_def seg_frame_def)
    have len: "sl_len q1 < sl_len q"
      using arg_cong [OF f(3), of length] False by (cases taken) (auto simp: sl_contents_def)
    have "s \<notin> set taken" using seg_plain_member [of s taken] f(6) False less(5) by auto
    then have "s \<in> set (sl_contents q1)" using less(4) f(3) by simp
    with less(1) [OF len f(2) _ _ less(5), of buf1] less(3) f(4)
    have "segment_batch ms buf1 q1 = Inl Diverges" by simp
    with f(1) st nz show ?thesis by (simp add: segment_batch.simps [of ms buf q])
  qed
qed

section \<open>The parser gives the segments back\<close>

definition sp_at :: "SegmentParser \<Rightarrow> PackageSegment list \<Rightarrow> bool" where
  "sp_at sp ss \<longleftrightarrow> sp_len sp \<noteq> 0 \<and>
     (\<exists>tail. drop (sp_start sp) (sp_buf sp) = seg_plain ss @ tail)"

lemma SegmentParser_next_Nil:
  assumes "sp_at sp []"
  shows "SegmentParser_next room sp = Inr ([], sp)"
proof -
  obtain tail where t: "drop (sp_start sp) (sp_buf sp) = seg_plain [] @ tail" "sp_len sp \<noteq> 0"
    using assms by (auto simp: sp_at_def)
  have "sp_start sp + 2 \<le> length (sp_buf sp)"
    using arg_cong [OF t(1), of length] by (simp add: seg_plain_def)
  then have "get_le 2 (sp_start sp) (sp_buf sp) = Inr 0"
    using t(1) by (simp add: get_le_def seg_plain_def)
  with t(2) show ?thesis by (simp add: SegmentParser_next_def)
qed

lemma SegmentParser_next_Cons:
  assumes at: "sp_at sp (s # ss)" and s: "0 < length s" "length s < 65536" "length s \<le> room"
  shows "\<exists>sp'. SegmentParser_next room sp = Inr (s, sp') \<and> sp_at sp' ss"
proof -
  obtain tail where t: "drop (sp_start sp) (sp_buf sp) = seg_plain (s # ss) @ tail" "sp_len sp \<noteq> 0"
    using at by (auto simp: sp_at_def)
  then have t': "drop (sp_start sp) (sp_buf sp) = le_enc 2 (length s) @ s @ seg_plain ss @ tail"
    by (simp add: seg_plain_def seg_frame_def)
  have len: "sp_start sp + 2 + length s \<le> length (sp_buf sp)"
    using arg_cong [OF t', of length] by simp
  have "le_val (le_enc 2 (length s)) = length s" using s(2) by (simp add: le_val_enc)
  then have g: "get_le 2 (sp_start sp) (sp_buf sp) = Inr (length s)"
    using len t' by (simp add: get_le_def)
  have d: "drop (sp_start sp + 2) (sp_buf sp) = s @ seg_plain ss @ tail"
    using t' by (metis append_eq_conv_conj drop_drop add.commute length_le_enc)
  then have d': "drop (sp_start sp + (length s + 2)) (sp_buf sp) = seg_plain ss @ tail"
    by (metis (no_types, lifting) add.assoc add.commute append_eq_conv_conj drop_drop)
  have "SegmentParser_next room sp = Inr (s, sp\<lparr>sp_start := sp_start sp + (length s + 2)\<rparr>)"
    using t(2) g len s d by (simp add: SegmentParser_next_def)
  then show ?thesis using d' t(2) by (auto simp: sp_at_def)
qed

lemma SegmentParser_load_at:
  assumes "SharpCrypto_decrypt open_easy c data = Inr (Some (seg_plain ss))"
    and "length (seg_plain ss) \<le> length (sp_buf sp)"
  shows "\<exists>sp'. SegmentParser_load open_easy c data sp = Inr sp' \<and> sp_at sp' ss \<and>
     length (sp_buf sp') = length (sp_buf sp)"
proof -
  have "length (seg_plain ss) \<noteq> 0" by (simp add: seg_plain_def)
  then show ?thesis using assms by (auto simp: SegmentParser_load_def sp_at_def overlay_def)
qed

fun next_segments :: "nat \<Rightarrow> nat \<Rightarrow> SegmentParser \<Rightarrow> (bytes list \<times> SegmentParser) outcome" where
  "next_segments room 0 sp = Inr ([], sp)"
| "next_segments room (Suc n) sp =
     bind_out (SegmentParser_next room sp) (\<lambda>(s, sp).
     bind_out (next_segments room n sp) (\<lambda>(ss, sp). Inr (s # ss, sp)))"

lemma next_segments_at:
  "sp_at sp ss \<Longrightarrow> \<forall>s \<in> set ss. 0 < length s \<and> length s < 65536 \<and> length s \<le> room \<Longrightarrow>
   \<exists>sp'. next_segments room (length ss) sp = Inr (ss, sp') \<and> sp_at sp' []"
proof (induction ss arbitrary: sp)
  case (Cons s ss)
  then obtain sp1 where "SegmentParser_next room sp = Inr (s, sp1)" "sp_at sp1 ss"
    using SegmentParser_next_Cons [of sp s ss room] by auto
  with Cons.IH [of sp1] Cons.prems(2) show ?case by auto
qed auto

end
