(* ===== verification/RudpSocket.thy ===== *)
theory RudpSocket
  imports WaitList Segments
begin

text \<open>
  Model of \<open>src/src/rudp/ReliableSocket.h\<close> and \<open>src/src/rudp/ReliableSocket.cpp\<close>: one end of a reliable-UDP
  connection. The record \<open>rsock\<close> holds the fields of the class, the stores its packages live in
  (received ones and ones to send: no pointer moves between the two sides), and the local
  variables that the worker threads keep between turns (the receive buffer, the snapshot the
  segment thread packs, the package the acknowledgement handler looks at, the sender's counters). Each turn of a worker
  loop, and each part of a loop body before and after a wait, is a
  function; datagrams handed to \<open>sendto\<close> are part of the result. What libsodium computes and what
  uninitialised memory holds comes from the record \<open>env\<close>.
\<close>

section \<open>State\<close>

datatype SocketType = RegularSocket | BindedSocket | ServerSocket | AcceptableSocket

record env =
  ev_easy :: easy
  ev_open :: open_easy
  ev_nonce :: "u64 \<Rightarrow> bytes"    \<comment> \<open>the nonce drawn for the package with this identifier\<close>
  ev_junk_id :: u64
  ev_junk_time :: timeval

record rsock =
  so_type :: SocketType
  so_download_speed :: u32
  so_upload_speed :: u32
  so_send_speed :: u32
  so_worker_running :: bool
  so_fast_start :: bool
  so_crypto :: SharpCrypto
  so_rto :: int
  so_max_segment :: int
  so_segment_list :: segmentlist
  so_segment_recv :: SegmentParser
  so_send_id :: u64
  so_send_pool :: packagequeuemap
  so_resend_now :: u64
  so_recv_ack_id :: u64
  so_send_ack_id :: u64
  so_send_from :: u64
  so_ack_pool :: ackwaitlist
  so_ack_send_queue :: ackqueue
  so_ack_recv_pool :: idset
  so_ping_send_time :: timeval
  so_recv_id :: u64
  so_recv_pool :: packagemap
  so_heap :: heap                    \<comment> \<open>the received packages\<close>
  so_send_heap :: heap               \<comment> \<open>the packages to send\<close>
  so_recv_buf :: bytes               \<comment> \<open>\<open>buf\<close> of the receiver thread\<close>
  so_seg_pending :: "segmentlist option"  \<comment> \<open>\<open>list\<close> of the segment thread\<close>
  so_seg_buf :: bytes                \<comment> \<open>\<open>buf\<close> of the segment thread\<close>
  so_ack_cur :: "nat option"         \<comment> \<open>\<open>ack_data\<close> of the acknowledgement handler\<close>
  so_fast_start_count :: int
  so_package_count :: int

text \<open>
  A new socket: the member initialisers of the class with the given capacity (the class uses
  100000 for every container), and uninitialised arrays as the allocator gave them.
\<close>

definition rsock_new ::
  "nat \<Rightarrow> u64 list \<Rightarrow> PackageSegment list \<Rightarrow> bytes \<Rightarrow> u32 \<Rightarrow> u32 \<Rightarrow> bytes \<Rightarrow> int \<Rightarrow> rsock" where
  "rsock_new capacity junk64 junkseg junk8 down_speed up_speed key max_segment =
     \<lparr>so_type = RegularSocket, so_download_speed = down_speed, so_upload_speed = up_speed,
      so_send_speed = 0, so_worker_running = False, so_fast_start = True,
      so_crypto = SharpCrypto_new key, so_rto = 0, so_max_segment = max_segment,
      so_segment_list = PackageSegmentList_new junkseg capacity,
      so_segment_recv = SegmentParser_new junk8,
      so_send_id = 1, so_send_pool = PackageQueueMap_new capacity, so_resend_now = 0,
      so_recv_ack_id = 0, so_send_ack_id = 0, so_send_from = 0,
      so_ack_pool = AckWaitList_new capacity, so_ack_send_queue = AckQueue_new junk64 capacity,
      so_ack_recv_pool = IdSet_new junk64 capacity, so_ping_send_time = (0, 0), so_recv_id = 1,
      so_recv_pool = PackageMap_new capacity, so_heap = heap_empty,
      so_send_heap = heap_empty, so_recv_buf = take MAX_MTU junk8, so_seg_pending = None, so_seg_buf = take MAX_MTU junk8,
      so_ack_cur = None, so_fast_start_count = 0, so_package_count = 0\<rparr>"

section \<open>Time\<close>

definition c_div :: "int \<Rightarrow> int \<Rightarrow> int" where
  "c_div a b = sgn a * sgn b * (\<bar>a\<bar> div \<bar>b\<bar>)"

definition get_ms :: "timeval \<Rightarrow> timeval \<Rightarrow> int" where
  "get_ms a b = (fst a - fst b) * 1000 + c_div (snd a - snd b) 1000"

definition set_rto :: "int \<Rightarrow> rsock \<Rightarrow> rsock" where
  "set_rto rtt s = (let rto = 2 * rtt in s\<lparr>so_rto := (if rto < 30 then 30 else rto)\<rparr>)"

definition stop_all_thread :: "rsock \<Rightarrow> rsock" where
  \<comment> \<open>the signals and the datagrams to the control port only wake the threads up\<close>
  "stop_all_thread s = s\<lparr>so_worker_running := False\<rparr>"

definition is_alive :: "rsock \<Rightarrow> bool" where
  "is_alive s = so_worker_running s"

definition umax :: "u64 \<Rightarrow> u64 \<Rightarrow> u64" where
  \<comment> \<open>the macro \<open>MAX\<close>\<close>
  "umax a b = (if b < a then a else b)"

section \<open>Receiver thread\<close>

definition recv_present :: "rsock \<Rightarrow> u64 \<Rightarrow> bool" where
  "recv_present s i \<longleftrightarrow> PackageMap_find i (so_recv_pool s) \<noteq> None"

definition acked :: "idset \<Rightarrow> u64 \<Rightarrow> bool" where
  "acked p i \<longleftrightarrow> IdSet_find i p \<noteq> 0"

definition advance_recv_ack :: "rsock \<Rightarrow> rsock outcome" where
  "advance_recv_ack s =
     bind_out (of_option Diverges
       (advance (Suc (pm_capacity (so_recv_pool s))) (recv_present s) (so_recv_ack_id s)))
       (\<lambda>y. Inr (s\<lparr>so_recv_ack_id := y\<rparr>))"

definition advance_send_ack :: "rsock \<Rightarrow> rsock outcome" where
  "advance_send_ack s =
     bind_out (of_option Diverges
       (advance (Suc (is_size (so_ack_recv_pool s))) (acked (so_ack_recv_pool s)) (so_send_ack_id s)))
       (\<lambda>y. Inr (s\<lparr>so_send_ack_id := y\<rparr>))"

definition handle_ping :: "timeval \<Rightarrow> nat \<Rightarrow> rsock \<Rightarrow> (rsock \<times> bytes list) outcome" where
  "handle_ping now r s =
     bind_out (ping_back_of (so_recv_buf s)) (\<lambda>back.
     if \<not> back then
       (let buf = ping_set_back (so_recv_buf s) in Inr (s\<lparr>so_recv_buf := buf\<rparr>, [take r buf]))
     else
       (let lasting_time = get_ms now (so_ping_send_time s) in
        Inr (if lasting_time < 2 * so_rto s then set_rto lasting_time s else s, [])))"

definition handle_data :: "env \<Rightarrow> nat \<Rightarrow> rsock \<Rightarrow> rsock outcome" where
  "handle_data e r s =
     bind_out (PackageData_from_buf (ev_junk_time e) (so_recv_buf s) r) (\<lambda>d.
     let recv_package_id = pd_package_id d; recv_una = pd_una d;
         (data_buf, h) = heap_new d (so_heap s) in
     bind_out
       (if PackageMap_find recv_package_id (so_recv_pool s) = None
           \<and> so_recv_ack_id s < recv_package_id
        then PackageMap_set recv_package_id data_buf (h, so_recv_pool s)
        else bind_out (heap_delete (Some data_buf) h) (\<lambda>h. Inr (h, so_recv_pool s))) (\<lambda>(h, pool).
     bind_out (advance_recv_ack (s\<lparr>so_heap := h, so_recv_pool := pool\<rparr>)) (\<lambda>s.
     advance_send_ack
       (s\<lparr>so_ack_send_queue := AckQueue_push recv_package_id (so_ack_send_queue s),
          so_send_ack_id := umax (so_send_ack_id s) recv_una\<rparr>))))"

fun collect_acks :: "u64 \<Rightarrow> u64 \<Rightarrow> u64 list \<Rightarrow> idset \<times> u64 \<Rightarrow> idset \<times> u64" where
  "collect_acks send_ack send_id [] st = st"
| "collect_acks send_ack send_id (ack_id # ids) (pool, max_ack_id) =
     collect_acks send_ack send_id ids
       (if ack_id \<le> send_ack \<or> ack_id > send_id then (pool, max_ack_id)
        else (if acked pool ack_id then pool else IdSet_insert ack_id pool,
              umax max_ack_id ack_id))"

definition u64_range :: "u64 \<Rightarrow> u64 \<Rightarrow> u64 list" where
  \<comment> \<open>the values of \<open>i\<close> in \<^verbatim>\<open>for (i = a; i < b; i++)\<close>\<close>
  "u64_range a b = map of_nat [unat a..<unat b]"

definition fast_resend :: "u64 \<Rightarrow> rsock \<Rightarrow> rsock" where
  "fast_resend max_ack_id s =
     (let s = (if so_resend_now s < so_send_ack_id s then s\<lparr>so_resend_now := so_send_ack_id s\<rparr> else s) in
      if max_ack_id > so_resend_now s + 2 then
        s\<lparr>so_send_pool := fold PackageQueueMap_push_resend
            (filter (\<lambda>i. \<not> acked (so_ack_recv_pool s) i) (u64_range (so_resend_now s + 1) max_ack_id))
            (so_send_pool s),
          so_resend_now := max_ack_id\<rparr>
      else s)"

definition handle_ack :: "rsock \<Rightarrow> rsock outcome" where
  "handle_ack s =
     bind_out (PackageAck_load_buf (so_recv_buf s)) (\<lambda>a.
     let ack_una = (if pa_una a > so_send_id s then 0 else pa_una a);
         s = (if pa_send_from a > so_recv_ack_id s
              then s\<lparr>so_recv_ack_id := pa_send_from a\<rparr> else s);
         (pool, max_ack_id) = collect_acks (so_send_ack_id s) (so_send_id s) (pa_ack_list a)
            (so_ack_recv_pool s, 0) in
     bind_out (advance_send_ack
       (s\<lparr>so_ack_recv_pool := pool, so_send_ack_id := umax ack_una (so_send_ack_id s)\<rparr>)) (\<lambda>s.
     Inr (fast_resend max_ack_id s)))"

definition process_package :: "env \<Rightarrow> timeval \<Rightarrow> nat \<Rightarrow> rsock \<Rightarrow> (rsock \<times> bytes list) outcome" where
  "process_package e now r s =
     bind_out (parse_package_type (so_recv_buf s)) (\<lambda>ty.
     case ty of
       Some Ping \<Rightarrow> handle_ping now r s
     | Some Data \<Rightarrow> bind_out (handle_data e r s) (\<lambda>s. Inr (s, []))
     | Some Ack \<Rightarrow> bind_out (handle_ack s) (\<lambda>s. Inr (s, []))
     | Some ConnectionClose \<Rightarrow> Inr (stop_all_thread s, [])
     | _ \<Rightarrow> Inr (s, []))"

text \<open>
  One turn of the receiver: a datagram arrives in \<open>buf\<close> (\<open>recvfrom\<close> cuts it at \<open>MAX_MTU\<close>); an
  empty one is ignored.
\<close>

definition receiver_step :: "env \<Rightarrow> timeval \<Rightarrow> bytes \<Rightarrow> rsock \<Rightarrow> (rsock \<times> bytes list) outcome" where
  "receiver_step e now dgram s =
     (let dg = take MAX_MTU dgram; s = s\<lparr>so_recv_buf := overlay dg (so_recv_buf s)\<rparr> in
      if length dg > 0 then process_package e now (length dg) s else Inr (s, []))"

section \<open>Delivery to the application\<close>

datatype recv_result =
    RecvSegment bytes   \<comment> \<open>the returned length and the bytes\<close>
  | RecvClosed          \<comment> \<open>-1: the workers stopped\<close>
  | RecvBlocked         \<comment> \<open>waits on \<open>recv_cv\<close>\<close>

text \<open>\<open>Inl ()\<close>: the package to deliver is there; \<open>Inr r\<close>: the loop ended with \<open>r\<close>.\<close>

function recv_wait :: "bool \<Rightarrow> packagemap \<Rightarrow> u64 \<Rightarrow> u64 \<Rightarrow> u64 \<times> (unit + recv_result)" where
  "recv_wait running pool recv_ack recv_id =
     (if PackageMap_find recv_id pool = None then
        (if \<not> running then (recv_id, Inr RecvClosed)
         else if recv_id < recv_ack then recv_wait running pool recv_ack (recv_id + 1)
         else (recv_id, Inr RecvBlocked))
      else (recv_id, Inl ()))"
  by pat_completeness auto
termination
  by (relation "measure (\<lambda>(r, p, a, i). unat a - unat i)")
    (auto simp: unat_plus_one word_less_nat_alt)

declare recv_wait.simps [simp del]

definition to_int_and_back :: "u64 \<Rightarrow> u64" where
  \<comment> \<open>\<^verbatim>\<open>int recv_now = recv_id++\<close> narrows, and passing it to \<open>erase\<close> sign-extends\<close>
  "to_int_and_back x = scast (ucast x :: 32 word)"

definition recv_package :: "env \<Rightarrow> nat \<Rightarrow> rsock \<Rightarrow> (recv_result \<times> rsock) outcome" where
  "recv_package e room s =
     bind_out (SegmentParser_next room (so_segment_recv s)) (\<lambda>(seg, sp).
     let s = s\<lparr>so_segment_recv := sp\<rparr> in
     if length seg \<noteq> 0 then Inr (RecvSegment seg, s)
     else
       (case recv_wait (so_worker_running s) (so_recv_pool s) (so_recv_ack_id s) (so_recv_id s) of
         (i, Inr res) \<Rightarrow> Inr (res, s\<lparr>so_recv_id := i\<rparr>)
       | (i, Inl _) \<Rightarrow>
          (let return_data = PackageMap_index i (so_recv_pool s);
               recv_now = to_int_and_back i; s = s\<lparr>so_recv_id := i + 1\<rparr> in
           bind_out (heap_get return_data (so_heap s)) (\<lambda>d.
           bind_out (SegmentParser_load (ev_open e) (so_crypto s) (pd_data d) (so_segment_recv s)) (\<lambda>sp.
           bind_out (PackageMap_erase recv_now (so_heap s, so_recv_pool s)) (\<lambda>(h, pool).
           bind_out (SegmentParser_next room sp) (\<lambda>(seg, sp).
             Inr (RecvSegment seg,
                  s\<lparr>so_segment_recv := sp, so_heap := h, so_recv_pool := pool\<rparr>))))))))"

section \<open>A concrete environment\<close>

text \<open>
  Stands for libsodium where a statement is evaluated: sixteen zero bytes as authenticator, the
  message in clear. It satisfies \<open>secretbox_spec\<close>, the only thing the development assumes of it.
\<close>

definition clear_easy :: easy where
  "clear_easy k n m = replicate crypto_secretbox_MACBYTES 0 @ m"

definition clear_open :: open_easy where
  "clear_open k n c =
     (if take crypto_secretbox_MACBYTES c = replicate crypto_secretbox_MACBYTES 0
      then Some (drop crypto_secretbox_MACBYTES c) else None)"

definition clear_env :: env where
  "clear_env = \<lparr>ev_easy = clear_easy, ev_open = clear_open,
     ev_nonce = (\<lambda>i. replicate crypto_secretbox_NONCEBYTES 7), ev_junk_id = 0, ev_junk_time = (0, 0)\<rparr>"

definition fresh_sock :: rsock where
  "fresh_sock = (rsock_new 8 (replicate 8 0) (replicate 8 []) (replicate 1600 0) 100 100 [1, 2, 3]
     (MAX_SEGMENT 1496))\<lparr>so_worker_running := True, so_rto := 200\<rparr>"

lemma clear_secretbox: "secretbox_spec clear_easy clear_open"
  by (simp add: secretbox_spec_def clear_easy_def clear_open_def)

end
