(* ===== verification/RudpSend.thy ===== *)
theory RudpSend
  imports RudpSocket
begin

text \<open>
  The sending half of \<open>src/src/rudp/ReliableSocket.cpp\<close>: \<open>send_package\<close>, the segment thread, the main
  sender, the acknowledgement sender, the acknowledgement handler and the pacing class \<open>Sleeper\<close>.
  A wait in the middle of a loop body splits the body into two functions.
\<close>

section \<open>Pacing\<close>

record sleeper =
  sl_t0 :: timeval
  sl_send_len :: int
  sl_sleep_len :: int
  sl_sleep_time :: int

definition get_us :: "timeval \<Rightarrow> timeval \<Rightarrow> int" where
  "get_us a b = (fst a - fst b) * 1000000 + (snd a - snd b)"

definition Sleeper_new :: "timeval \<Rightarrow> int \<Rightarrow> int \<Rightarrow> sleeper" where
  "Sleeper_new now sleep_len sleep_time =
     \<lparr>sl_t0 = now, sl_send_len = 0, sl_sleep_len = sleep_len, sl_sleep_time = sleep_time\<rparr>"

text \<open>The result is the time slept, in microseconds; \<open>wake\<close> is the time read after the sleep.\<close>

definition send_sleep :: "int \<Rightarrow> timeval \<Rightarrow> timeval \<Rightarrow> sleeper \<Rightarrow> int \<times> sleeper" where
  "send_sleep n now wake sl =
     (let sl = sl\<lparr>sl_send_len := sl_send_len sl + n\<rparr> in
      if sl_send_len sl > sl_sleep_len sl then
        (let time_pass = get_us now (sl_t0 sl) in
         (if time_pass < sl_sleep_time sl then sl_sleep_time sl - time_pass else 0,
          sl\<lparr>sl_t0 := wake, sl_send_len := 0\<rparr>))
      else (0, sl))"

section \<open>Segments in, packages out\<close>

definition send_package :: "bytes \<Rightarrow> nat \<Rightarrow> rsock \<Rightarrow> (int \<times> rsock) outcome" where
  "send_package buf n s =
     (if \<not> so_worker_running s then Inr (-1, s)
      else bind_out (PackageSegment_new buf n) (\<lambda>seg.
        Inr (0, s\<lparr>so_segment_list := PackageSegmentList_push seg (so_segment_list s)\<rparr>)))"

text \<open>
  First half of the loop body: take a snapshot of the segments. The snapshot shares the array
  with the live list, so it is re-read through the live list's array when it is packed.
\<close>

definition segment_take :: "rsock \<Rightarrow> rsock" where
  "segment_take s =
     (if so_seg_pending s \<noteq> None \<or> PackageSegmentList_size (so_segment_list s) = 0 then s
      else s\<lparr>so_seg_pending := Some (PackageSegmentList_copy (so_segment_list s)),
             so_segment_list := PackageSegmentList_rebase (so_segment_list s)\<rparr>)"

definition window_open :: "rsock \<Rightarrow> bool" where
  "window_open s \<longleftrightarrow> \<not> (so_send_id s - so_send_ack_id s > 8000)"

definition push_plain :: "env \<Rightarrow> bytes \<Rightarrow> rsock \<Rightarrow> rsock outcome" where
  "push_plain e plain s =
     (let i = so_send_id s;
          package = (PackageData_len (ev_junk_id e) (ev_junk_id e) (ev_junk_time e)
            (replicate (length plain + SHARPVPN_CRYPTO_OVERHEAD) 0))
              \<lparr>pd_data := SharpCrypto_encrypt (ev_easy e) (so_crypto s) (ev_nonce e i) plain,
               pd_package_id := i\<rparr>;
          (a, h) = heap_new package (so_send_heap s) in
      bind_out (PackageQueueMap_push a i (h, so_send_pool s)) (\<lambda>(h, pool).
        Inr (s\<lparr>so_send_heap := h, so_send_pool := pool, so_send_id := i + 1\<rparr>)))"

fun push_plains :: "env \<Rightarrow> bytes list \<Rightarrow> rsock \<Rightarrow> rsock outcome" where
  "push_plains e [] s = Inr s"
| "push_plains e (p # ps) s = bind_out (push_plain e p s) (push_plains e ps)"

text \<open>Second half: once the window is open, pack the whole snapshot.\<close>

definition segment_pack :: "env \<Rightarrow> rsock \<Rightarrow> rsock outcome" where
  "segment_pack e s =
     (case so_seg_pending s of
        None \<Rightarrow> Inr s
      | Some snap \<Rightarrow>
         (if \<not> window_open s then Inr s
          else
            bind_out (segment_batch (so_max_segment s) (so_seg_buf s)
                (snap\<lparr>sl_list := sl_list (so_segment_list s)\<rparr>)) (\<lambda>(plains, buf).
              push_plains e plains (s\<lparr>so_seg_pending := None, so_seg_buf := buf\<rparr>))))"

section \<open>Main sender\<close>

text \<open>The start of a turn: every 50 turns, a ping when the last one is older than 20 seconds.\<close>

definition sender_tick :: "timeval \<Rightarrow> rsock \<Rightarrow> rsock \<times> bytes list" where
  "sender_tick now s =
     (let n = so_package_count s + 1 in
      if n mod 50 = 0 then
        (let s = s\<lparr>so_package_count := 0\<rparr> in
         if get_ms now (so_ping_send_time s) > 20000
         then (s\<lparr>so_ping_send_time := now\<rparr>, [PackagePing_bytes False]) else (s, []))
      else (s\<lparr>so_package_count := n\<rparr>, []))"

text \<open>The rest of the turn; with an empty pool the thread waits (the state is unchanged).\<close>

definition sender_send :: "timeval \<Rightarrow> rsock \<Rightarrow> (rsock \<times> bytes list) outcome" where
  "sender_send now s =
     (if PackageQueueMap_size (so_send_pool s) = 0 then Inr (s, [])
      else case PackageQueueMap_pop (so_send_pool s) of (package_send, pool) \<Rightarrow>
        let s = s\<lparr>so_send_pool := pool\<rparr> in
        case package_send of
          None \<Rightarrow> Inr (s, [])
        | Some a \<Rightarrow>
           bind_out (heap_get (Some a) (so_send_heap s)) (\<lambda>d.
           let d = d\<lparr>pd_una := so_recv_ack_id s, pd_send_count := pd_send_count d + 1\<rparr>;
               out = [pd_bytes d] @ (if pd_send_count d \<ge> 2 then [pd_bytes d] else [])
                     @ (if so_fast_start s then [pd_bytes d] else []);
               n = so_fast_start_count s + 1;
               s = (if so_fast_start s
                    then if n = 10 then s\<lparr>so_fast_start_count := 0, so_fast_start := False\<rparr>
                         else s\<lparr>so_fast_start_count := n\<rparr>
                    else s);
               h = heap_put a (d\<lparr>pd_send_time := now\<rparr>) (so_send_heap s) in
           bind_out (AckWaitList_push a h (so_ack_pool s)) (\<lambda>w.
             Inr (s\<lparr>so_send_heap := h, so_ack_pool := w\<rparr>, out))))"

section \<open>Acknowledgement sender\<close>

lemma ack_load_loop_len:
  "ack_load_loop n una q = (xs, q') \<Longrightarrow>
     aq_len q' \<le> aq_len q \<and> (0 < n \<longrightarrow> 0 < aq_len q \<longrightarrow> aq_len q' < aq_len q)"
proof (induction n una q arbitrary: xs q' rule: ack_load_loop.induct)
  case (1 n una q)
  show ?case
  proof (cases "0 < n \<and> 0 < AckQueue_size q")
    case False
    with 1(3) show ?thesis
      by (auto simp: ack_load_loop.simps [of n una q] AckQueue_size_def split: if_splits)
  next
    case True
    obtain x q1 where p: "AckQueue_pop q = (x, q1)" by fastforce
    then have l: "aq_len q1 < aq_len q" using True
      by (auto simp: AckQueue_pop_def AckQueue_size_def split: if_splits)
    show ?thesis
    proof (cases "una < x")
      case gt: True
      obtain ys where "ack_load_loop (n - 1) una q1 = (ys, q')"
        using 1(3) True p gt
        by (auto simp: ack_load_loop.simps [of n una q] split: if_splits prod.splits)
      from 1(1) [OF True p [symmetric] gt this] l show ?thesis by linarith
    next
      case le: False
      then have "ack_load_loop n una q1 = (xs, q')"
        using 1(3) True p by (simp add: ack_load_loop.simps [of n una q])
      from 1(2) [OF True p [symmetric] le this] l show ?thesis by linarith
    qed
  qed
qed

function ack_drain :: "nat \<Rightarrow> u64 \<Rightarrow> u64 \<Rightarrow> ackqueue \<Rightarrow> PackageAck list" where
  "ack_drain max_ack una send_from q =
     (if AckQueue_size q = 0 \<or> max_ack = 0 then []
      else case ack_load_loop max_ack una q of (ids, q1) \<Rightarrow>
        \<lparr>pa_una = una, pa_send_from = send_from, pa_ack_list = ids\<rparr>
          # ack_drain max_ack una send_from q1)"
  by pat_completeness auto
termination
  by (relation "measure (\<lambda>(m, una, sf, q). aq_len q)")
    (auto dest!: sym [of "(_, _)" "ack_load_loop _ _ _"] dest: ack_load_loop_len
      simp: AckQueue_size_def)

declare ack_drain.simps [simp del]

text \<open>
  One turn: snapshot and \<open>rebase\<close>, then packages of at most 35 identifiers until the snapshot is
  empty, each sent twice. (\<open>ack_drain 0\<close>, which the code never runs, would not end.)
\<close>

definition ack_sender_step :: "rsock \<Rightarrow> rsock \<times> bytes list" where
  "ack_sender_step s =
     (let read_list = AckQueue_copy (so_ack_send_queue s);
          packages = ack_drain 35 (so_recv_ack_id s) (so_send_from s) read_list in
      (s\<lparr>so_ack_send_queue := AckQueue_rebase (so_ack_send_queue s)\<rparr>,
       concat (map (\<lambda>a. [pa_bytes a, pa_bytes a]) packages)))"

section \<open>Acknowledgement handler\<close>

text \<open>First half: take the oldest sent package; after more than 20 transmissions it is given up.\<close>

definition ackhandler_pop :: "rsock \<Rightarrow> rsock outcome" where
  "ackhandler_pop s =
     (if so_ack_cur s \<noteq> None \<or> AckWaitList_size (so_ack_pool s) = 0 then Inr s
      else bind_out (AckWaitList_pop (so_send_heap s) (so_ack_pool s)) (\<lambda>(ack_data, w).
        let s = s\<lparr>so_ack_pool := w\<rparr> in
        bind_out (heap_get ack_data (so_send_heap s)) (\<lambda>d.
        if pd_send_count d > 20 then
          bind_out (PackageQueueMap_erase (pd_package_id d) (so_send_heap s, so_send_pool s)) (\<lambda>(h, pool).
          bind_out (heap_get ack_data h) (\<lambda>d.
            Inr (s\<lparr>so_send_heap := h, so_send_pool := pool,
                   so_send_from := (if pd_package_id d > so_send_from s
                                    then pd_package_id d + 1 else so_send_from s)\<rparr>)))
        else Inr (s\<lparr>so_ack_cur := ack_data\<rparr>))))"

text \<open>
  Second half: one test of the waiting loop. Acknowledged: release the package. Not yet, and the
  timeout has not passed: sleep (state unchanged). Timed out: queue it for resending.
\<close>

definition ackhandler_check :: "timeval \<Rightarrow> rsock \<Rightarrow> rsock outcome" where
  "ackhandler_check now s =
     (case so_ack_cur s of
        None \<Rightarrow> Inr s
      | Some a \<Rightarrow>
         bind_out (heap_get (Some a) (so_send_heap s)) (\<lambda>d.
         let i = pd_package_id d in
         if so_send_ack_id s < i \<and> \<not> acked (so_ack_recv_pool s) i then
           (if get_ms now (pd_send_time d) < so_rto s then Inr s
            else Inr (s\<lparr>so_send_pool := PackageQueueMap_push_resend i (so_send_pool s),
                        so_ack_cur := None\<rparr>))
         else
           bind_out (PackageQueueMap_erase i (so_send_heap s, so_send_pool s)) (\<lambda>(h, pool).
             Inr (s\<lparr>so_send_heap := h, so_send_pool := pool, so_ack_cur := None\<rparr>))))"

end
