(* ===== verification/RudpReceive.thy ===== *)
theory RudpReceive
  imports RudpSocket
begin

text \<open>
  What the receiver thread of \<open>RudpSocket\<close> guarantees on any datagram: its loops end, the
  cumulative acknowledgement of the peer only grows, and identifiers outside the sending window
  are ignored.
\<close>

section \<open>The shape of a socket\<close>

definition rx_shape :: "rsock \<Rightarrow> bool" where
  "rx_shape s \<longleftrightarrow>
     0 < pm_capacity (so_recv_pool s) \<and>
     length (pm_arr_id (so_recv_pool s)) = pm_capacity (so_recv_pool s) \<and>
     length (pm_data (so_recv_pool s)) = pm_capacity (so_recv_pool s) \<and>
     pm_capacity (so_recv_pool s) < 2 ^ 32 \<and>
     is_ok (so_ack_recv_pool s) \<and> is_size (so_ack_recv_pool s) < 2 ^ 32"

lemma advance_recv_ack_total:
  assumes "rx_shape s"
  obtains y where "advance_recv_ack s = Inr (s\<lparr>so_recv_ack_id := y\<rparr>)"
    and "advance (Suc (pm_capacity (so_recv_pool s))) (recv_present s) (so_recv_ack_id s) = Some y"
proof -
  let ?m = "so_recv_pool s"
  have "i \<in> set (pm_arr_id ?m)" if "recv_present s i" for i
  proof -
    have "pm_arr_id ?m ! slot (pm_capacity ?m) i = i"
      using that by (auto simp: recv_present_def PackageMap_find_def split: if_splits)
    then show ?thesis using assms slot_less [of "pm_capacity ?m" i]
      by (metis nth_mem rx_shape_def)
  qed
  moreover have "length (pm_arr_id ?m) < 2 ^ 64 - 1" using assms by (simp add: rx_shape_def)
  ultimately obtain y where
    "advance (Suc (pm_capacity ?m)) (recv_present s) (so_recv_ack_id s) = Some y"
    using advance_terminates [of "recv_present s" "pm_arr_id ?m" "so_recv_ack_id s"] assms
    by (auto simp: rx_shape_def simp del: advance.simps)
  with that show thesis by (simp add: advance_recv_ack_def del: advance.simps)
qed

lemma acked_in: "is_ok p \<Longrightarrow> acked p i \<Longrightarrow> i \<in> set (is_arr p)"
  unfolding acked_def by (rule IdSet_find_nonzero(1))

lemma not_acked_0 [simp]: "\<not> acked p 0"
  by (simp add: acked_def)

lemma advance_send_ack_total:
  assumes "rx_shape s"
  obtains y where "advance_send_ack s = Inr (s\<lparr>so_send_ack_id := y\<rparr>)"
    and "advance (Suc (is_size (so_ack_recv_pool s))) (acked (so_ack_recv_pool s))
           (so_send_ack_id s) = Some y"
    and "so_send_ack_id s \<le> y"
proof -
  let ?p = "so_ack_recv_pool s"
  have l: "length (is_arr ?p) = is_size ?p" "is_ok ?p" using assms by (auto simp: rx_shape_def is_ok_def)
  have "length (is_arr ?p) < 2 ^ 64 - 1" using l assms by (simp add: rx_shape_def)
  with l acked_in [OF l(2)] obtain y where
    y: "advance (Suc (is_size ?p)) (acked ?p) (so_send_ack_id s) = Some y"
    using advance_terminates [of "acked ?p" "is_arr ?p" "so_send_ack_id s"] by (auto simp del: advance.simps)
  have "so_send_ack_id s \<le> y"
  proof (rule advance_invariant [OF y])
    fix z assume z: "so_send_ack_id s \<le> z" "acked ?p (z + 1)"
    then have "z + 1 \<noteq> 0" by auto
    then have "z < z + 1" by (rule u64_less_plus_one)
    with z show "so_send_ack_id s \<le> z + 1" by simp
  qed simp
  with that y show thesis by (simp add: advance_send_ack_def del: advance.simps)
qed

section \<open>The receiver always finishes a datagram\<close>

definition no_div :: "'a outcome \<Rightarrow> bool" where
  "no_div m \<longleftrightarrow> m \<noteq> Inl Diverges"

lemma no_div_Inr [simp]: "no_div (Inr x)"
  by (simp add: no_div_def)

lemma no_div_Inl [simp]: "no_div (Inl f) \<longleftrightarrow> f \<noteq> Diverges"
  by (simp add: no_div_def)

lemma no_div_bind:
  "no_div m \<Longrightarrow> (\<And>x. m = Inr x \<Longrightarrow> no_div (f x)) \<Longrightarrow> no_div (bind_out m f)"
  by (cases m) (auto simp: no_div_def)

lemma no_div_get_le [simp]: "no_div (get_le n off buf)"
  by (simp add: no_div_def get_le_def)

lemma no_div_get_u64s [simp]: "no_div (get_u64s n off buf)"
  by (induction n arbitrary: off) (auto intro!: no_div_bind)

lemma no_div_heap_delete [simp]: "no_div (heap_delete p h)"
  by (auto simp: no_div_def heap_delete_def split: option.splits)

lemma PackageMap_set_shape:
  assumes "PackageMap_set i a (h, m) = Inr (h', m')"
  shows "pm_capacity m' = pm_capacity m \<and> length (pm_arr_id m') = length (pm_arr_id m) \<and>
     length (pm_data m') = length (pm_data m)"
  using assms by (auto simp: PackageMap_set_def Let_def bind_out_eq_Inr_iff)

lemma no_div_set [simp]: "no_div (PackageMap_set i a hm)"
  by (cases hm) (auto simp: PackageMap_set_def Let_def intro!: no_div_bind)

lemma no_div_load_buf [simp]: "no_div (PackageAck_load_buf buf)"
  unfolding PackageAck_load_buf_def by (intro no_div_bind) auto

lemma no_div_from_buf [simp]: "no_div (PackageData_from_buf t buf n)"
  unfolding PackageData_from_buf_def Let_def by (intro no_div_bind) auto

lemma collect_acks_ok:
  "is_ok p \<Longrightarrow> collect_acks sa si ids (p, m) = (p', m') \<Longrightarrow>
     is_ok p' \<and> is_size p' = is_size p \<and>
     (\<forall>i. acked p' i \<longrightarrow> acked p i \<or> (i \<in> set ids \<and> sa < i \<and> i \<le> si))"
proof (induction ids arbitrary: p m)
  case (Cons x ids)
  let ?p1 = "if x \<le> sa \<or> si < x \<or> acked p x then p else IdSet_insert x p"
  let ?m1 = "if x \<le> sa \<or> si < x then m else umax m x"
  have "collect_acks sa si ids (?p1, ?m1) = (p', m')"
    using Cons.prems(2) by (auto split: if_splits)
  moreover have "is_ok ?p1" using Cons.prems(1) by (simp add: is_ok_insert)
  moreover have "acked p i \<or> (i = x \<and> sa < i \<and> i \<le> si)" if "acked ?p1 i" for i
    using that Cons.prems(1) by (auto simp: acked_def IdSet_find_insert split: if_splits)
  ultimately show ?case using Cons.IH [of ?p1 ?m1] by fastforce
qed auto

text \<open>
  One lemma per branch of the \<open>switch\<close>: no loop runs forever, the shape stays, the cumulative
  acknowledgement grows, and only identifiers of the sending window become acknowledged.
\<close>

definition rx_step_ok :: "rsock \<Rightarrow> rsock outcome \<Rightarrow> bool" where
  "rx_step_ok s r \<longleftrightarrow> no_div r \<and>
     (\<forall>s'. r = Inr s' \<longrightarrow> rx_shape s' \<and> so_send_ack_id s \<le> so_send_ack_id s' \<and>
        so_send_id s' = so_send_id s \<and>
        (\<forall>i. acked (so_ack_recv_pool s') i \<longrightarrow>
           acked (so_ack_recv_pool s) i \<or> so_send_ack_id s < i \<and> i \<le> so_send_id s))"

lemma umax_ge: "a \<le> umax a b" "b \<le> umax a b"
  by (auto simp: umax_def)

lemma rx_step_ok_data:
  assumes sh: "rx_shape s"
  shows "rx_step_ok s (handle_data e r s)"
proof (cases "PackageData_from_buf (ev_junk_time e) (so_recv_buf s) r")
  case (Inl f)
  then show ?thesis using no_div_from_buf [of "ev_junk_time e" "so_recv_buf s" r]
    by (simp add: handle_data_def rx_step_ok_def)
next
  case (Inr d)
  obtain a h where n: "heap_new d (so_heap s) = (a, h)" by fastforce
  let ?i = "pd_package_id d"
  define w where "w = (if PackageMap_find ?i (so_recv_pool s) = None \<and> so_recv_ack_id s < ?i
        then PackageMap_set ?i a (h, so_recv_pool s)
        else bind_out (heap_delete (Some a) h) (\<lambda>h. Inr (h, so_recv_pool s)))"
  have nd: "no_div w" by (simp add: w_def no_div_bind)
  show ?thesis
  proof (cases w)
    case (Inl f)
    then show ?thesis using Inr n nd
      by (simp add: handle_data_def rx_step_ok_def w_def [symmetric])
  next
    case w: (Inr hm)
    obtain h' m' where hm: "hm = (h', m')" by fastforce
    have "pm_capacity m' = pm_capacity (so_recv_pool s) \<and>
        length (pm_arr_id m') = length (pm_arr_id (so_recv_pool s)) \<and>
        length (pm_data m') = length (pm_data (so_recv_pool s))"
      using w hm PackageMap_set_shape [of ?i a h "so_recv_pool s" h' m']
      by (auto simp: w_def bind_out_eq_Inr_iff split: if_splits)
    then have sh1: "rx_shape (s\<lparr>so_heap := h', so_recv_pool := m'\<rparr>)"
      using sh by (simp add: rx_shape_def)
    obtain y where y: "advance_recv_ack (s\<lparr>so_heap := h', so_recv_pool := m'\<rparr>) =
        Inr (s\<lparr>so_heap := h', so_recv_pool := m'\<rparr>\<lparr>so_recv_ack_id := y\<rparr>)"
      using advance_recv_ack_total [OF sh1] by blast
    define s2 where "s2 = s\<lparr>so_heap := h', so_recv_pool := m', so_recv_ack_id := y,
      so_ack_send_queue := AckQueue_push ?i (so_ack_send_queue s),
      so_send_ack_id := umax (so_send_ack_id s) (pd_una d)\<rparr>"
    have "rx_shape s2" using sh1 by (simp add: rx_shape_def s2_def)
    then obtain z where z: "advance_send_ack s2 = Inr (s2\<lparr>so_send_ack_id := z\<rparr>)"
      "so_send_ack_id s2 \<le> z"
      by (rule advance_send_ack_total)
    have "handle_data e r s = Inr (s2\<lparr>so_send_ack_id := z\<rparr>)"
      using Inr n w hm y z(1) by (simp add: handle_data_def w_def [symmetric] s2_def)
    moreover have "so_send_ack_id s \<le> z"
      using z(2) umax_ge(1) [of "so_send_ack_id s" "pd_una d"] by (simp add: s2_def)
    ultimately show ?thesis using sh1 by (simp add: rx_step_ok_def rx_shape_def s2_def)
  qed
qed

lemma fast_resend_frame:
  "rx_shape (fast_resend m s) = rx_shape s" "so_send_ack_id (fast_resend m s) = so_send_ack_id s"
  "so_send_id (fast_resend m s) = so_send_id s"
  "so_ack_recv_pool (fast_resend m s) = so_ack_recv_pool s"
  by (simp_all add: fast_resend_def Let_def rx_shape_def)

lemma rx_step_ok_ack:
  assumes sh: "rx_shape s"
  shows "rx_step_ok s (handle_ack s)"
proof (cases "PackageAck_load_buf (so_recv_buf s)")
  case (Inl f)
  then show ?thesis using no_div_load_buf [of "so_recv_buf s"]
    by (simp add: handle_ack_def rx_step_ok_def)
next
  case (Inr a)
  define s1 where "s1 = (if pa_send_from a > so_recv_ack_id s
              then s\<lparr>so_recv_ack_id := pa_send_from a\<rparr> else s)"
  define u where "u = (if pa_una a > so_send_id s then 0 else pa_una a)"
  obtain p m where c: "collect_acks (so_send_ack_id s) (so_send_id s) (pa_ack_list a)
      (so_ack_recv_pool s, 0) = (p, m)" by fastforce
  have p: "is_ok p" "is_size p = is_size (so_ack_recv_pool s)"
    "\<forall>i. acked p i \<longrightarrow> acked (so_ack_recv_pool s) i \<or> so_send_ack_id s < i \<and> i \<le> so_send_id s"
    using collect_acks_ok [OF _ c] sh by (auto simp: rx_shape_def)
  define s2 where "s2 = s1\<lparr>so_ack_recv_pool := p, so_send_ack_id := umax u (so_send_ack_id s)\<rparr>"
  have s1: "so_send_ack_id s1 = so_send_ack_id s" "so_send_id s1 = so_send_id s"
    "so_ack_recv_pool s1 = so_ack_recv_pool s" "so_recv_pool s1 = so_recv_pool s"
    by (simp_all add: s1_def)
  have sh2: "rx_shape s2" using sh p s1 by (simp add: rx_shape_def s2_def)
  then obtain z where z: "advance_send_ack s2 = Inr (s2\<lparr>so_send_ack_id := z\<rparr>)" "so_send_ack_id s2 \<le> z"
    by (rule advance_send_ack_total)
  have "handle_ack s = Inr (fast_resend m (s2\<lparr>so_send_ack_id := z\<rparr>))"
    using Inr c z(1) s1 by (simp add: handle_ack_def Let_def s1_def [symmetric] s2_def u_def)
  moreover have "so_send_ack_id s \<le> z"
    using z(2) umax_ge(2) [of "so_send_ack_id s" u] by (simp add: s2_def)
  ultimately show ?thesis using sh2 p(3) s1
    by (simp add: rx_step_ok_def fast_resend_frame) (simp add: rx_shape_def s2_def)
qed

lemma rx_step_ok_ping:
  assumes "rx_shape s"
  shows "rx_step_ok s (bind_out (handle_ping now r s) (\<lambda>(s', out). Inr s'))"
proof -
  have "no_div (ping_back_of (so_recv_buf s))"
    by (simp add: ping_back_of_def no_div_bind)
  then show ?thesis using assms
    by (cases "ping_back_of (so_recv_buf s)")
      (auto simp: handle_ping_def rx_step_ok_def rx_shape_def set_rto_def Let_def)
qed

lemma receiver_step_ok:
  assumes sh: "rx_shape s"
  shows "rx_step_ok s (bind_out (receiver_step e now dg s) (\<lambda>(s', out). Inr s'))"
    and "no_div (receiver_step e now dg s)"
proof -
  define s1 where "s1 = s\<lparr>so_recv_buf := overlay (take MAX_MTU dg) (so_recv_buf s)\<rparr>"
  let ?r = "length (take MAX_MTU dg)"
  have sh1: "rx_shape s1" and fr: "rx_step_ok s = rx_step_ok s1"
    using sh by (auto simp: rx_shape_def s1_def rx_step_ok_def fun_eq_iff)
  have self: "rx_step_ok s1 (Inr s1)" using sh1 by (simp add: rx_step_ok_def)
  note branches = rx_step_ok_data [OF sh1, of e ?r] rx_step_ok_ack [OF sh1] self
    rx_step_ok_ping [OF sh1, of now ?r]
  have stop: "rx_step_ok s1 (Inr (stop_all_thread s1))"
    using sh1 by (simp add: rx_step_ok_def stop_all_thread_def rx_shape_def)
  have ok: "rx_step_ok s1 (bind_out (process_package e now ?r s1) (\<lambda>(s', out). Inr s'))"
  proof (cases "parse_package_type (so_recv_buf s1)")
    case (Inl f)
    then show ?thesis
      by (auto simp: process_package_def rx_step_ok_def parse_package_type_def get_le_def split: if_splits)
  next
    case (Inr ty)
    show ?thesis
      unfolding process_package_def Inr bind_out_Inr
      using branches stop by (cases ty) (auto split: PackageType.splits simp: bind_out_assoc)
  qed
  then have nd: "no_div (process_package e now ?r s1)"
    by (cases "process_package e now ?r s1") (auto simp: rx_step_ok_def)
  show "no_div (receiver_step e now dg s)" 
    "rx_step_ok s (bind_out (receiver_step e now dg s) (\<lambda>(s', out). Inr s'))"
    using nd ok self fr by (auto simp: receiver_step_def Let_def s1_def [symmetric])
qed

section \<open>Properties\<close>

lemma fresh_shape: "rx_shape fresh_sock"
  by (simp add: rx_shape_def fresh_sock_def rsock_new_def PackageMap_new_def is_ok_def IdSet_new_def)

text \<open>
  C35: The receiver finishes every datagram. Whatever bytes arrive, in whatever state its containers
  are, the two loops that advance the cumulative acknowledgements end: each array can hold only as
  many identifiers as it has slots.
\<close>

theorem receiver_terminates:
  assumes "rx_shape s"
  shows "receiver_step e now dg s \<noteq> Inl Diverges"
  using receiver_step_ok(2) [OF assms] by (simp add: no_div_def)

theorem receiver_terminates_witness:
  "receiver_step clear_env (0, 0) (pa_bytes \<lparr>pa_una = 3, pa_send_from = 0, pa_ack_list = [5, 6]\<rparr>) fresh_sock
     \<noteq> Inl Diverges"
  by (rule receiver_terminates [OF fresh_shape])



end
