(* ===== verification/RudpDelivery.thy ===== *)
theory RudpDelivery
  imports RudpSend RudpReceive
begin

text \<open>
  The contract of a \<open>ReliableSocket\<close> towards the application that reads from it: whatever the
  network loses, repeats or reorders, and however the worker threads interleave, the segments
  \<open>recv_package\<close> returns are the segments of the peer's packages, each once, in order.
\<close>

section \<open>Executions of one end\<close>

inductive tx_step :: "env \<Rightarrow> rsock \<Rightarrow> rsock \<Rightarrow> bool" for e where
  tx_send: "send_package buf n s = Inr (r, s') \<Longrightarrow> tx_step e s s'"
| tx_take: "tx_step e s (segment_take s)"
| tx_pack: "segment_pack e s = Inr s' \<Longrightarrow> tx_step e s s'"
| tx_tick: "sender_tick now s = (s', out) \<Longrightarrow> tx_step e s s'"
| tx_sender: "sender_send now s = Inr (s', out) \<Longrightarrow> tx_step e s s'"
| tx_ack: "ack_sender_step s = (s', out) \<Longrightarrow> tx_step e s s'"
| tx_ack_pop: "ackhandler_pop s = Inr s' \<Longrightarrow> tx_step e s s'"
| tx_ack_check: "ackhandler_check now s = Inr s' \<Longrightarrow> tx_step e s s'"

text \<open>
  \<open>payload i\<close> is the payload of the peer's package \<open>i\<close>, for the identifiers below \<open>lim\<close> that the
  peer has used. Data packages arrive in any order and any
  number of times, as long as the application does not fall behind by the capacity of the receive
  pool; other datagrams are arbitrary, except that the peer does not announce dropped packages.
\<close>

inductive rx_reach ::
  "env \<Rightarrow> nat \<Rightarrow> u64 \<Rightarrow> (u64 \<Rightarrow> bytes) \<Rightarrow> rsock \<Rightarrow> rsock \<Rightarrow> bytes list \<Rightarrow> bool"
  for e room lim payload s0 where
  rx_start: "rx_reach e room lim payload s0 s0 []"
| rx_data: "rx_reach e room lim payload s0 s out \<Longrightarrow> pd_type d = Data \<Longrightarrow>
     pd_data d = payload (pd_package_id d) \<Longrightarrow> 0 < pd_package_id d \<Longrightarrow> pd_package_id d < lim \<Longrightarrow>
     unat (pd_package_id d) < unat (so_recv_id s) + pm_capacity (so_recv_pool s) \<Longrightarrow>
     receiver_step e now (pd_bytes d) s = Inr (s', dgs) \<Longrightarrow> rx_reach e room lim payload s0 s' out"
| rx_control: "rx_reach e room lim payload s0 s out \<Longrightarrow>
     parse_package_type (overlay (take MAX_MTU dg) (so_recv_buf s)) \<noteq> Inr (Some Data) \<Longrightarrow>
     receiver_step e now dg s = Inr (s', dgs) \<Longrightarrow> so_recv_ack_id s' = so_recv_ack_id s \<Longrightarrow>
     rx_reach e room lim payload s0 s' out"
| rx_tx: "rx_reach e room lim payload s0 s out \<Longrightarrow> tx_step e s s' \<Longrightarrow> rx_reach e room lim payload s0 s' out"
| rx_recv: "rx_reach e room lim payload s0 s out \<Longrightarrow> recv_package e room s = Inr (RecvSegment seg, s') \<Longrightarrow>
     rx_reach e room lim payload s0 s' (out @ [seg])"
| rx_wait: "rx_reach e room lim payload s0 s out \<Longrightarrow> recv_package e room s = Inr (res, s') \<Longrightarrow>
     res \<in> {RecvBlocked, RecvClosed} \<Longrightarrow> rx_reach e room lim payload s0 s' out"

text \<open>What the peer sends: each package decrypts to frames of segments that fit.\<close>

definition stream_ok ::
  "env \<Rightarrow> nat \<Rightarrow> u64 \<Rightarrow> SharpCrypto \<Rightarrow> (u64 \<Rightarrow> bytes) \<Rightarrow> (u64 \<Rightarrow> PackageSegment list) \<Rightarrow> bool" where
  "stream_ok e room lim c payload segs \<longleftrightarrow> 0 < lim \<and> lim \<le> 2 ^ 31 \<and>
     (\<forall>i. 0 < i \<longrightarrow> i < lim \<longrightarrow>
        SharpCrypto_decrypt (ev_open e) c (payload i) = Inr (Some (seg_plain (segs i))) \<and>
        length (payload i) + sizeof_base + sizeof_data \<le> MAX_MTU \<and> length (seg_plain (segs i)) \<le> 1600 \<and>
        segs i \<noteq> [] \<and> (\<forall>x \<in> set (segs i). 0 < length x \<and> length x \<le> room))"

definition stream_upto :: "(u64 \<Rightarrow> PackageSegment list) \<Rightarrow> nat \<Rightarrow> PackageSegment list" where
  "stream_upto segs n = concat (map (\<lambda>i. segs (of_nat i)) [1..<n])"

section \<open>The invariant\<close>

definition sp_pending :: "SegmentParser \<Rightarrow> PackageSegment list \<Rightarrow> bool" where
  "sp_pending sp rest \<longleftrightarrow> (if sp_len sp = 0 then rest = [] else sp_at sp rest)"

definition rx_inv ::
  "u64 \<Rightarrow> (u64 \<Rightarrow> bytes) \<Rightarrow> (u64 \<Rightarrow> PackageSegment list) \<Rightarrow> SharpCrypto \<Rightarrow> rsock \<Rightarrow> bytes list \<Rightarrow> bool" where
  "rx_inv lim payload segs c s out \<longleftrightarrow>
     rx_shape s \<and> pm_ok (so_heap s) (so_recv_pool s) \<and> heap_ok (so_heap s) \<and> so_crypto s = c \<and>
     length (so_recv_buf s) = MAX_MTU \<and> length (sp_buf (so_segment_recv s)) = 1600 \<and>
     so_recv_id s \<noteq> 0 \<and> so_recv_ack_id s < lim \<and> unat (so_recv_id s) \<le> unat (so_recv_ack_id s) + 1 \<and>
     (\<forall>i d. pm_abs (so_heap s) (so_recv_pool s) i = Some d \<longrightarrow>
        pd_data d = payload i \<and> so_recv_id s \<le> i \<and> i < lim \<and>
        unat i < unat (so_recv_id s) + pm_capacity (so_recv_pool s)) \<and>
     (\<forall>i. so_recv_id s \<le> i \<longrightarrow> i \<le> so_recv_ack_id s \<longrightarrow>
        pm_abs (so_heap s) (so_recv_pool s) i \<noteq> None) \<and>
     pm_abs (so_heap s) (so_recv_pool s) (so_recv_ack_id s + 1) = None \<and>
     (\<exists>rest. out @ rest = stream_upto segs (unat (so_recv_id s)) \<and>
        sp_pending (so_segment_recv s) rest)"

lemma stream_lim:
  assumes "stream_ok e room lim c payload segs"
  shows "0 < lim" "lim \<le> 2 ^ 31"
  using assms by (auto simp: stream_ok_def)

text \<open>The threads of the sending half do not touch what the invariant is about.\<close>

definition rx_part :: "rsock \<Rightarrow> _" where
  "rx_part s = (so_recv_pool s, so_heap s, so_recv_id s, so_recv_ack_id s, so_segment_recv s,
     so_crypto s, so_recv_buf s, so_ack_recv_pool s)"

lemma push_plains_rx_part: "push_plains e ps s = Inr s' \<Longrightarrow> rx_part s' = rx_part s"
proof (induction ps arbitrary: s)
  case (Cons p ps)
  then obtain s1 where s1: "push_plain e p s = Inr s1" "push_plains e ps s1 = Inr s'"
    by (auto simp: bind_out_eq_Inr_iff)
  have "rx_part s1 = rx_part s"
    using s1(1) by (auto simp: push_plain_def rx_part_def Let_def bind_out_eq_Inr_iff split: prod.splits)
  with Cons.IH [OF s1(2)] show ?case by simp
qed simp

lemma tx_step_rx_part: "tx_step e s s' \<Longrightarrow> rx_part s' = rx_part s"
proof (induction rule: tx_step.induct)
  case (tx_pack s s')
  then show ?case
    by (auto simp: segment_pack_def bind_out_eq_Inr_iff split: option.splits if_splits
        dest!: push_plains_rx_part) (auto simp: rx_part_def)
next
  case (tx_sender now s s' out)
  then show ?case
    by (auto simp: sender_send_def bind_out_eq_Inr_iff Let_def rx_part_def
        split: option.splits if_splits prod.splits)
next
  case (tx_ack s s' out)
  then show ?case by (auto simp: ack_sender_step_def Let_def rx_part_def)
next
  case (tx_ack_pop s s')
  show ?case
  proof (cases "so_ack_cur s \<noteq> None \<or> AckWaitList_size (so_ack_pool s) = 0")
    case True
    with tx_ack_pop show ?thesis by (simp add: ackhandler_pop_def)
  next
    case False
    with tx_ack_pop obtain a w d where p: "AckWaitList_pop (so_send_heap s) (so_ack_pool s) = Inr (a, w)"
      "heap_get a (so_send_heap s) = Inr d"
      by (auto simp: ackhandler_pop_def bind_out_eq_Inr_iff Let_def)
    show ?thesis
    proof (cases "20 < pd_send_count d")
      case True
      with False p tx_ack_pop show ?thesis
        by (auto simp: ackhandler_pop_def bind_out_eq_Inr_iff Let_def rx_part_def)
    next
      case le: False
      with False p tx_ack_pop show ?thesis
        by (auto simp: ackhandler_pop_def Let_def rx_part_def)
    qed
  qed
next
  case (tx_ack_check now s s')
  show ?case
  proof (cases "so_ack_cur s")
    case None
    with tx_ack_check show ?thesis by (simp add: ackhandler_check_def)
  next
    case (Some a)
    with tx_ack_check obtain d where d: "heap_get (Some a) (so_send_heap s) = Inr d"
      by (auto simp: ackhandler_check_def bind_out_eq_Inr_iff)
    let ?w = "so_send_ack_id s < pd_package_id d \<and> \<not> acked (so_ack_recv_pool s) (pd_package_id d)"
    show ?thesis
    proof (cases ?w)
      case True
      with Some d tx_ack_check show ?thesis
        by (cases "get_ms now (pd_send_time d) < so_rto s")
          (auto simp: ackhandler_check_def Let_def rx_part_def)
    next
      case False
      with Some d tx_ack_check show ?thesis
        by (auto simp: ackhandler_check_def Let_def bind_out_eq_Inr_iff rx_part_def simp del: de_Morgan_conj)
    qed
  qed
next
  case (tx_tick now s s' out)
  then show ?case by (auto simp: sender_tick_def Let_def rx_part_def split: if_splits)
qed (auto simp: rx_part_def send_package_def segment_take_def bind_out_eq_Inr_iff split: if_splits)

lemma rx_inv_cong: "rx_part s' = rx_part s \<Longrightarrow> rx_inv lim payload segs c s' out = rx_inv lim payload segs c s out"
  by (simp add: rx_part_def rx_inv_def rx_shape_def)

section \<open>Datagrams other than data\<close>

lemma handle_ack_rx_part:
  assumes "handle_ack s = Inr s'"
  shows "so_recv_pool s' = so_recv_pool s \<and> so_heap s' = so_heap s \<and> so_recv_id s' = so_recv_id s \<and>
     so_segment_recv s' = so_segment_recv s \<and> so_crypto s' = so_crypto s \<and> so_recv_buf s' = so_recv_buf s"
proof -
  obtain a where a: "PackageAck_load_buf (so_recv_buf s) = Inr a"
    using assms by (auto simp: handle_ack_def bind_out_eq_Inr_iff)
  obtain p m where c: "collect_acks (so_send_ack_id s) (so_send_id s) (pa_ack_list a)
      (so_ack_recv_pool s, 0) = (p, m)" by fastforce
  show ?thesis using assms a c
    by (cases "so_recv_ack_id s < pa_send_from a")
      (auto simp: handle_ack_def Let_def advance_send_ack_def bind_out_eq_Inr_iff fast_resend_def)
qed

lemma handle_ping_rx_part:
  assumes "handle_ping now r s = Inr (s', out)" "length (so_recv_buf s) = MAX_MTU"
  shows "so_recv_pool s' = so_recv_pool s \<and> so_heap s' = so_heap s \<and> so_recv_id s' = so_recv_id s \<and>
     so_segment_recv s' = so_segment_recv s \<and> so_crypto s' = so_crypto s \<and>
     length (so_recv_buf s') = MAX_MTU"
proof -
  have "length (ping_set_back (so_recv_buf s)) = MAX_MTU"
    using assms(2) by (simp add: ping_set_back_def MAX_MTU_def)
  then show ?thesis using assms
    by (auto simp: handle_ping_def Let_def bind_out_eq_Inr_iff set_rto_def split: if_splits)
qed

lemma length_overlay_recv [simp]:
  "length buf = MAX_MTU \<Longrightarrow> length (overlay (take MAX_MTU dg) buf) = MAX_MTU"
  by (simp add: overlay_def)

lemma rx_inv_control:
  assumes inv: "rx_inv lim payload segs c s out"
    and ty: "parse_package_type (overlay (take MAX_MTU dg) (so_recv_buf s)) \<noteq> Inr (Some Data)"
    and step: "receiver_step e now dg s = Inr (s', dgs)" and ack: "so_recv_ack_id s' = so_recv_ack_id s"
  shows "rx_inv lim payload segs c s' out"
proof -
  define s1 where "s1 = s\<lparr>so_recv_buf := overlay (take MAX_MTU dg) (so_recv_buf s)\<rparr>"
  have len: "length (so_recv_buf s1) = MAX_MTU" using inv by (simp add: rx_inv_def s1_def)
  have ty1: "parse_package_type (so_recv_buf s1) \<noteq> Inr (Some Data)" using ty by (simp add: s1_def)
  have part: "so_recv_pool s' = so_recv_pool s1 \<and> so_heap s' = so_heap s1 \<and> so_recv_id s' = so_recv_id s1 \<and>
     so_segment_recv s' = so_segment_recv s1 \<and> so_crypto s' = so_crypto s1 \<and>
     length (so_recv_buf s') = MAX_MTU"
  proof (cases "length (take MAX_MTU dg) > 0")
    case False
    then have "s' = s1" using step by (auto simp: receiver_step_def Let_def s1_def)
    then show ?thesis using len by simp
  next
    case True
    then have p: "process_package e now (length (take MAX_MTU dg)) s1 = Inr (s', dgs)"
      using step by (simp add: receiver_step_def Let_def s1_def)
    then obtain t where t: "parse_package_type (so_recv_buf s1) = Inr t"
      by (auto simp: process_package_def bind_out_eq_Inr_iff)
    show ?thesis
    proof (cases "t = Some Ping \<or> t = Some Ack \<or> t = Some ConnectionClose")
      case True
      then show ?thesis using p t len handle_ack_rx_part [of s1] handle_ping_rx_part [of now _ s1]
        by (auto simp: process_package_def bind_out_eq_Inr_iff stop_all_thread_def)
    next
      case False
      then have "s' = s1" using p t ty1
        by (cases t; cases "the t") (auto simp: process_package_def)
      then show ?thesis using len by simp
    qed
  qed
  have "rx_shape s" using inv by (simp add: rx_inv_def)
  then have "rx_shape s'"
    using receiver_step_ok(1) [of s e now dg] step by (simp add: rx_step_ok_def)
  with inv part ack show ?thesis by (simp add: rx_inv_def s1_def)
qed

section \<open>Data packages\<close>

lemma heap_ok_live: "heap_ok h \<Longrightarrow> hp_obj h a \<noteq> None \<Longrightarrow> a < hp_next h"
  by (metis heap_ok_def not_le)

lemma pm_addrs_live: "pm_ok h m \<Longrightarrow> a \<in> pm_addrs m \<Longrightarrow> hp_obj h a \<noteq> None"
  by (auto simp: pm_addrs_def dest: pm_ok_dests(5))

lemma pm_cong: "hp_obj h' = hp_obj h \<Longrightarrow> pm_ok h' m = pm_ok h m \<and> pm_abs h' m = pm_abs h m"
  by (auto simp: pm_ok_def pm_abs_def fun_eq_iff split: option.splits)

lemma pm_grow:
  assumes ok: "pm_ok h m" and h: "heap_ok h" and n: "heap_new d h = (a, h')"
  shows "pm_ok h' m" "pm_abs h' m = pm_abs h m" "a \<notin> pm_addrs m" "hp_obj h' a = Some d" "heap_ok h'"
proof -
  have a: "a = hp_next h" "h' = h\<lparr>hp_obj := (hp_obj h)(a := Some d), hp_next := hp_next h + 1\<rparr>"
    using n by (auto simp: heap_new_def)
  show na: "a \<notin> pm_addrs m" using pm_addrs_live [OF ok, of a] heap_ok_live [OF h, of a] a by auto
  show "hp_obj h' a = Some d" using a by simp
  show "heap_ok h'" using heap_ok_new [OF h, of d] n by simp
  have live: "hp_obj h b \<noteq> None \<Longrightarrow> hp_obj h' b = hp_obj h b" for b
    using heap_ok_live [OF h, of b] a by auto
  then show "pm_ok h' m" using ok unfolding pm_ok_def by (metis option.distinct(1))
  show "pm_abs h' m = pm_abs h m"
  proof
    fix i
    show "pm_abs h' m i = pm_abs h m i"
    proof (cases "i = 0 \<or> PackageMap_find i m = None")
      case True
      then show ?thesis by (auto simp: pm_abs_def)
    next
      case False
      then obtain b where b: "PackageMap_find i m = Some b" by auto
      then have "hp_obj h b \<noteq> None" using PackageMap_find_live(2) [OF ok] False by blast
      with b live show ?thesis by (simp add: pm_abs_def)
    qed
  qed
qed

text \<open>
  The branch of the receiver on duplicates: the pool afterwards, when every package in it is
  within one capacity of \<open>lo\<close>.
\<close>

lemma slot_window:
  assumes "slot cap i = slot cap j" "lo \<le> unat i" "unat i < lo + cap" "lo \<le> unat j" "unat j < lo + cap"
  shows "i = j"
proof -
  have "(lo + (unat i - lo)) mod cap = (lo + (unat j - lo)) mod cap" using assms by (simp add: slot_def)
  moreover have "unat i - lo < cap" "unat j - lo < cap" using assms(2-5) by linarith+
  ultimately have "unat i - lo = unat j - lo" using mod_add_distinct by blast
  with assms(2,4) have "unat i = unat j" by linarith
  then show ?thesis using word_unat_eq_iff by blast
qed

lemma rx_store:
  assumes ok: "pm_ok h m" and h: "heap_ok h" and n: "heap_new d h = (a, h1)"
    and win: "\<And>j d. pm_abs h m j = Some d \<Longrightarrow> lo \<le> unat j \<and> unat j < lo + pm_capacity m"
    and i: "i \<noteq> 0" "ack < i \<longrightarrow> lo \<le> unat i" "unat i < lo + pm_capacity m"
  shows "\<exists>h' m'. (if PackageMap_find i m = None \<and> ack < i then PackageMap_set i a (h1, m)
        else bind_out (heap_delete (Some a) h1) (\<lambda>h. Inr (h, m))) = Inr (h', m') \<and>
     pm_ok h' m' \<and> heap_ok h' \<and> pm_capacity m' = pm_capacity m \<and>
     pm_abs h' m' = (if pm_abs h m i = None \<and> ack < i then (pm_abs h m)(i \<mapsto> d) else pm_abs h m)"
proof (cases "PackageMap_find i m = None \<and> ack < i")
  case True
  note g = pm_grow [OF ok h n]
  obtain h' m' where s: "PackageMap_set i a (h1, m) = Inr (h', m')" "pm_ok h' m'"
    "pm_capacity m' = pm_capacity m" "hp_next h' = hp_next h1"
    "\<forall>b. b \<notin> pm_addrs m \<longrightarrow> hp_obj h' b = hp_obj h1 b"
    "\<forall>j. pm_abs h' m' j = (if slot (pm_capacity m) j = slot (pm_capacity m) i
        then (if j = i then Some d else None) else pm_abs h1 m j)"
    using PackageMap_set_ok [OF g(1) i(1) g(4) g(3)] by blast
  have hk: "heap_ok h'"
    unfolding heap_ok_def
  proof (intro allI impI)
    fix b assume b: "hp_next h' \<le> b"
    then have "b \<notin> pm_addrs m"
      using s(4) pm_addrs_live [OF g(1), of b] heap_ok_live [OF g(5), of b] by auto
    then show "hp_obj h' b = None" using s(4,5) g(5) b by (simp add: heap_ok_def)
  qed
  have none: "pm_abs h m i = None" using True PackageMap_find_live(1) [OF ok i(1)] by simp
  have "pm_abs h' m' j = ((pm_abs h m)(i \<mapsto> d)) j" for j
  proof (cases "j \<noteq> i \<and> slot (pm_capacity m) j = slot (pm_capacity m) i")
    case coll: True
    have "pm_abs h m j = None"
    proof (rule ccontr)
      assume "pm_abs h m j \<noteq> None"
      then have "lo \<le> unat j \<and> unat j < lo + pm_capacity m" using win by blast
      with slot_window [of "pm_capacity m" j i lo] coll True i show False by auto
    qed
    with coll s(6) show ?thesis by simp
  next
    case False
    with s(6) g(2) show ?thesis by auto
  qed
  then have "pm_abs h' m' = (pm_abs h m)(i \<mapsto> d)" by blast
  with True none s hk show ?thesis by auto
next
  case False
  note g = pm_grow [OF ok h n]
  define h' where "h' = h1\<lparr>hp_obj := (hp_obj h1)(a := None)\<rparr>"
  have del: "heap_delete (Some a) h1 = Inr h'" using g(4) by (simp add: heap_delete_live h'_def)
  have a: "hp_obj h' = hp_obj h"
    using n h by (auto simp: h'_def heap_new_def heap_ok_def fun_eq_iff)
  have hk: "heap_ok h'" using g(5) by (simp add: heap_ok_def h'_def)
  have "\<not> (pm_abs h m i = None \<and> ack < i)" using False PackageMap_find_live(1) [OF ok i(1)] by simp
  then show ?thesis using False del hk pm_cong [OF a, of m] ok by auto
qed

text \<open>Parts of the invariant, by name.\<close>

lemma rx_invD:
  assumes "rx_inv lim payload segs c s out"
  shows "rx_shape s" "pm_ok (so_heap s) (so_recv_pool s)" "heap_ok (so_heap s)" "so_crypto s = c"
    "length (so_recv_buf s) = MAX_MTU" "length (sp_buf (so_segment_recv s)) = 1600"
    "so_recv_id s \<noteq> 0" "so_recv_ack_id s < lim" "unat (so_recv_id s) \<le> unat (so_recv_ack_id s) + 1"
    "\<And>i d. pm_abs (so_heap s) (so_recv_pool s) i = Some d \<Longrightarrow>
        pd_data d = payload i \<and> so_recv_id s \<le> i \<and> i < lim \<and>
        unat i < unat (so_recv_id s) + pm_capacity (so_recv_pool s)"
    "\<And>i. so_recv_id s \<le> i \<Longrightarrow> i \<le> so_recv_ack_id s \<Longrightarrow> pm_abs (so_heap s) (so_recv_pool s) i \<noteq> None"
    "pm_abs (so_heap s) (so_recv_pool s) (so_recv_ack_id s + 1) = None"
    "\<exists>rest. out @ rest = stream_upto segs (unat (so_recv_id s)) \<and> sp_pending (so_segment_recv s) rest"
  using assms unfolding rx_inv_def by blast+

lemma u64_inc: "(z :: u64) < lim \<Longrightarrow> unat (z + 1) = unat z + 1"
  by (rule unat_plus_one)

lemma advance_recv_inv:
  assumes sh: "rx_shape s" and ok: "pm_ok (so_heap s) (so_recv_pool s)"
    and bound: "\<And>i d. pm_abs (so_heap s) (so_recv_pool s) i = Some d \<Longrightarrow> i < lim"
    and ack: "so_recv_ack_id s < lim"
    and below: "\<And>i. so_recv_id s \<le> i \<Longrightarrow> i \<le> so_recv_ack_id s \<Longrightarrow>
        pm_abs (so_heap s) (so_recv_pool s) i \<noteq> None"
  shows "\<exists>y. advance_recv_ack s = Inr (s\<lparr>so_recv_ack_id := y\<rparr>) \<and> so_recv_ack_id s \<le> y \<and> y < lim \<and>
     (\<forall>i. so_recv_id s \<le> i \<longrightarrow> i \<le> y \<longrightarrow> pm_abs (so_heap s) (so_recv_pool s) i \<noteq> None) \<and>
     pm_abs (so_heap s) (so_recv_pool s) (y + 1) = None"
proof -
  let ?abs = "pm_abs (so_heap s) (so_recv_pool s)"
  obtain y where y: "advance_recv_ack s = Inr (s\<lparr>so_recv_ack_id := y\<rparr>)"
    "advance (Suc (pm_capacity (so_recv_pool s))) (recv_present s) (so_recv_ack_id s) = Some y"
    using advance_recv_ack_total [OF sh] by blast
  have pres: "?abs (z + 1) \<noteq> None" if "z < lim" "recv_present s (z + 1)" for z
  proof -
    have "z + 1 \<noteq> 0" using u64_inc [OF that(1)] by auto
    with that(2) show ?thesis using PackageMap_find_live(1) [OF ok] by (simp add: recv_present_def)
  qed
  let ?Q = "\<lambda>z. so_recv_ack_id s \<le> z \<and> z < lim \<and>
     (\<forall>i. so_recv_id s \<le> i \<longrightarrow> i \<le> z \<longrightarrow> ?abs i \<noteq> None)"
  have Q: "?Q y"
  proof (rule advance_invariant [OF y(2)])
    fix z assume z: "?Q z" "recv_present s (z + 1)"
    then have p: "?abs (z + 1) \<noteq> None" and lt: "z < lim" using pres by blast+
    have le: "i \<le> z \<or> i = z + 1" if "i \<le> z + 1" for i
      using that u64_inc [OF lt] by (auto simp: word_le_nat_alt word_unat_eq_iff)
    have "z \<le> z + 1" using u64_inc [OF lt] by (simp add: word_le_nat_alt)
    then have "so_recv_ack_id s \<le> z + 1" using z(1) order.trans by blast
    moreover have "z + 1 < lim" using p bound by blast
    moreover have "?abs i \<noteq> None" if "so_recv_id s \<le> i" "i \<le> z + 1" for i
      using le [OF that(2)] that(1) z(1) p by blast
    ultimately show "?Q (z + 1)" by blast
  qed (use ack below in auto)
  have "?abs (y + 1) = None"
  proof -
    have "y + 1 \<noteq> 0" using u64_inc Q by fastforce
    with advance_stops [OF y(2)] show ?thesis
      using PackageMap_find_live(1) [OF ok] by (simp add: recv_present_def)
  qed
  with y(1) Q show ?thesis by blast
qed

lemma rx_inv_data:
  assumes inv: "rx_inv lim payload segs c s out" and str: "stream_ok e room lim c payload segs"
    and d: "pd_type d = Data" "pd_data d = payload (pd_package_id d)"
      "0 < pd_package_id d" "pd_package_id d < lim"
      "unat (pd_package_id d) < unat (so_recv_id s) + pm_capacity (so_recv_pool s)"
  shows "\<exists>s'. receiver_step e now (pd_bytes d) s = Inr (s', []) \<and> rx_inv lim payload segs c s' out \<and>
     so_recv_id s' = so_recv_id s \<and>
     (pd_package_id d = so_recv_ack_id s + 1 \<longrightarrow> pd_package_id d \<le> so_recv_ack_id s')"
proof -
  note I = rx_invD [OF inv]
  let ?i = "pd_package_id d" let ?m = "so_recv_pool s" let ?h = "so_heap s" let ?lo = "unat (so_recv_id s)"
  have len: "length (pd_bytes d) \<le> MAX_MTU" "0 < length (pd_bytes d)"
    using str d by (auto simp: stream_ok_def length_pd_bytes pd_length_def sizeof_defs)
  define s1 where "s1 = s\<lparr>so_recv_buf := overlay (pd_bytes d) (so_recv_buf s)\<rparr>"
  have rs: "receiver_step e now (pd_bytes d) s =
      bind_out (handle_data e (pd_length d) s1) (\<lambda>s. Inr (s, []))"
    using len d(1) pd_bytes_type [of d "so_recv_buf s"]
    by (auto simp: receiver_step_def process_package_def s1_def length_pd_bytes [symmetric] Let_def)
  define d1 where "d1 = d\<lparr>pd_type := Data, pd_send_count := 0, pd_send_time := ev_junk_time e\<rparr>"
  obtain a h1 where n: "heap_new d1 ?h = (a, h1)" by fastforce
  have fb: "PackageData_from_buf (ev_junk_time e) (so_recv_buf s1) (pd_length d) = Inr d1"
    by (simp add: s1_def d1_def PackageData_roundtrip)
  have id1: "pd_package_id d1 = ?i" by (simp add: d1_def)
  have i0: "?i \<noteq> 0" using d(3) by auto
  have lo: "so_recv_ack_id s < ?i \<longrightarrow> ?lo \<le> unat ?i"
    using I(9) by (auto simp: word_less_nat_alt)
  obtain h' m' where st: "(if PackageMap_find ?i ?m = None \<and> so_recv_ack_id s < ?i
        then PackageMap_set ?i a (h1, ?m)
        else bind_out (heap_delete (Some a) h1) (\<lambda>h. Inr (h, ?m))) = Inr (h', m')"
      "pm_ok h' m'" "heap_ok h'" "pm_capacity m' = pm_capacity ?m"
      "pm_abs h' m' = (if pm_abs ?h ?m ?i = None \<and> so_recv_ack_id s < ?i
         then (pm_abs ?h ?m)(?i \<mapsto> d1) else pm_abs ?h ?m)"
    using rx_store [OF I(2,3) n, of ?lo ?i "so_recv_ack_id s"] I(10) i0 lo d(5)
    by (auto simp: word_le_nat_alt)
  have abs_bound: "pd_data x = payload j \<and> so_recv_id s \<le> j \<and> j < lim \<and>
        unat j < ?lo + pm_capacity ?m" if "pm_abs h' m' j = Some x" for j x
    using that st(5) I(10) [of j x] d lo
    by (auto simp: d1_def word_le_nat_alt split: if_splits)
  have mono: "pm_abs h' m' j \<noteq> None" if "pm_abs ?h ?m j \<noteq> None" for j
    using that st(5) by auto
  define s2 where "s2 = s1\<lparr>so_heap := h', so_recv_pool := m'\<rparr>"
  have sh2: "rx_shape s2" using I(1) st(2,4) by (simp add: rx_shape_def s2_def s1_def pm_ok_dests)
  obtain y where y: "advance_recv_ack s2 = Inr (s2\<lparr>so_recv_ack_id := y\<rparr>)" "so_recv_ack_id s \<le> y"
      "y < lim" "\<forall>i. so_recv_id s \<le> i \<longrightarrow> i \<le> y \<longrightarrow> pm_abs h' m' i \<noteq> None"
      "pm_abs h' m' (y + 1) = None"
    using advance_recv_inv [OF sh2, of lim] st(2) abs_bound I(8) mono I(11)
    by (auto simp: s2_def s1_def)
  define s3 where "s3 = s2\<lparr>so_recv_ack_id := y,
      so_ack_send_queue := AckQueue_push ?i (so_ack_send_queue s2),
      so_send_ack_id := umax (so_send_ack_id s2) (pd_una d1)\<rparr>"
  have "rx_shape s3" using sh2 by (simp add: rx_shape_def s3_def)
  then obtain z where z: "advance_send_ack s3 = Inr (s3\<lparr>so_send_ack_id := z\<rparr>)"
    by (rule advance_send_ack_total)
  have hd: "handle_data e (pd_length d) s1 = Inr (s3\<lparr>so_send_ack_id := z\<rparr>)"
    using fb n st(1) y(1) z id1
    by (simp add: handle_data_def s3_def s2_def s1_def Let_def cong: if_cong split del: if_split)
  have "rx_inv lim payload segs c (s3\<lparr>so_send_ack_id := z\<rparr>) out"
  proof -
    have "?lo \<le> unat y + 1" using I(9) y(2) by (simp add: word_le_nat_alt)
    moreover have "rx_shape (s3\<lparr>so_send_ack_id := z\<rparr>)" using sh2 by (simp add: rx_shape_def s3_def)
    moreover have "length (overlay (pd_bytes d) (so_recv_buf s)) = MAX_MTU" using len(1) I(5) by simp
    ultimately show ?thesis
      unfolding rx_inv_def using st(2,3,4) y(3,4,5) abs_bound I(4,6,7,13)
      by (simp add: s3_def s2_def s1_def)
  qed
  moreover have "?i = so_recv_ack_id s + 1 \<longrightarrow> ?i \<le> y"
  proof
    assume e: "?i = so_recv_ack_id s + 1"
    have gt: "so_recv_ack_id s < ?i" using e u64_inc [OF I(8)] by (simp add: word_less_nat_alt)
    with e I(12) st(5) have p: "pm_abs h' m' ?i \<noteq> None" by simp
    show "?i \<le> y"
    proof (rule ccontr)
      assume "\<not> ?i \<le> y"
      with e y(2) u64_inc [OF I(8)] have "y = so_recv_ack_id s"
        by (simp add: word_le_nat_alt word_unat_eq_iff)
      with e p y(5) show False by simp
    qed
  qed
  ultimately show ?thesis using rs hd by (simp add: s3_def s2_def s1_def)
qed

section \<open>Reading\<close>

lemma to_int_and_back_id: "i < 2 ^ 31 \<Longrightarrow> to_int_and_back i = i"
proof -
  assume "i < 2 ^ 31"
  then have u: "uint i < 2 ^ 31" by (simp add: word_less_def)
  have "(0 :: int) \<le> uint i" by simp
  then have l: "- (2 ^ 31) \<le> uint i" by (rule order.trans [rotated]) simp
  have "sint (ucast i :: 32 word) = signed_take_bit 31 (uint i)"
    by (simp only: signed_ucast_eq) simp
  also have "\<dots> = uint i" using l u by (rule signed_take_bit_int_eq_self)
  finally show ?thesis unfolding to_int_and_back_def scast_eq by simp
qed

lemma stream_upto_Suc: "0 < n \<Longrightarrow> stream_upto segs (Suc n) = stream_upto segs n @ segs (of_nat n)"
  by (simp add: stream_upto_def)

lemma stream_member:
  assumes str: "stream_ok e room lim c payload segs" and n: "n \<le> unat lim" and x: "x \<in> set (stream_upto segs n)"
  shows "0 < length x \<and> length x < 65536 \<and> length x \<le> room"
proof -
  obtain k where k: "0 < k" "k < n" "x \<in> set (segs (of_nat k))"
    using x by (auto simp: stream_upto_def Suc_le_eq)
  have "k < 2 ^ 64" using k(2) n unsigned_less [of lim, where ?'a = nat] by simp
  then have "unat (of_nat k :: u64) = k" by (simp add: unat_of_nat)
  then have "0 < (of_nat k :: u64)" "(of_nat k :: u64) < lim"
    using k n by (auto simp: word_less_nat_alt)
  with str k(3) have "0 < length x" "length x \<le> room" "length (seg_plain (segs (of_nat k))) \<le> 1600"
    by (auto simp: stream_ok_def)
  with seg_plain_member [OF k(3)] show ?thesis by simp
qed

lemma sp_pending_next:
  assumes "sp_pending sp rest" "\<forall>x \<in> set rest. 0 < length x \<and> length x < 65536 \<and> length x \<le> room"
  shows "rest = [] \<Longrightarrow> SegmentParser_next room sp = Inr ([], sp)"
    and "rest = x # xs \<Longrightarrow> \<exists>sp'. SegmentParser_next room sp = Inr (x, sp') \<and> sp_pending sp' xs \<and>
       sp_buf sp' = sp_buf sp"
proof -
  show "SegmentParser_next room sp = Inr ([], sp)" if "rest = []"
    using assms(1) that SegmentParser_next_Nil [of sp room]
    by (cases "sp_len sp = 0") (auto simp: sp_pending_def SegmentParser_next_def)
  assume r: "rest = x # xs"
  then have at: "sp_at sp (x # xs)" using assms(1) by (auto simp: sp_pending_def split: if_splits)
  obtain sp' where s: "SegmentParser_next room sp = Inr (x, sp')" "sp_at sp' xs"
    using SegmentParser_next_Cons [OF at] assms(2) r by auto
  moreover have "sp_buf sp' = sp_buf sp \<and> sp_len sp' = sp_len sp"
    using s(1) by (auto simp: SegmentParser_next_def bind_out_eq_Inr_iff split: if_splits)
  moreover have "sp_len sp \<noteq> 0" using at by (simp add: sp_at_def)
  ultimately show "\<exists>sp'. SegmentParser_next room sp = Inr (x, sp') \<and> sp_pending sp' xs \<and>
       sp_buf sp' = sp_buf sp"
    by (auto simp: sp_pending_def)
qed

lemma recv_id_bound:
  assumes "rx_inv lim payload segs c s out"
  shows "unat (so_recv_id s) \<le> unat lim"
  using rx_invD(8,9) [OF assms] by (simp add: word_less_nat_alt)

lemma rx_pending_cases:
  assumes inv: "rx_inv lim payload segs c s out" and str: "stream_ok e room lim c payload segs"
  obtains (more) x xs sp' where "SegmentParser_next room (so_segment_recv s) = Inr (x, sp')" "x \<noteq> []"
      "sp_pending sp' xs" "sp_buf sp' = sp_buf (so_segment_recv s)"
      "out @ x # xs = stream_upto segs (unat (so_recv_id s))"
    | (empty) "SegmentParser_next room (so_segment_recv s) = Inr ([], so_segment_recv s)"
      "out = stream_upto segs (unat (so_recv_id s))"
proof -
  obtain rest where r: "out @ rest = stream_upto segs (unat (so_recv_id s))"
      "sp_pending (so_segment_recv s) rest"
    using rx_invD(13) [OF inv] by blast
  have m: "\<forall>x \<in> set rest. 0 < length x \<and> length x < 65536 \<and> length x \<le> room"
    using stream_member [OF str recv_id_bound [OF inv]] arg_cong [OF r(1), of set] by auto
  show thesis
  proof (cases rest)
    case Nil
    then show ?thesis using empty sp_pending_next(1) [OF r(2) m] r(1) by simp
  next
    case (Cons x xs)
    then show ?thesis using more sp_pending_next(2) [OF r(2) m] r(1) m by fastforce
  qed
qed

lemma rx_inv_deliver:
  assumes inv: "rx_inv lim payload segs c s out" and str: "stream_ok e room lim c payload segs"
    and nx: "SegmentParser_next room (so_segment_recv s) = Inr ([], so_segment_recv s)"
    and out: "out = stream_upto segs (unat (so_recv_id s))"
    and pres: "PackageMap_find (so_recv_id s) (so_recv_pool s) \<noteq> None"
  shows "\<exists>seg s'. recv_package e room s = Inr (RecvSegment seg, s') \<and>
     rx_inv lim payload segs c s' (out @ [seg]) \<and> so_recv_ack_id s' = so_recv_ack_id s"
proof -
  note I = rx_invD [OF inv]
  let ?i = "so_recv_id s" let ?m = "so_recv_pool s" let ?h = "so_heap s"
  obtain a where a: "PackageMap_find ?i ?m = Some a" using pres by blast
  then obtain d where d: "hp_obj ?h a = Some d" using PackageMap_find_live(2) [OF I(2,7)] by blast
  then have abs: "pm_abs ?h ?m ?i = Some d" using a I(7) by (simp add: pm_abs_def)
  note D = I(10) [OF abs]
  have ix: "PackageMap_index ?i ?m = Some a"
    using a by (auto simp: PackageMap_find_def PackageMap_index_def split: if_splits)
  have i0: "0 < ?i" using I(7) word_neq_0_conv by blast
  have i31: "?i < 2 ^ 31" using D stream_lim(2) [OF str] by (blast intro: order.strict_trans2)
  have S: "SharpCrypto_decrypt (ev_open e) c (payload ?i) = Inr (Some (seg_plain (segs ?i)))"
      "length (seg_plain (segs ?i)) \<le> 1600" "segs ?i \<noteq> []"
    using str i0 D by (auto simp: stream_ok_def)
  obtain sp1 where sp1: "SegmentParser_load (ev_open e) c (payload ?i) (so_segment_recv s) = Inr sp1"
      "sp_at sp1 (segs ?i)" "length (sp_buf sp1) = 1600"
    using SegmentParser_load_at [OF S(1), of "so_segment_recv s"] S(2) I(6) by auto
  have pend: "sp_pending sp1 (segs ?i)" using sp1(2) by (simp add: sp_pending_def sp_at_def)
  obtain x xs where seg: "segs ?i = x # xs" using S(3) by (cases "segs ?i") auto
  have inc: "unat (?i + 1) = unat ?i + 1" using D by (intro u64_inc) blast
  have up: "stream_upto segs (unat (?i + 1)) = out @ segs ?i"
    using inc out i0 stream_upto_Suc [of "unat ?i" segs] by (simp add: unat_gt_0 I(7))
  have "unat (?i + 1) \<le> unat lim" using inc D by (simp add: word_less_nat_alt)
  then have mem: "\<forall>y \<in> set (segs ?i). 0 < length y \<and> length y < 65536 \<and> length y \<le> room"
    using stream_member [OF str, of "unat (?i + 1)"] up by auto
  obtain sp2 where sp2: "SegmentParser_next room sp1 = Inr (x, sp2)" "sp_pending sp2 xs"
      "sp_buf sp2 = sp_buf sp1"
    using sp_pending_next(2) [OF pend mem seg] by blast
  obtain h' m' where er: "PackageMap_erase ?i (?h, ?m) = Inr (h', m')" "pm_ok h' m'"
      "pm_capacity m' = pm_capacity ?m" "hp_next h' = hp_next ?h"
      "\<forall>b. b \<notin> pm_addrs ?m \<longrightarrow> hp_obj h' b = hp_obj ?h b" "pm_abs h' m' = (pm_abs ?h ?m)(?i := None)"
    using PackageMap_erase_ok [OF I(2,7)] by blast
  have hk: "heap_ok h'"
    unfolding heap_ok_def
  proof (intro allI impI)
    fix b assume b: "hp_next h' \<le> b"
    then have "b \<notin> pm_addrs ?m"
      using er(4) pm_addrs_live [OF I(2), of b] heap_ok_live [OF I(3), of b] by auto
    then show "hp_obj h' b = None" using er(4,5) I(3) b by (simp add: heap_ok_def)
  qed
  define s' where "s' = s\<lparr>so_recv_id := ?i + 1, so_segment_recv := sp2, so_heap := h', so_recv_pool := m'\<rparr>"
  have "recv_package e room s = Inr (RecvSegment x, s')"
    using nx a ix d sp1(1) sp2(1) er(1) D I(4)
    by (simp add: recv_package_def recv_wait.simps heap_get_def to_int_and_back_id [OF i31] s'_def)
  moreover have "rx_inv lim payload segs c s' (out @ [x])"
  proof -
    have le: "?i \<le> so_recv_ack_id s"
    proof (rule ccontr)
      assume "\<not> ?i \<le> so_recv_ack_id s"
      with I(9) u64_inc [OF I(8)] have "?i = so_recv_ack_id s + 1"
        by (simp add: word_le_nat_alt word_unat_eq_iff)
      with I(12) abs show False by simp
    qed
    have ge: "?i + 1 \<le> j" if "?i \<le> j" "j \<noteq> ?i" for j
      using that inc by (simp add: word_le_nat_alt word_unat_eq_iff)
    have ge': "?i \<le> j \<and> j \<noteq> ?i" if "?i + 1 \<le> j" for j
      using that inc by (auto simp: word_le_nat_alt)
    have bnd: "pd_data x = payload j \<and> ?i + 1 \<le> j \<and> j < lim \<and> unat j < unat (?i + 1) + pm_capacity ?m"
      if "pm_abs h' m' j = Some x" for j x
    proof -
      have j: "j \<noteq> ?i" "pm_abs ?h ?m j = Some x" using that er(6) by (auto split: if_splits)
      with I(10) [OF j(2)] ge inc show ?thesis by auto
    qed
    have shp: "rx_shape s'" using I(1) er(2,3) pm_ok_dests [OF er(2)] by (simp add: rx_shape_def s'_def)
    have abv: "pm_abs h' m' j \<noteq> None" if "?i + 1 \<le> j" "j \<le> so_recv_ack_id s" for j
      using ge' [OF that(1)] I(11) [of j] that(2) er(6) by simp
    have nz: "?i + 1 \<noteq> 0" using inc by auto
    have st: "(out @ [x]) @ xs = stream_upto segs (unat (?i + 1))" using up seg by simp
    have lek: "unat (?i + 1) \<le> unat (so_recv_ack_id s) + 1" using le inc by (simp add: word_le_nat_alt)
    have top: "pm_abs h' m' (so_recv_ack_id s + 1) = None" using I(12) er(6) by simp
    show ?thesis
      unfolding rx_inv_def
      using shp er(2,3) hk I(4,5,8) sp1(3) sp2(2,3) nz lek bnd abv top st
      by (simp add: s'_def) blast
  qed
  ultimately show ?thesis by (auto simp: s'_def)
qed

lemma rx_inv_recv:
  assumes inv: "rx_inv lim payload segs c s out" and str: "stream_ok e room lim c payload segs"
  shows "\<exists>res s'. recv_package e room s = Inr (res, s') \<and> so_recv_ack_id s' = so_recv_ack_id s \<and>
     (case res of RecvSegment seg \<Rightarrow> rx_inv lim payload segs c s' (out @ [seg])
      | _ \<Rightarrow> rx_inv lim payload segs c s' out \<and> out = stream_upto segs (unat (so_recv_ack_id s) + 1))"
proof -
  note I = rx_invD [OF inv]
  show ?thesis
  proof (rule rx_pending_cases [OF inv str])
    fix x xs sp' assume n: "SegmentParser_next room (so_segment_recv s) = Inr (x, sp')" "x \<noteq> []"
      "sp_pending sp' xs" "sp_buf sp' = sp_buf (so_segment_recv s)"
      "out @ x # xs = stream_upto segs (unat (so_recv_id s))"
    have "recv_package e room s = Inr (RecvSegment x, s\<lparr>so_segment_recv := sp'\<rparr>)"
      using n(1,2) by (simp add: recv_package_def)
    moreover have "\<exists>rest. (out @ [x]) @ rest = stream_upto segs (unat (so_recv_id s)) \<and> sp_pending sp' rest"
      using n(3,5) by (intro exI [of _ xs]) simp
    then have "rx_inv lim payload segs c (s\<lparr>so_segment_recv := sp'\<rparr>) (out @ [x])"
      using inv n(4) by (simp add: rx_inv_def rx_shape_def)
    ultimately show ?thesis by auto
  next
    assume n: "SegmentParser_next room (so_segment_recv s) = Inr ([], so_segment_recv s)"
      "out = stream_upto segs (unat (so_recv_id s))"
    show ?thesis
    proof (cases "PackageMap_find (so_recv_id s) (so_recv_pool s)")
      case (Some a)
      then show ?thesis using rx_inv_deliver [OF inv str n] by fastforce
    next
      case None
      then have abs: "pm_abs (so_heap s) (so_recv_pool s) (so_recv_id s) = None"
        using PackageMap_find_live(1) [OF I(2,7)] by simp
      then have gt: "\<not> so_recv_id s \<le> so_recv_ack_id s" using I(11) by blast
      then have nl: "\<not> so_recv_id s < so_recv_ack_id s" by simp
      have eq: "unat (so_recv_id s) = unat (so_recv_ack_id s) + 1"
        using gt I(9) by (simp add: word_le_nat_alt)
      obtain res where "recv_wait (so_worker_running s) (so_recv_pool s) (so_recv_ack_id s) (so_recv_id s)
          = (so_recv_id s, Inr res)" "res = RecvClosed \<or> res = RecvBlocked"
        using None nl recv_wait.simps [of "so_worker_running s" "so_recv_pool s" "so_recv_ack_id s" "so_recv_id s"]
        by (cases "so_worker_running s") auto
      then have "recv_package e room s = Inr (res, s)" "res = RecvClosed \<or> res = RecvBlocked"
        using n(1) by (auto simp: recv_package_def)
      with inv n(2) eq show ?thesis by auto
    qed
  qed
qed

lemma rx_inv_new:
  assumes "0 < cap" "cap < 2 ^ 32" "cap \<le> length j64" "1600 \<le> length j8"
    and part: "rx_part s = rx_part (rsock_new cap j64 jseg j8 down up key ms)" and lim: "0 < lim"
  shows "rx_inv lim payload segs (SharpCrypto_new key) s []"
proof -
  let ?s = "rsock_new cap j64 jseg j8 down up key ms"
  have f: "so_heap ?s = heap_empty" "so_recv_pool ?s = PackageMap_new cap" "so_recv_id ?s = 1"
    "so_recv_ack_id ?s = 0" "so_crypto ?s = SharpCrypto_new key" "length (so_recv_buf ?s) = MAX_MTU"
    "so_ack_recv_pool ?s = IdSet_new j64 cap" "length (sp_buf (so_segment_recv ?s)) = 1600"
    "sp_pending (so_segment_recv ?s) []"
    using assms(4) by (simp_all add: rsock_new_def SegmentParser_new_def MAX_MTU_def sp_pending_def)
  have none: "pm_abs heap_empty (PackageMap_new cap) i = None" for i using assms(1) by (rule pm_new_abs)
  have sh: "rx_shape ?s" using assms(1-3)
    unfolding rx_shape_def f by (simp add: PackageMap_new_def IdSet_new_def is_ok_def)
  have up: "[] @ [] = stream_upto segs (unat (1 :: u64))" by (simp add: stream_upto_def)
  have "rx_inv lim payload segs (SharpCrypto_new key) ?s []"
    unfolding rx_inv_def f none using sh f(9) up assms(1) lim
    by (auto simp: heap_ok_empty pm_new_ok)
  then show ?thesis using rx_inv_cong [OF part] by blast
qed

section \<open>A concrete execution\<close>

definition demo_segs :: "u64 \<Rightarrow> PackageSegment list" where
  "demo_segs i = [[1, 2, 3]]"

definition demo_payload :: "u64 \<Rightarrow> bytes" where
  "demo_payload i = SharpCrypto_encrypt clear_easy (SharpCrypto_new [1, 2, 3])
     (replicate crypto_secretbox_NONCEBYTES 7) (seg_plain (demo_segs i))"

definition demo_package :: "u64 \<Rightarrow> PackageData" where
  "demo_package i = \<lparr>pd_type = Data, pd_package_id = i, pd_una = 0, pd_data = demo_payload i,
     pd_send_count = 1, pd_send_time = (0, 0)\<rparr>"

lemma demo_stream: "stream_ok clear_env 1500 (2 ^ 31) (SharpCrypto_new [1, 2, 3]) demo_payload demo_segs"
proof -
  have "length (seg_plain (demo_segs i)) = 7" for i
    by (simp add: demo_segs_def length_seg_plain)
  then show ?thesis
    using decrypt_encrypt [OF clear_secretbox, of "replicate crypto_secretbox_NONCEBYTES 7"]
      length_encrypt [OF clear_secretbox, of "replicate crypto_secretbox_NONCEBYTES 7"]
    by (simp add: stream_ok_def clear_env_def demo_payload_def demo_segs_def crypto_sizes sizeof_defs MAX_MTU_def)
qed

lemma demo_part: "rx_part fresh_sock =
    rx_part (rsock_new 8 (replicate 8 0) (replicate 8 []) (replicate 1600 0) 100 100 [1, 2, 3] (MAX_SEGMENT 1496))"
  by (simp add: fresh_sock_def rx_part_def)

lemma demo_inv: "rx_inv (2 ^ 31) demo_payload demo_segs (SharpCrypto_new [1, 2, 3]) fresh_sock []"
  by (rule rx_inv_new [OF _ _ _ _ demo_part]) simp_all

lemma demo_fields: "so_recv_id fresh_sock = 1" "so_recv_ack_id fresh_sock = 0"
  "pm_capacity (so_recv_pool fresh_sock) = 8"
  by (simp_all add: fresh_sock_def rsock_new_def PackageMap_new_def)

lemma demo_received:
  obtains s where "rx_reach clear_env 1500 (2 ^ 31) demo_payload fresh_sock s []" "1 \<le> so_recv_ack_id s"
proof -
  note args = rx_inv_data [OF demo_inv demo_stream, of "demo_package 1" "(0, 0)"]
  obtain s where s: "receiver_step clear_env (0, 0) (pd_bytes (demo_package 1)) fresh_sock = Inr (s, [])"
      "1 \<le> so_recv_ack_id s"
    using args by (auto simp: demo_package_def demo_fields)
  have "rx_reach clear_env 1500 (2 ^ 31) demo_payload fresh_sock s []"
    by (rule rx_data [OF rx_start _ _ _ _ _ s(1)]) (simp_all add: demo_package_def demo_fields)
  with that s(2) show thesis by blast
qed

lemma demo_stream_nth: "0 < n \<Longrightarrow> 0 < length (stream_upto demo_segs (n + 1)) \<and> stream_upto demo_segs (n + 1) ! 0 = [1, 2, 3]"
  by (cases n) (auto simp: stream_upto_def demo_segs_def upt_conv_Cons simp del: upt_Suc)

section \<open>The contract\<close>

lemma rx_reach_inv:
  assumes "rx_reach e room lim payload s0 s out" and str: "stream_ok e room lim c payload segs"
    and start: "rx_inv lim payload segs c s0 []"
  shows "rx_inv lim payload segs c s out"
  using assms(1)
proof (induction rule: rx_reach.induct)
  case rx_start
  show ?case by (rule start)
next
  case (rx_data s out d now s' dgs)
  from rx_inv_data [OF rx_data(8) str rx_data(2-6), of now] rx_data(7) show ?case by auto
next
  case (rx_control s out dg now s' dgs)
  from rx_inv_control [OF rx_control(5,2,3,4)] show ?case .
next
  case (rx_tx s out s')
  then show ?case using rx_inv_cong tx_step_rx_part by blast
next
  case (rx_recv s out seg s')
  from rx_inv_recv [OF rx_recv(3) str] rx_recv(2) show ?case by auto
next
  case (rx_wait s out res s')
  from rx_inv_recv [OF rx_wait(4) str] rx_wait(2,3) show ?case by auto
qed

lemma stream_prefix: "m \<le> n \<Longrightarrow> \<exists>rest. stream_upto segs n = stream_upto segs m @ rest"
proof (induction n)
  case (Suc n)
  show ?case
  proof (cases "m = Suc n")
    case False
    with Suc obtain rest where r: "stream_upto segs n = stream_upto segs m @ rest" by auto
    show ?thesis
    proof (cases "n = 0")
      case True
      then show ?thesis using False Suc.prems by (auto simp: stream_upto_def)
    next
      case n: False
      then show ?thesis using r by (simp add: stream_upto_Suc)
    qed
  qed auto
qed auto





text \<open>
  C19: The receiver never faults on the peer's data: in every such execution a data package of
  the peer inside the window is processed without an access to freed or foreign memory, and the
  package that is expected next advances the cumulative acknowledgement past itself.
\<close>

theorem receiver_accepts_data:
  assumes "0 < cap" "cap < 2 ^ 32" "cap \<le> length j64" "1600 \<le> length j8"
    and "rx_part s0 = rx_part (rsock_new cap j64 jseg j8 down up key ms)"
    and "stream_ok e room lim (SharpCrypto_new key) payload segs"
    and "rx_reach e room lim payload s0 s out"
    and "pd_type d = Data" "pd_data d = payload (pd_package_id d)"
      "0 < pd_package_id d" "pd_package_id d < lim"
      "unat (pd_package_id d) < unat (so_recv_id s) + pm_capacity (so_recv_pool s)"
  shows "\<exists>s'. receiver_step e now (pd_bytes d) s = Inr (s', []) \<and>
     (pd_package_id d = so_recv_ack_id s + 1 \<longrightarrow> pd_package_id d \<le> so_recv_ack_id s')"
  using rx_inv_data [OF rx_reach_inv [OF assms(7,6) rx_inv_new [OF assms(1-5) stream_lim(1) [OF assms(6)]]] assms(6,8-12)] by blast

theorem receiver_accepts_data_witness:
  "\<exists>s'. receiver_step clear_env (0, 0) (pd_bytes (demo_package 1)) fresh_sock = Inr (s', []) \<and>
     1 \<le> so_recv_ack_id s'"
  using receiver_accepts_data [OF _ _ _ _ demo_part demo_stream rx_start, of "demo_package 1" "(0, 0)"]
  by (auto simp: demo_package_def demo_fields)

end
