(* ===== verification/RudpTransmit.thy ===== *)
theory RudpTransmit
  imports RudpDelivery
begin

text \<open>
  What the sending threads of \<open>RudpSend\<close> guarantee: the acknowledgement sender reports every
  identifier once, the segment thread turns the queued segments into packages that fit the path and
  that the peer's parser takes apart again.
\<close>

section \<open>Acknowledgement sender\<close>

lemma ack_drain_spec:
  "aq_ok q \<Longrightarrow> 0 < n \<Longrightarrow>
   concat (map pa_ack_list (ack_drain n una sf q)) = filter (\<lambda>i. una < i) (aq_contents q) \<and>
   (\<forall>a \<in> set (ack_drain n una sf q). pa_una a = una \<and> pa_send_from a = sf \<and> length (pa_ack_list a) \<le> n)"
proof (induction n una sf q rule: ack_drain.induct)
  case (1 n una sf q)
  show ?case
  proof (cases "aq_contents q = []")
    case True
    then show ?thesis by (simp add: ack_drain.simps [of n una sf q] AckQueue_size_contents)
  next
    case False
    then have c: "\<not> (AckQueue_size q = 0 \<or> n = 0)" using 1(3) by (simp add: AckQueue_size_contents)
    obtain ids q1 where l: "ack_load_loop n una q = (ids, q1)" by fastforce
    from ack_load_loop_split [OF 1(2) l] obtain pre where pre: "aq_ok q1"
      "aq_contents q = pre @ aq_contents q1" "filter (\<lambda>i. una < i) pre = ids" "length ids \<le> n" by blast
    have "ack_drain n una sf q = \<lparr>pa_una = una, pa_send_from = sf, pa_ack_list = ids\<rparr> # ack_drain n una sf q1"
      using c l by (simp add: ack_drain.simps [of n una sf q])
    with 1(1) [OF c l [symmetric] pre(1) 1(3)] pre show ?thesis by simp
  qed
qed

text \<open>
  C23: The acknowledgement sender reports what was received. One turn empties the queue and sends
  packages, each twice, whose lists together are exactly the queued identifiers above the
  cumulative acknowledgement, in order and each once; every package fits the buffer for 40
  identifiers, and the peer's receiver reads back exactly what was put in.
\<close>

theorem ack_sender_reports:
  assumes "aq_ok (so_ack_send_queue s)"
  shows "\<exists>as. snd (ack_sender_step s) = concat (map (\<lambda>a. [pa_bytes a, pa_bytes a]) as) \<and>
     concat (map pa_ack_list as) = filter (\<lambda>i. so_recv_ack_id s < i) (aq_contents (so_ack_send_queue s)) \<and>
     (\<forall>a \<in> set as. pa_una a = so_recv_ack_id s \<and> pa_send_from a = so_send_from s \<and>
        length (pa_bytes a) \<le> sizeof_base + sizeof_ack + 8 * 40 \<and>
        (\<forall>buf. PackageAck_load_buf (overlay (pa_bytes a) buf) = Inr a)) \<and>
     aq_ok (so_ack_send_queue (fst (ack_sender_step s))) \<and>
     aq_contents (so_ack_send_queue (fst (ack_sender_step s))) = []"
proof -
  let ?q = "AckQueue_copy (so_ack_send_queue s)"
  let ?as = "ack_drain 35 (so_recv_ack_id s) (so_send_from s) ?q"
  have q: "aq_ok ?q" "aq_contents ?q = aq_contents (so_ack_send_queue s)"
    using assms by (auto simp: aq_ok_def aq_contents_def AckQueue_copy_def)
  note spec = ack_drain_spec [OF q(1), of 35 "so_recv_ack_id s" "so_send_from s"]
  have "length (pa_bytes a) \<le> sizeof_base + sizeof_ack + 8 * 40 \<and>
      PackageAck_load_buf (overlay (pa_bytes a) buf) = Inr a" if "a \<in> set ?as" for a buf
  proof -
    have "length (pa_ack_list a) \<le> 35" using spec that by simp
    then show ?thesis using PackageAck_roundtrip [of a buf]
      by (simp add: length_pa_bytes pa_length_def)
  qed
  then show ?thesis using spec q(2) aq_rebase_ok [OF assms]
    by (intro exI [of _ ?as]) (simp add: ack_sender_step_def)
qed

theorem ack_sender_reports_witness:
  "\<exists>as. snd (ack_sender_step (fresh_sock\<lparr>so_ack_send_queue := AckQueue_push 4 (AckQueue_new [0, 0] 2)\<rparr>))
       = concat (map (\<lambda>a. [pa_bytes a, pa_bytes a]) as) \<and> concat (map pa_ack_list as) = [4]"
proof -
  let ?q = "AckQueue_push 4 (AckQueue_new [0, 0] 2)"
  have "aq_ok ?q" by (simp add: aq_ok_def ring_ok_def AckQueue_push_def AckQueue_new_def)
  moreover have "aq_contents ?q = [4]"
    by (simp add: aq_contents_def ring_list_def AckQueue_push_def AckQueue_new_def)
  moreover have "so_recv_ack_id fresh_sock = 0" by (simp add: demo_fields)
  ultimately show ?thesis
    using ack_sender_reports [of "fresh_sock\<lparr>so_ack_send_queue := ?q\<rparr>"] by auto
qed

section \<open>From segments to packages\<close>

text \<open>The packages of a run of \<open>push_plains\<close>, in the order of their identifiers.\<close>

definition qm_shape :: "packagequeuemap \<Rightarrow> bool" where
  "qm_shape m \<longleftrightarrow> 0 < qm_capacity m \<and> length (qm_arr m) = qm_capacity m \<and>
     length (qm_data_list m) = qm_capacity m"

definition qm_get :: "heap \<Rightarrow> packagequeuemap \<Rightarrow> u64 \<Rightarrow> PackageData option" where
  "qm_get h m i = (case PackageQueueMap_index i m of None \<Rightarrow> None | Some a \<Rightarrow> hp_obj h a)"

text \<open>Slots that a push may take: they hold nothing, or a package that is still allocated.\<close>

definition qm_live :: "heap \<Rightarrow> packagequeuemap \<Rightarrow> bool" where
  "qm_live h m \<longleftrightarrow> qm_shape m \<and> heap_ok h \<and>
     (\<forall>k < qm_capacity m. qm_arr m ! k \<noteq> 0 \<longrightarrow> slot (qm_capacity m) (qm_arr m ! k) = k \<and>
        (\<exists>a. qm_data_list m ! k = Some a \<and> hp_obj h a \<noteq> None)) \<and>
     (\<forall>j < qm_capacity m. \<forall>k < qm_capacity m. qm_arr m ! j \<noteq> 0 \<longrightarrow> qm_arr m ! k \<noteq> 0 \<longrightarrow>
        qm_data_list m ! j = qm_data_list m ! k \<longrightarrow> j = k)"

lemma qm_push_ok:
  assumes live: "qm_live h m" and i: "i \<noteq> 0" and n: "heap_new d h = (a, h1)"
  shows "\<exists>h' m'. PackageQueueMap_push a i (h1, m) = Inr (h', m') \<and> qm_live h' m' \<and>
     qm_capacity m' = qm_capacity m \<and> qm_get h' m' i = Some d \<and>
     (\<forall>j. slot (qm_capacity m) j \<noteq> slot (qm_capacity m) i \<longrightarrow> j \<noteq> 0 \<longrightarrow> qm_get h' m' j = qm_get h m j)"
proof -
  let ?c = "qm_capacity m" let ?k = "slot ?c i"
  have sh: "0 < ?c" "length (qm_arr m) = ?c" "length (qm_data_list m) = ?c" and h: "heap_ok h"
    using live by (auto simp: qm_live_def qm_shape_def)
  have k: "?k < ?c" using sh(1) by (rule slot_less)
  have a: "a = hp_next h" "h1 = h\<lparr>hp_obj := (hp_obj h)(a := Some d), hp_next := hp_next h + 1\<rparr>"
    using n by (auto simp: heap_new_def)
  have old: "b \<noteq> a" if "hp_obj h b \<noteq> None" for b using heap_ok_live [OF h that] a by auto
  define del where "del = (if qm_arr m ! ?k \<noteq> 0 then qm_data_list m ! ?k else None)"
  have dl: "\<And>b. del = Some b \<Longrightarrow> hp_obj h b \<noteq> None \<and> b \<noteq> a"
    using live k old by (auto simp: del_def qm_live_def split: if_splits)
  define h' where "h' = (case del of None \<Rightarrow> h1 | Some b \<Rightarrow> h1\<lparr>hp_obj := (hp_obj h1)(b := None)\<rparr>)"
  define m' where "m' = m\<lparr>qm_queue := (qm_queue m)[qm_end m := i],
      qm_end := (qm_end m + 1) mod (2 * ?c), qm_data_list := (qm_data_list m)[?k := Some a],
      qm_arr := (qm_arr m)[?k := i], qm_ref := (qm_ref m)[?k := 1], qm_len := qm_len m + 1\<rparr>"
  have hd: "heap_delete del h1 = Inr h'"
    using dl a by (auto simp: h'_def heap_delete_def split: option.splits)
  have "(if qm_arr m ! ?k \<noteq> 0 then heap_delete (qm_data_list m ! ?k) h1 else Inr h1) = heap_delete del h1"
    by (simp add: del_def heap_delete_def)
  then have push: "PackageQueueMap_push a i (h1, m) = Inr (h', m')"
    using hd by (simp add: PackageQueueMap_push_def Let_def m'_def)
  have ha: "hp_obj h' a = Some d" using dl a by (auto simp: h'_def split: option.splits)
  have keep: "hp_obj h' b = hp_obj h b" if "b \<noteq> a" "del \<noteq> Some b" for b
    using that a by (auto simp: h'_def split: option.splits)
  have other: "hp_obj h' b = hp_obj h b \<and> b \<noteq> a" if "j < ?c" "j \<noteq> ?k" "qm_arr m ! j \<noteq> 0" "qm_data_list m ! j = Some b" for j b
  proof -
    have "hp_obj h b \<noteq> None" using live that by (auto simp: qm_live_def)
    moreover have "del \<noteq> Some b" using live that k by (auto simp: del_def qm_live_def split: if_splits)
    ultimately show ?thesis using old keep by blast
  qed
  have "heap_ok h'" using h a by (auto simp: heap_ok_def h'_def split: option.splits)
  moreover have "qm_shape m'" using sh by (simp add: qm_shape_def m'_def)
  moreover have "slot ?c (qm_arr m' ! j) = j \<and> (\<exists>b. qm_data_list m' ! j = Some b \<and> hp_obj h' b \<noteq> None)"
    if jc: "j < ?c" and "qm_arr m' ! j \<noteq> 0" for j
  proof (cases "j = ?k")
    case True
    then show ?thesis using k sh ha by (simp add: m'_def)
  next
    case False
    then have "qm_arr m ! j \<noteq> 0" using that by (simp add: m'_def)
    then obtain b where "qm_data_list m ! j = Some b" "hp_obj h b \<noteq> None" "slot ?c (qm_arr m ! j) = j"
      using live jc unfolding qm_live_def by blast
    with other [OF jc False] \<open>qm_arr m ! j \<noteq> 0\<close> False show ?thesis by (simp add: m'_def)
  qed
  moreover have "j = l" if "j < ?c" "l < ?c" "qm_arr m' ! j \<noteq> 0" "qm_arr m' ! l \<noteq> 0"
      "qm_data_list m' ! j = qm_data_list m' ! l" for j l
  proof (rule ccontr)
    assume "j \<noteq> l"
    then consider "j = ?k" "l \<noteq> ?k" | "l = ?k" "j \<noteq> ?k" | "j \<noteq> ?k" "l \<noteq> ?k" by blast
    then show False
    proof cases
      case 1
      then show ?thesis using that other [of l a] sh k by (simp add: m'_def)
    next
      case 2
      then show ?thesis using that other [of j a] sh k by (simp add: m'_def)
    next
      case 3
      then show ?thesis using that live \<open>j \<noteq> l\<close> by (auto simp: m'_def qm_live_def)
    qed
  qed
  ultimately have lv: "qm_live h' m'" by (auto simp: qm_live_def m'_def)
  have "qm_get h' m' i = Some d" using k sh ha by (simp add: qm_get_def PackageQueueMap_index_def m'_def)
  moreover have "qm_get h' m' j = qm_get h m j" if "slot ?c j \<noteq> ?k" "j \<noteq> 0" for j
    using that other [of "slot ?c j"] slot_less [OF sh(1), of j]
    by (auto simp: qm_get_def PackageQueueMap_index_def m'_def split: option.splits)
  ultimately show ?thesis using push lv by (auto simp: m'_def)
qed

definition data_package :: "env \<Rightarrow> SharpCrypto \<Rightarrow> u64 \<Rightarrow> bytes \<Rightarrow> PackageData" where
  "data_package e c i plain = \<lparr>pd_type = Data, pd_package_id = i, pd_una = ev_junk_id e,
     pd_data = SharpCrypto_encrypt (ev_easy e) c (ev_nonce e i) plain, pd_send_count = 0,
     pd_send_time = ev_junk_time e\<rparr>"

lemma push_plain_eq:
  assumes "heap_new (data_package e (so_crypto s) (so_send_id s) plain) (so_send_heap s) = (a, h)"
  shows "push_plain e plain s = bind_out (PackageQueueMap_push a (so_send_id s) (h, so_send_pool s))
     (\<lambda>(h, m). Inr (s\<lparr>so_send_heap := h, so_send_pool := m, so_send_id := so_send_id s + 1\<rparr>))"
  using assms
  by (simp add: push_plain_def data_package_def PackageData_len_def PackageData_from_data_def Let_def)

lemma push_plain_ok:
  assumes live: "qm_live (so_send_heap s) (so_send_pool s)" and i: "so_send_id s \<noteq> 0"
  shows "\<exists>h m. push_plain e plain s =
        Inr (s\<lparr>so_send_heap := h, so_send_pool := m, so_send_id := so_send_id s + 1\<rparr>) \<and>
     qm_live h m \<and> qm_capacity m = qm_capacity (so_send_pool s) \<and>
     qm_get h m (so_send_id s) = Some (data_package e (so_crypto s) (so_send_id s) plain) \<and>
     (\<forall>j. slot (qm_capacity m) j \<noteq> slot (qm_capacity m) (so_send_id s) \<longrightarrow> j \<noteq> 0 \<longrightarrow>
        qm_get h m j = qm_get (so_send_heap s) (so_send_pool s) j)"
proof -
  let ?d = "data_package e (so_crypto s) (so_send_id s) plain"
  obtain a h1 where n: "heap_new ?d (so_send_heap s) = (a, h1)" by fastforce
  obtain h m where p: "PackageQueueMap_push a (so_send_id s) (h1, so_send_pool s) = Inr (h, m)"
    "qm_live h m" "qm_capacity m = qm_capacity (so_send_pool s)" "qm_get h m (so_send_id s) = Some ?d"
    "\<forall>j. slot (qm_capacity (so_send_pool s)) j \<noteq> slot (qm_capacity (so_send_pool s)) (so_send_id s) \<longrightarrow>
       j \<noteq> 0 \<longrightarrow> qm_get h m j = qm_get (so_send_heap s) (so_send_pool s) j"
    using qm_push_ok [OF live i n] by blast
  have "push_plain e plain s = Inr (s\<lparr>so_send_heap := h, so_send_pool := m, so_send_id := so_send_id s + 1\<rparr>)"
    using p(1) by (simp add: push_plain_eq [OF n])
  with p show ?thesis by (intro exI [of _ h] exI [of _ m]) simp
qed

lemma unat_add_small: "unat (i :: u64) + k < 2 ^ 64 \<Longrightarrow> unat (i + of_nat k) = unat i + k"
  by (simp add: unat_word_ariths unat_of_nat)

lemma push_plains_ok:
  "qm_live (so_send_heap s) (so_send_pool s) \<Longrightarrow> so_send_id s \<noteq> 0 \<Longrightarrow>
   length plains \<le> qm_capacity (so_send_pool s) \<Longrightarrow> unat (so_send_id s) + length plains < 2 ^ 64 \<Longrightarrow>
   \<exists>s'. push_plains e plains s = Inr s' \<and> so_send_id s' = so_send_id s + of_nat (length plains) \<and>
     so_seg_pending s' = so_seg_pending s \<and> so_seg_buf s' = so_seg_buf s \<and>
     qm_live (so_send_heap s') (so_send_pool s') \<and>
     (\<forall>k < length plains. qm_get (so_send_heap s') (so_send_pool s') (so_send_id s + of_nat k) =
        Some (data_package e (so_crypto s) (so_send_id s + of_nat k) (plains ! k))) \<and>
     (\<forall>j. j \<noteq> 0 \<longrightarrow> (\<forall>k < length plains. slot (qm_capacity (so_send_pool s)) j \<noteq>
          slot (qm_capacity (so_send_pool s)) (so_send_id s + of_nat k)) \<longrightarrow>
        qm_get (so_send_heap s') (so_send_pool s') j = qm_get (so_send_heap s) (so_send_pool s) j)"
proof (induction plains arbitrary: s)
  case (Cons p ps)
  let ?i = "so_send_id s" let ?c = "qm_capacity (so_send_pool s)"
  obtain h m where p: "push_plain e p s =
        Inr (s\<lparr>so_send_heap := h, so_send_pool := m, so_send_id := ?i + 1\<rparr>)" "qm_live h m"
     "qm_capacity m = ?c" "qm_get h m ?i = Some (data_package e (so_crypto s) ?i p)"
     "\<forall>j. slot ?c j \<noteq> slot ?c ?i \<longrightarrow> j \<noteq> 0 \<longrightarrow> qm_get h m j = qm_get (so_send_heap s) (so_send_pool s) j"
    using push_plain_ok [OF Cons.prems(1,2)] by metis
  define s1 where "s1 = s\<lparr>so_send_heap := h, so_send_pool := m, so_send_id := ?i + 1\<rparr>"
  have inc: "unat (?i + 1) = unat ?i + 1" using unat_add_small [of ?i 1] Cons.prems(4) by simp
  have nz: "?i + 1 \<noteq> 0" using inc by auto
  have "qm_live (so_send_heap s1) (so_send_pool s1)" "so_send_id s1 \<noteq> 0"
    "length ps \<le> qm_capacity (so_send_pool s1)" "unat (so_send_id s1) + length ps < 2 ^ 64"
    using p nz inc Cons.prems by (simp_all add: s1_def)
  from Cons.IH [OF this] obtain s' where s': "push_plains e ps s1 = Inr s'"
     "so_send_id s' = ?i + 1 + of_nat (length ps)" "so_seg_pending s' = so_seg_pending s"
     "so_seg_buf s' = so_seg_buf s" "qm_live (so_send_heap s') (so_send_pool s')"
     "\<forall>k < length ps. qm_get (so_send_heap s') (so_send_pool s') (?i + 1 + of_nat k) =
        Some (data_package e (so_crypto s) (?i + 1 + of_nat k) (ps ! k))"
     "\<forall>j. j \<noteq> 0 \<longrightarrow> (\<forall>k < length ps. slot ?c j \<noteq> slot ?c (?i + 1 + of_nat k)) \<longrightarrow>
        qm_get (so_send_heap s') (so_send_pool s') j = qm_get h m j"
    using p(3) by (auto simp: s1_def)
  have shift: "?i + 1 + of_nat k = ?i + of_nat (Suc k)" for k by simp
  have sl: "slot ?c ?i \<noteq> slot ?c (?i + of_nat (Suc k))" if "k < length ps" for k
  proof
    assume "slot ?c ?i = slot ?c (?i + of_nat (Suc k))"
    moreover have "unat (?i + of_nat (Suc k)) = unat ?i + Suc k"
      using that Cons.prems(4) by (intro unat_add_small) simp
    ultimately have "?i = ?i + of_nat (Suc k)"
      using that Cons.prems(3) by (intro slot_window [where lo = "unat ?i" and cap = ?c]) auto
    then have "unat ?i = unat ?i + Suc k" using \<open>unat (?i + of_nat (Suc k)) = unat ?i + Suc k\<close> by simp
    then show False by simp
  qed
  have "qm_get (so_send_heap s') (so_send_pool s') ?i = Some (data_package e (so_crypto s) ?i p)"
    using s'(7) Cons.prems(2) sl p(4) by (simp only: shift) simp
  then have get: "qm_get (so_send_heap s') (so_send_pool s') (?i + of_nat k) =
      Some (data_package e (so_crypto s) (?i + of_nat k) ((p # ps) ! k))" if "k < length (p # ps)" for k
    using that s'(6) by (cases k) (simp_all only: shift nth_Cons_0 nth_Cons_Suc of_nat_0 add_0_right length_Cons Suc_less_eq, simp_all)
  have frame: "qm_get (so_send_heap s') (so_send_pool s') j = qm_get (so_send_heap s) (so_send_pool s) j"
    if "j \<noteq> 0" "\<forall>k < length (p # ps). slot ?c j \<noteq> slot ?c (?i + of_nat k)" for j
  proof -
    have "\<forall>k < length ps. slot ?c j \<noteq> slot ?c (?i + 1 + of_nat k)"
      using that(2) by (simp only: shift) (metis Suc_less_eq length_Cons)
    moreover have "slot ?c j \<noteq> slot ?c ?i" using that(2) [rule_format, of 0] by simp
    ultimately show ?thesis using s'(7) p(5) that(1) by metis
  qed
  have "push_plains e (p # ps) s = Inr s'" using p(1) s'(1) by (simp add: s1_def)
  moreover have "so_send_id s' = ?i + of_nat (length (p # ps))" using s'(2) by simp
  ultimately show ?case using s'(3,4,5) get frame by blast
qed auto

lemma length_groups: "[] \<notin> set groups \<Longrightarrow> length groups \<le> length (concat groups)"
proof (induction groups)
  case (Cons g gs)
  then show ?case by (cases g) auto
qed simp

text \<open>
  C20: Segments become packages and come back. When every waiting segment is shorter than
  \<open>max_segment - 4\<close>, the segment thread packs the whole snapshot: there is a division of the
  segments, in order, into non-empty groups, and the package with the k-th new identifier decrypts
  on the peer to the frames of the k-th group. The datagram of each package is smaller than
  \<open>max_segment\<close> plus the headers and the encryption overhead.
\<close>

theorem segment_pack_packages:
  assumes box: "secretbox_spec (ev_easy e) (ev_open e)"
    and nonce: "\<forall>i. length (ev_nonce e i) = crypto_secretbox_NONCEBYTES"
    and pend: "so_seg_pending s = Some snap" and win: "window_open s"
    and segs: "snap' = snap\<lparr>sl_list := sl_list (so_segment_list s)\<rparr>" "sl_ok snap'"
    and fit: "\<forall>x \<in> set (sl_contents snap'). int (length x) < so_max_segment s - 4"
    and buf: "so_max_segment s \<le> int (length (so_seg_buf s))"
    and pool: "qm_live (so_send_heap s) (so_send_pool s)"
    and ids: "so_send_id s \<noteq> 0" "length (sl_contents snap') \<le> qm_capacity (so_send_pool s)"
      "unat (so_send_id s) + length (sl_contents snap') < 2 ^ 64"
  shows "\<exists>groups s'. segment_pack e s = Inr s' \<and> so_seg_pending s' = None \<and>
     concat groups = sl_contents snap' \<and> [] \<notin> set groups \<and>
     so_send_id s' = so_send_id s + of_nat (length groups) \<and>
     (\<forall>k < length groups. \<exists>d.
        qm_get (so_send_heap s') (so_send_pool s') (so_send_id s + of_nat k) = Some d \<and>
        pd_type d = Data \<and> pd_package_id d = so_send_id s + of_nat k \<and>
        SharpCrypto_decrypt (ev_open e) (so_crypto s) (pd_data d) = Inr (Some (seg_plain (groups ! k))) \<and>
        int (length (pd_bytes d)) < so_max_segment s
          + int (sizeof_base + sizeof_data + SHARPVPN_CRYPTO_OVERHEAD))"
proof -
  obtain groups buf' where g: "segment_batch (so_max_segment s) (so_seg_buf s) snap' =
      Inr (map seg_plain groups, buf')" "concat groups = sl_contents snap'" "[] \<notin> set groups"
      "\<forall>g \<in> set groups. int (length (seg_plain g)) < so_max_segment s"
    using segment_batch_spec [OF segs(2) buf fit] by blast
  define s1 where "s1 = s\<lparr>so_seg_pending := None, so_seg_buf := buf'\<rparr>"
  have len: "length groups \<le> length (sl_contents snap')" using length_groups [OF g(3)] g(2) by simp
  have "qm_live (so_send_heap s1) (so_send_pool s1)" "so_send_id s1 \<noteq> 0"
    "length (map seg_plain groups) \<le> qm_capacity (so_send_pool s1)"
    "unat (so_send_id s1) + length (map seg_plain groups) < 2 ^ 64"
    using pool ids len by (simp_all add: s1_def)
  from push_plains_ok [OF this, of e] obtain s' where s': "push_plains e (map seg_plain groups) s1 = Inr s'"
     "so_send_id s' = so_send_id s + of_nat (length groups)" "so_seg_pending s' = None"
     "\<forall>k < length groups. qm_get (so_send_heap s') (so_send_pool s') (so_send_id s + of_nat k) =
        Some (data_package e (so_crypto s) (so_send_id s + of_nat k) (seg_plain (groups ! k)))"
    by (auto simp: s1_def)
  have pack: "segment_pack e s = Inr s'"
    using pend win g(1) s'(1) by (simp add: segment_pack_def segs(1) s1_def)
  have "SharpCrypto_decrypt (ev_open e) (so_crypto s)
        (SharpCrypto_encrypt (ev_easy e) (so_crypto s) (ev_nonce e i) m) = Inr (Some m)"
      "length (SharpCrypto_encrypt (ev_easy e) (so_crypto s) (ev_nonce e i) m)
        = length m + SHARPVPN_CRYPTO_OVERHEAD" for i m
    using decrypt_encrypt [OF box] length_encrypt [OF box] nonce by auto
  then have "\<exists>d. qm_get (so_send_heap s') (so_send_pool s') (so_send_id s + of_nat k) = Some d \<and>
        pd_type d = Data \<and> pd_package_id d = so_send_id s + of_nat k \<and>
        SharpCrypto_decrypt (ev_open e) (so_crypto s) (pd_data d) = Inr (Some (seg_plain (groups ! k))) \<and>
        int (length (pd_bytes d)) < so_max_segment s
          + int (sizeof_base + sizeof_data + SHARPVPN_CRYPTO_OVERHEAD)" if "k < length groups" for k
    using s'(4) that g(4) by (auto simp: data_package_def length_pd_bytes pd_length_def)
  with pack s'(2,3) g(2,3) show ?thesis by blast
qed

definition demo_list :: segmentlist where
  "demo_list = fold PackageSegmentList_push [[1, 2], [3]] (PackageSegmentList_new (replicate 4 []) 4)"

definition demo_sender :: rsock where
  "demo_sender = segment_take (fresh_sock\<lparr>so_segment_list := demo_list\<rparr>)"

lemma fresh_qm_live: "qm_live (so_send_heap fresh_sock) (so_send_pool fresh_sock)"
  by (simp add: qm_live_def qm_shape_def fresh_sock_def rsock_new_def PackageQueueMap_new_def heap_ok_empty)

lemma demo_sender_facts:
  "so_seg_pending demo_sender = Some (PackageSegmentList_copy demo_list)"
  "sl_list (so_segment_list demo_sender) = sl_list demo_list"
  "sl_ok demo_list" "sl_contents demo_list = [[1, 2], [3]]"
  "so_send_heap demo_sender = so_send_heap fresh_sock" "so_send_pool demo_sender = so_send_pool fresh_sock"
  "so_send_id demo_sender = 1" "so_send_ack_id demo_sender = 0" "so_max_segment demo_sender = 1408"
  "so_seg_buf demo_sender = replicate 1600 0" "so_crypto demo_sender = SharpCrypto_new [1, 2, 3]"
  "qm_capacity (so_send_pool fresh_sock) = 8"
  by (simp_all add: demo_sender_def segment_take_def fresh_sock_def rsock_new_def demo_list_def sl_ok_def
      ring_ok_def sl_contents_def ring_list_def PackageSegmentList_push_def PackageSegmentList_new_def
      PackageSegmentList_size_def PackageSegmentList_rebase_def PackageQueueMap_new_def MAX_SEGMENT_def
      sizeof_defs crypto_sizes MAX_MTU_def)

theorem segment_pack_packages_witness:
  "\<exists>groups s'. segment_pack clear_env demo_sender = Inr s' \<and> concat groups = [[1, 2], [3]] \<and>
     (\<forall>k < length groups. \<exists>d. qm_get (so_send_heap s') (so_send_pool s') (1 + of_nat k) = Some d \<and>
        SharpCrypto_decrypt clear_open (SharpCrypto_new [1, 2, 3]) (pd_data d)
          = Inr (Some (seg_plain (groups ! k))))"
proof -
  let ?snap = "PackageSegmentList_copy demo_list"
  have c: "?snap\<lparr>sl_list := sl_list (so_segment_list demo_sender)\<rparr> = demo_list"
    by (simp add: PackageSegmentList_copy_def demo_sender_facts)
  have w: "window_open demo_sender" by (simp add: window_open_def demo_sender_facts)
  have e: "secretbox_spec (ev_easy clear_env) (ev_open clear_env)" "ev_open clear_env = clear_open"
      "\<forall>i. length (ev_nonce clear_env i) = crypto_secretbox_NONCEBYTES"
    using clear_secretbox by (simp_all add: clear_env_def)
  show ?thesis
    using segment_pack_packages [OF e(1,3) demo_sender_facts(1) w c [symmetric]] e(2) fresh_qm_live
    by (simp add: demo_sender_facts) metis
qed



text \<open>
  C40: A segment that does not fit stops the sending side for good: once a segment of at least
  \<open>max_segment - 4\<close> bytes is in the snapshot, the packing loop of the segment thread never ends,
  because the loop neither takes the segment nor drops it.
\<close>

theorem oversize_segment_diverges:
  assumes "so_seg_pending s = Some snap" "window_open s"
    and "snap' = snap\<lparr>sl_list := sl_list (so_segment_list s)\<rparr>" "sl_ok snap'"
    and "so_max_segment s \<le> int (length (so_seg_buf s))"
    and "x \<in> set (sl_contents snap')" "so_max_segment s - 4 \<le> int (length x)"
  shows "segment_pack e s = Inl Diverges"
  using segment_batch_diverges [OF assms(4,5,6,7)] assms(1-3) by (simp add: segment_pack_def)

theorem oversize_segment_diverges_witness:
  "segment_pack clear_env (demo_sender\<lparr>so_max_segment := 6\<rparr>) = Inl Diverges"
proof -
  let ?s = "demo_sender\<lparr>so_max_segment := 6\<rparr>" and ?snap = "PackageSegmentList_copy demo_list"
  have c: "?snap\<lparr>sl_list := sl_list (so_segment_list ?s)\<rparr> = demo_list"
    by (simp add: PackageSegmentList_copy_def demo_sender_facts)
  have p: "so_seg_pending ?s = Some ?snap" "window_open ?s"
    by (simp_all add: demo_sender_facts window_open_def)
  show ?thesis
    by (rule oversize_segment_diverges [OF p c [symmetric], where x = "[1, 2]"])
      (simp_all add: demo_sender_facts)
qed

end
