(* ===== verification/RudpRefs.thy ===== *)
theory RudpRefs
  imports RudpTransmit "HOL-Library.Multiset"
begin

text \<open>
  Reference counts of \<open>PackageQueueMap\<close>. The segment thread stores a package in this map; from then
  on its identifier waits in the send queue or the resend queue, or its address is held outside the
  map, and the package is freed through the reference count of its slot. The invariant \<open>refs_ok\<close>
  says that the count is never below the number of places that still lead to the package. There is
  one lemma per operation of the map; \<open>RudpTracking\<close> applies them to the threads.
\<close>

section \<open>Places that lead to a package\<close>

definition queue_ids :: "packagequeuemap \<Rightarrow> u64 list" where
  "queue_ids m = ring_list (qm_queue m) (2 * qm_capacity m) (qm_start m) (qm_len m)"

definition resend_ids :: "packagequeuemap \<Rightarrow> u64 list" where
  "resend_ids m = ring_list (qm_resend_queue m) (qm_capacity m) (qm_resend_start m) (qm_resend_len m)"

definition places :: "packagequeuemap \<Rightarrow> nat option multiset \<Rightarrow> u64 \<Rightarrow> nat" where
  "places m held i = count_list (queue_ids m) i + count_list (resend_ids m) i
     + count held (PackageQueueMap_index i m)"

text \<open>
  \<open>held\<close> are the addresses outside the map. Every slot in use holds a live package with the
  identifier of the slot, and its count covers the places.
\<close>

definition refs_ok :: "u64 \<Rightarrow> heap \<Rightarrow> packagequeuemap \<Rightarrow> nat option multiset \<Rightarrow> bool" where
  "refs_ok sid h m held \<longleftrightarrow> qm_live h m \<and> length (qm_ref m) = qm_capacity m \<and>
     ring_ok (qm_queue m) (2 * qm_capacity m) (qm_start m) (qm_end m) (qm_len m) \<and>
     ring_ok (qm_resend_queue m) (qm_capacity m) (qm_resend_start m) (qm_resend_end m) (qm_resend_len m) \<and>
     (\<forall>i \<in> set (queue_ids m) \<union> set (resend_ids m). i \<noteq> 0 \<and> i < sid) \<and>
     (\<forall>p \<in># held. \<exists>k < qm_capacity m. qm_arr m ! k \<noteq> 0 \<and> qm_data_list m ! k = p) \<and>
     (\<forall>k < qm_capacity m. qm_arr m ! k \<noteq> 0 \<longrightarrow> qm_arr m ! k < sid \<and>
        int (places m held (qm_arr m ! k)) \<le> qm_ref m ! k \<and>
        (\<forall>a d. qm_data_list m ! k = Some a \<longrightarrow> hp_obj h a = Some d \<longrightarrow> pd_package_id d = qm_arr m ! k))"

lemma refs_okD:
  assumes "refs_ok sid h m held"
  shows "qm_live h m" "length (qm_ref m) = qm_capacity m"
    "ring_ok (qm_queue m) (2 * qm_capacity m) (qm_start m) (qm_end m) (qm_len m)"
    "ring_ok (qm_resend_queue m) (qm_capacity m) (qm_resend_start m) (qm_resend_end m) (qm_resend_len m)"
    "\<And>i. i \<in> set (queue_ids m) \<or> i \<in> set (resend_ids m) \<Longrightarrow> i \<noteq> 0 \<and> i < sid"
    "\<And>p. p \<in># held \<Longrightarrow> \<exists>k < qm_capacity m. qm_arr m ! k \<noteq> 0 \<and> qm_data_list m ! k = p"
    "\<And>k. k < qm_capacity m \<Longrightarrow> qm_arr m ! k \<noteq> 0 \<Longrightarrow> qm_arr m ! k < sid \<and>
        int (places m held (qm_arr m ! k)) \<le> qm_ref m ! k"
    "\<And>k a d. k < qm_capacity m \<Longrightarrow> qm_arr m ! k \<noteq> 0 \<Longrightarrow> qm_data_list m ! k = Some a \<Longrightarrow>
        hp_obj h a = Some d \<Longrightarrow> pd_package_id d = qm_arr m ! k"
  using assms unfolding refs_ok_def by blast+

lemma qm_liveD:
  assumes "qm_live h m"
  shows "0 < qm_capacity m" "length (qm_arr m) = qm_capacity m" "length (qm_data_list m) = qm_capacity m"
    "heap_ok h"
    "\<And>k. k < qm_capacity m \<Longrightarrow> qm_arr m ! k \<noteq> 0 \<Longrightarrow> slot (qm_capacity m) (qm_arr m ! k) = k"
    "\<And>k. k < qm_capacity m \<Longrightarrow> qm_arr m ! k \<noteq> 0 \<Longrightarrow>
        \<exists>a d. qm_data_list m ! k = Some a \<and> hp_obj h a = Some d"
    "\<And>j k. j < qm_capacity m \<Longrightarrow> k < qm_capacity m \<Longrightarrow> qm_arr m ! j \<noteq> 0 \<Longrightarrow> qm_arr m ! k \<noteq> 0 \<Longrightarrow>
        qm_data_list m ! j = qm_data_list m ! k \<Longrightarrow> j = k"
  using assms unfolding qm_live_def qm_shape_def by blast+

lemma index_slot:
  assumes "qm_live h m" "k < qm_capacity m" "qm_arr m ! k \<noteq> 0"
  shows "PackageQueueMap_index (qm_arr m ! k) m = qm_data_list m ! k"
  using qm_liveD(5) [OF assms] by (simp add: PackageQueueMap_index_def)

text \<open>Every address outside the map is that of a stored package.\<close>

lemma held_live:
  assumes ok: "refs_ok sid h m held" and p: "p \<in># held"
  shows "\<exists>a d. p = Some a \<and> hp_obj h a = Some d \<and> pd_package_id d \<noteq> 0 \<and> pd_package_id d < sid \<and>
     qm_data_list m ! slot (qm_capacity m) (pd_package_id d) = p \<and> PackageQueueMap_index (pd_package_id d) m = p"
proof -
  obtain k where k: "k < qm_capacity m" "qm_arr m ! k \<noteq> 0" "qm_data_list m ! k = p"
    using refs_okD(6) [OF ok p] by blast
  note L = refs_okD(1) [OF ok]
  obtain a d where a: "p = Some a" "hp_obj h a = Some d" using qm_liveD(6) [OF L k(1,2)] k(3) by auto
  have id: "pd_package_id d = qm_arr m ! k" using refs_okD(8) [OF ok k(1,2)] k(3) a by blast
  have "PackageQueueMap_index (qm_arr m ! k) m = p" using index_slot [OF L k(1,2)] k(3) by simp
  moreover have "qm_data_list m ! slot (qm_capacity m) (qm_arr m ! k) = p"
    using qm_liveD(5) [OF L k(1,2)] k(3) by simp
  ultimately show ?thesis using a id k(2) refs_okD(7) [OF ok k(1,2)] by (intro exI [of _ a] exI [of _ d]) simp
qed

lemma refs_ok_fewer:
  assumes "refs_ok sid h m held" "held' \<subseteq># held"
  shows "refs_ok sid h m held'"
proof -
  have "places m held' i \<le> places m held i" for i
    using mset_subset_eq_count [OF assms(2)] by (simp add: places_def)
  then have le: "int (places m held' i) \<le> int (places m held i)" for i by simp
  have "int (places m held' i) \<le> r" if "int (places m held i) \<le> r" for i r
    using le that by (rule order.trans)
  then show ?thesis using assms(1) mset_subset_eqD [OF assms(2)] unfolding refs_ok_def by blast
qed

lemma refs_ok_new:
  assumes "0 < cap"
  shows "refs_ok sid heap_empty (PackageQueueMap_new cap) {#}"
  using assms
  by (simp add: refs_ok_def qm_live_def qm_shape_def PackageQueueMap_new_def heap_ok_empty ring_ok_def
      queue_ids_def resend_ids_def)

section \<open>The operations of the map\<close>

lemma qm_live_cong:
  "qm_live h m \<Longrightarrow> qm_capacity m' = qm_capacity m \<Longrightarrow> qm_arr m' = qm_arr m \<Longrightarrow>
   qm_data_list m' = qm_data_list m \<Longrightarrow> qm_live h m'"
  by (simp add: qm_live_def qm_shape_def)

lemma index_cong:
  "qm_capacity m' = qm_capacity m \<Longrightarrow> qm_arr m' = qm_arr m \<Longrightarrow> qm_data_list m' = qm_data_list m \<Longrightarrow>
   PackageQueueMap_index i m' = PackageQueueMap_index i m"
  by (simp add: PackageQueueMap_index_def)

text \<open>Queueing an identifier again.\<close>

lemma push_resend_frame:
  "qm_capacity (PackageQueueMap_push_resend i m) = qm_capacity m"
  "qm_arr (PackageQueueMap_push_resend i m) = qm_arr m"
  "qm_data_list (PackageQueueMap_push_resend i m) = qm_data_list m"
  "qm_resend_len (PackageQueueMap_push_resend i m) = qm_resend_len m + 1"
  "queue_ids (PackageQueueMap_push_resend i m) = queue_ids m"
  "PackageQueueMap_index j (PackageQueueMap_push_resend i m) = PackageQueueMap_index j m"
  by (simp_all add: PackageQueueMap_push_resend_def Let_def queue_ids_def PackageQueueMap_index_def)

lemma refs_ok_push_resend:
  assumes ok: "refs_ok sid h m held" and i: "i \<noteq> 0" "i < sid" and room: "qm_resend_len m < qm_capacity m"
  shows "refs_ok sid h (PackageQueueMap_push_resend i m) held"
    "resend_ids (PackageQueueMap_push_resend i m) = resend_ids m @ [i]"
proof -
  let ?m = "PackageQueueMap_push_resend i m" let ?k = "slot (qm_capacity m) i"
  have f: "qm_capacity ?m = qm_capacity m" "qm_arr ?m = qm_arr m" "qm_data_list ?m = qm_data_list m"
    "queue_ids ?m = queue_ids m" "qm_ref ?m = (qm_ref m)[?k := qm_ref m ! ?k + 1]"
    "qm_queue ?m = qm_queue m" "qm_start ?m = qm_start m" "qm_end ?m = qm_end m" "qm_len ?m = qm_len m"
    by (simp_all add: PackageQueueMap_push_resend_def Let_def queue_ids_def)
  show r: "resend_ids ?m = resend_ids m @ [i]"
    using ring_list_snoc [OF refs_okD(4) [OF ok] room, of i]
    by (simp add: PackageQueueMap_push_resend_def Let_def resend_ids_def)
  have "ring_ok (qm_resend_queue ?m) (qm_capacity m) (qm_resend_start ?m) (qm_resend_end ?m) (qm_resend_len ?m)"
    using ring_ok_snoc [OF refs_okD(4) [OF ok] room, of i]
    by (simp add: PackageQueueMap_push_resend_def Let_def)
  moreover have "qm_live h ?m" using refs_okD(1) [OF ok] f(1-3) by (rule qm_live_cong)
  moreover have pl: "places ?m held j = places m held j + (if j = i then 1 else 0)" for j
    by (simp add: places_def r f(4) index_cong [OF f(1-3)])
  have "int (places ?m held (qm_arr m ! k)) \<le> qm_ref ?m ! k" if k: "k < qm_capacity m" "qm_arr m ! k \<noteq> 0" for k
  proof (cases "k = ?k")
    case True
    then have "qm_ref ?m ! k = qm_ref m ! k + 1" using k refs_okD(2) [OF ok] by (simp add: f(5))
    moreover have "int (places ?m held (qm_arr m ! k)) \<le> int (places m held (qm_arr m ! k)) + 1" by (simp add: pl)
    ultimately show ?thesis using refs_okD(7) [OF ok k] by linarith
  next
    case False
    then have "qm_arr m ! k \<noteq> i" using qm_liveD(5) [OF refs_okD(1) [OF ok] k] by auto
    with False show ?thesis using refs_okD(7) [OF ok k] by (simp add: pl f(5))
  qed
  ultimately show "refs_ok sid h ?m held"
    using ok i unfolding refs_ok_def f r by auto
qed

text \<open>Taking the next package: its place moves out of the map.\<close>

definition opt_add :: "nat option \<Rightarrow> nat option multiset \<Rightarrow> nat option multiset" where
  "opt_add p held = (if p = None then held else add_mset p held)"

lemma qm_pop_moves:
  assumes ok: "refs_ok sid h m held" and size: "PackageQueueMap_size m \<noteq> 0"
  shows "\<exists>i m1. PackageQueueMap_pop m = (PackageQueueMap_index i m, m1) \<and>
    qm_capacity m1 = qm_capacity m \<and> qm_arr m1 = qm_arr m \<and> qm_data_list m1 = qm_data_list m \<and>
    qm_ref m1 = qm_ref m \<and> i \<noteq> 0 \<and>
    (\<forall>j. count_list (queue_ids m1) j + count_list (resend_ids m1) j + (if j = i then 1 else 0)
       = count_list (queue_ids m) j + count_list (resend_ids m) j) \<and>
    ring_ok (qm_queue m1) (2 * qm_capacity m) (qm_start m1) (qm_end m1) (qm_len m1) \<and>
    ring_ok (qm_resend_queue m1) (qm_capacity m) (qm_resend_start m1) (qm_resend_end m1) (qm_resend_len m1) \<and>
    set (queue_ids m1) \<union> set (resend_ids m1) \<subseteq> set (queue_ids m) \<union> set (resend_ids m)"
proof (cases "0 < qm_resend_len m")
  case True
  let ?i = "qm_resend_queue m ! qm_resend_start m"
  let ?m1 = "m\<lparr>qm_resend_start := (qm_resend_start m + 1) mod qm_capacity m, qm_resend_len := qm_resend_len m - 1\<rparr>"
  have n: "ring_ok (qm_resend_queue m) (qm_capacity m) (qm_resend_start m) (qm_resend_end m) (Suc (qm_resend_len m - 1))"
    using refs_okD(4) [OF ok] True by simp
  have r: "resend_ids m = ?i # resend_ids ?m1"
    using ring_list_Cons [OF n] True by (simp add: resend_ids_def)
  have q: "queue_ids (m\<lparr>qm_resend_start := a, qm_resend_len := b\<rparr>) = queue_ids m" for a b
    by (simp add: queue_ids_def)
  have "PackageQueueMap_pop m = (PackageQueueMap_index ?i m, ?m1)"
    using True by (simp add: PackageQueueMap_pop_def PackageQueueMap_index_def)
  moreover have "?i \<noteq> 0" using refs_okD(5) [OF ok, of ?i] r by simp
  ultimately show ?thesis
    using ring_ok_tl [OF n] refs_okD(3) [OF ok] by (intro exI [of _ ?i] exI [of _ ?m1]) (auto simp: r q)
next
  case False
  then have l: "0 < qm_len m" using size by (simp add: PackageQueueMap_size_def)
  let ?i = "qm_queue m ! qm_start m"
  let ?m1 = "m\<lparr>qm_start := (qm_start m + 1) mod (2 * qm_capacity m), qm_len := qm_len m - 1\<rparr>"
  have n: "ring_ok (qm_queue m) (2 * qm_capacity m) (qm_start m) (qm_end m) (Suc (qm_len m - 1))"
    using refs_okD(3) [OF ok] l by simp
  have r: "queue_ids m = ?i # queue_ids ?m1"
    using ring_list_Cons [OF n] l by (simp add: queue_ids_def)
  have q: "resend_ids (m\<lparr>qm_start := a, qm_len := b\<rparr>) = resend_ids m" for a b
    by (simp add: resend_ids_def)
  have "PackageQueueMap_pop m = (PackageQueueMap_index ?i m, ?m1)"
    using False l by (simp add: PackageQueueMap_pop_def PackageQueueMap_index_def)
  moreover have "?i \<noteq> 0" using refs_okD(5) [OF ok, of ?i] r by simp
  ultimately show ?thesis
    using ring_ok_tl [OF n] refs_okD(4) [OF ok] by (intro exI [of _ ?i] exI [of _ ?m1]) (auto simp: r q)
qed

text \<open>Only one slot holds the package of an address.\<close>

lemma index_inj:
  assumes live: "qm_live h m" and k: "k < qm_capacity m" "qm_arr m ! k \<noteq> 0" and i: "i \<noteq> 0"
    and p: "PackageQueueMap_index i m = Some a" "PackageQueueMap_index (qm_arr m ! k) m = Some a"
  shows "qm_arr m ! k = i"
proof -
  let ?j = "slot (qm_capacity m) i"
  have j: "?j < qm_capacity m" using qm_liveD(1) [OF live] by (rule slot_less)
  have ai: "qm_arr m ! ?j = i" "qm_data_list m ! ?j = Some a"
    using p(1) by (auto simp: PackageQueueMap_index_def split: if_splits)
  have "qm_data_list m ! k = Some a" using p(2) index_slot [OF live k] by simp
  then have "k = ?j" using qm_liveD(7) [OF live k(1) j k(2)] ai i by simp
  with ai show ?thesis by simp
qed

lemma index_inj_id:
  assumes live: "qm_live h m" and i: "i \<noteq> 0" "j \<noteq> 0"
    and p: "PackageQueueMap_index i m = Some a" "PackageQueueMap_index j m = Some a"
  shows "i = j"
proof -
  have k: "slot (qm_capacity m) i < qm_capacity m" using qm_liveD(1) [OF live] by (rule slot_less)
  have "qm_arr m ! slot (qm_capacity m) i = i"
    using p(1) by (auto simp: PackageQueueMap_index_def split: if_splits)
  with index_inj [OF live k _ i(2) p(2)] i(1) p(1) show ?thesis by simp
qed

lemma refs_ok_pop:
  assumes ok: "refs_ok sid h m held" and size: "PackageQueueMap_size m \<noteq> 0"
    and pop: "PackageQueueMap_pop m = (p, m1)"
  shows "refs_ok sid h m1 (opt_add p held)" "qm_capacity m1 = qm_capacity m"
    "PackageQueueMap_index i m1 = PackageQueueMap_index i m"
    "PackageQueueMap_index i m \<noteq> None \<Longrightarrow> i \<noteq> 0 \<Longrightarrow> places m1 (opt_add p held) i = places m held i"
proof -
  obtain i where P: "p = PackageQueueMap_index i m" "qm_capacity m1 = qm_capacity m" "qm_arr m1 = qm_arr m"
    "qm_data_list m1 = qm_data_list m" "qm_ref m1 = qm_ref m" "i \<noteq> 0"
    "\<And>j. count_list (queue_ids m1) j + count_list (resend_ids m1) j + (if j = i then 1 else 0)
       = count_list (queue_ids m) j + count_list (resend_ids m) j"
    "ring_ok (qm_queue m1) (2 * qm_capacity m) (qm_start m1) (qm_end m1) (qm_len m1)"
    "ring_ok (qm_resend_queue m1) (qm_capacity m) (qm_resend_start m1) (qm_resend_end m1) (qm_resend_len m1)"
    "set (queue_ids m1) \<union> set (resend_ids m1) \<subseteq> set (queue_ids m) \<union> set (resend_ids m)"
    using qm_pop_moves [OF ok size] pop by auto
  note live = refs_okD(1) [OF ok]
  have ix: "PackageQueueMap_index j m1 = PackageQueueMap_index j m" for j using P(2-4) by (rule index_cong)
  show "qm_capacity m1 = qm_capacity m" by (rule P(2))
  show "PackageQueueMap_index i m1 = PackageQueueMap_index i m" for i by (rule ix)
  have same: "places m1 (opt_add p held) (qm_arr m ! k) = places m held (qm_arr m ! k)"
    if k: "k < qm_capacity m" "qm_arr m ! k \<noteq> 0" for k
  proof -
    let ?j = "qm_arr m ! k"
    obtain a where a: "PackageQueueMap_index ?j m = Some a"
      using index_slot [OF live k] qm_liveD(6) [OF live k] by auto
    have "p = Some a \<longleftrightarrow> ?j = i" using index_inj [OF live k P(6) _ a] P(1) a by auto
    then show ?thesis using P(7) [of ?j] a by (auto simp: places_def ix opt_add_def split: if_splits)
  qed
  show "places m1 (opt_add p held) i = places m held i" if "PackageQueueMap_index i m \<noteq> None" "i \<noteq> 0" for i
    using same [of "slot (qm_capacity m) i"] that slot_less [OF qm_liveD(1) [OF live], of i]
    by (auto simp: PackageQueueMap_index_def split: if_splits)
  have held: "\<exists>k < qm_capacity m. qm_arr m ! k \<noteq> 0 \<and> qm_data_list m ! k = q" if "q \<in># opt_add p held" for q
  proof (cases "q \<in># held")
    case True
    then show ?thesis by (rule refs_okD(6) [OF ok])
  next
    case False
    then have "q = p" "p \<noteq> None" using that by (auto simp: opt_add_def split: if_splits)
    then show ?thesis using P(1,6) slot_less [OF qm_liveD(1) [OF live], of i]
      by (intro exI [of _ "slot (qm_capacity m) i"]) (auto simp: PackageQueueMap_index_def split: if_splits)
  qed
  have live1: "qm_live h m1" using live P(2-4) by (rule qm_live_cong)
  have ids: "\<forall>i \<in> set (queue_ids m1) \<union> set (resend_ids m1). i \<noteq> 0 \<and> i < sid"
    using P(10) refs_okD(5) [OF ok] by blast
  have slots: "qm_arr m ! k < sid \<and> int (places m1 (opt_add p held) (qm_arr m ! k)) \<le> qm_ref m ! k \<and>
      (\<forall>a d. qm_data_list m ! k = Some a \<longrightarrow> hp_obj h a = Some d \<longrightarrow> pd_package_id d = qm_arr m ! k)"
    if "k < qm_capacity m" "qm_arr m ! k \<noteq> 0" for k
    using refs_okD(7,8) [OF ok that] by (simp add: same [OF that])
  show "refs_ok sid h m1 (opt_add p held)"
    unfolding refs_ok_def P(2-5) using live1 refs_okD(2) [OF ok] P(8,9) ids held slots by blast
qed

text \<open>Giving up one place lowers the count.\<close>

lemma refs_ok_deref:
  assumes ok: "refs_ok sid h m (add_mset p held)" and i: "i \<noteq> 0"
    and p: "PackageQueueMap_index i m = p" "p = Some a"
    and m1: "m1 = m\<lparr>qm_ref := (qm_ref m)[slot (qm_capacity m) i := qm_ref m ! slot (qm_capacity m) i - 1]\<rparr>"
  shows "refs_ok sid h m1 held"
proof -
  let ?k = "slot (qm_capacity m) i"
  note live = refs_okD(1) [OF ok] and D = refs_okD [OF ok]
  have k: "?k < qm_capacity m" using qm_liveD(1) [OF live] by (rule slot_less)
  have ai: "qm_arr m ! ?k = i" "qm_data_list m ! ?k = p"
    using p by (auto simp: PackageQueueMap_index_def split: if_splits)
  have f: "qm_capacity m1 = qm_capacity m" "qm_arr m1 = qm_arr m" "qm_data_list m1 = qm_data_list m"
    "queue_ids m1 = queue_ids m" "resend_ids m1 = resend_ids m"
    by (simp_all add: m1 queue_ids_def resend_ids_def)
  have pl: "places m1 held j = places m held j" for j by (simp add: places_def f index_cong [OF f(1-3)])
  have "int (places m held (qm_arr m ! j)) \<le> qm_ref m1 ! j"
    if j: "j < qm_capacity m" "qm_arr m ! j \<noteq> 0" for j
  proof (cases "j = ?k")
    case True
    then show ?thesis using D(2) D(7) [OF k] ai i k by (simp add: m1 places_def p(1))
  next
    case False
    then show ?thesis using D(7) [OF j] by (simp add: m1 places_def split: if_splits)
  qed
  moreover have "qm_live h m1" using live f(1-3) by (rule qm_live_cong)
  moreover have "length (qm_ref m1) = qm_capacity m"
    "ring_ok (qm_queue m1) (2 * qm_capacity m) (qm_start m1) (qm_end m1) (qm_len m1)"
    "ring_ok (qm_resend_queue m1) (qm_capacity m) (qm_resend_start m1) (qm_resend_end m1) (qm_resend_len m1)"
    using D(2-4) by (simp_all add: m1)
  ultimately show ?thesis unfolding refs_ok_def f pl using D(5-8) by auto
qed

text \<open>A package without places can be freed.\<close>

lemma refs_ok_free:
  assumes ok: "refs_ok sid h m held" and i: "i \<noteq> 0" and p: "PackageQueueMap_index i m = Some a"
    and z: "places m held i = 0"
    and h': "h' = h\<lparr>hp_obj := (hp_obj h)(a := None)\<rparr>"
    and m': "m' = m\<lparr>qm_arr := (qm_arr m)[slot (qm_capacity m) i := 0]\<rparr>"
  shows "refs_ok sid h' m' held" "\<And>b. Some b \<in># held \<Longrightarrow> hp_obj h' b = hp_obj h b"
    "\<And>j. j \<noteq> 0 \<Longrightarrow> j \<noteq> i \<Longrightarrow> PackageQueueMap_index j m' = PackageQueueMap_index j m"
proof -
  let ?k = "slot (qm_capacity m) i"
  note live = refs_okD(1) [OF ok] and D = refs_okD [OF ok]
  have k: "?k < qm_capacity m" using qm_liveD(1) [OF live] by (rule slot_less)
  have ai: "qm_arr m ! ?k = i" "qm_data_list m ! ?k = Some a"
    using p by (auto simp: PackageQueueMap_index_def split: if_splits)
  have nh: "Some a \<notin># held" using z p by (auto simp: places_def count_eq_zero_iff)
  have keep: "hp_obj h' b = hp_obj h b" if "b \<noteq> a" for b using that by (simp add: h')
  show held: "hp_obj h' b = hp_obj h b" if "Some b \<in># held" for b using that nh keep by metis
  have f: "qm_capacity m' = qm_capacity m" "qm_data_list m' = qm_data_list m" "queue_ids m' = queue_ids m"
    "resend_ids m' = resend_ids m" "qm_ref m' = qm_ref m" "qm_arr m' = (qm_arr m)[?k := 0]"
    by (simp_all add: m' queue_ids_def resend_ids_def)
  have arr: "qm_arr m' ! j = qm_arr m ! j \<and> qm_arr m ! j \<noteq> 0 \<and> j \<noteq> ?k \<and> qm_data_list m ! j \<noteq> Some a \<and>
      qm_arr m ! j \<noteq> i \<and> slot (qm_capacity m) (qm_arr m ! j) = j"
    if j: "j < qm_capacity m" "qm_arr m' ! j \<noteq> 0" for j
  proof -
    have n: "qm_arr m' ! j = qm_arr m ! j" "j \<noteq> ?k"
      using that k qm_liveD(2) [OF live] by (cases "j = ?k"; simp add: f(6))+
    with j(2) have nz: "qm_arr m ! j \<noteq> 0" by simp
    show ?thesis
      using n nz qm_liveD(7) [OF live j(1) k nz] qm_liveD(5) [OF live j(1) nz] ai i by auto
  qed
  show ix: "PackageQueueMap_index j m' = PackageQueueMap_index j m" if "j \<noteq> 0" "j \<noteq> i" for j
    using that k ai(1) qm_liveD(2) [OF live] by (auto simp: PackageQueueMap_index_def f nth_list_update)
  have slots: "qm_arr m' ! j < sid \<and> int (places m' held (qm_arr m' ! j)) \<le> qm_ref m' ! j \<and>
      (\<forall>b d. qm_data_list m' ! j = Some b \<longrightarrow> hp_obj h' b = Some d \<longrightarrow> pd_package_id d = qm_arr m' ! j)"
    if j: "j < qm_capacity m" "qm_arr m' ! j \<noteq> 0" for j
  proof -
    note a' = arr [OF j]
    have "places m' held (qm_arr m ! j) = places m held (qm_arr m ! j)"
      using ix [of "qm_arr m ! j"] a' by (simp add: places_def f)
    then show ?thesis using D(7,8) [OF j(1)] a' keep by (auto simp: f)
  qed
  have live': "qm_live h' m'"
    unfolding qm_live_def qm_shape_def f(1,2)
  proof (intro conjI allI impI)
    show "heap_ok h'" using qm_liveD(4) [OF live] by (simp add: heap_ok_def h')
    fix j l assume j: "j < qm_capacity m" "qm_arr m' ! j \<noteq> 0"
    note a' = arr [OF j]
    show "slot (qm_capacity m) (qm_arr m' ! j) = j" using a' by simp
    show "\<exists>b. qm_data_list m ! j = Some b \<and> hp_obj h' b \<noteq> None"
      using a' qm_liveD(6) [OF live j(1)] keep by (metis option.distinct(1))
    assume l: "l < qm_capacity m" "qm_arr m' ! l \<noteq> 0" "qm_data_list m ! j = qm_data_list m ! l"
    show "j = l" using qm_liveD(7) [OF live j(1) l(1) _ _ l(3)] a' arr [OF l(1,2)] by simp
  qed (use qm_liveD(1-3) [OF live] in \<open>simp_all add: f\<close>)
  have "\<exists>j < qm_capacity m. qm_arr m' ! j \<noteq> 0 \<and> qm_data_list m ! j = q" if q: "q \<in># held" for q
  proof -
    obtain j where j: "j < qm_capacity m" "qm_arr m ! j \<noteq> 0" "qm_data_list m ! j = q"
      using D(6) [OF q] by blast
    have "j \<noteq> ?k" using j(3) ai(2) nh q by auto
    then show ?thesis using j by (auto simp: f(6))
  qed
  moreover have "length (qm_ref m') = qm_capacity m"
    "ring_ok (qm_queue m') (2 * qm_capacity m) (qm_start m') (qm_end m') (qm_len m')"
    "ring_ok (qm_resend_queue m') (qm_capacity m) (qm_resend_start m') (qm_resend_end m') (qm_resend_len m')"
    using D(2-4) by (simp_all add: m')
  ultimately show "refs_ok sid h' m' held"
    unfolding refs_ok_def f(1,3,4) using live' D(5) slots by (auto simp: f(2))
qed

lemma refs_ok_erase:
  assumes ok: "refs_ok sid h m (add_mset p held)" and i: "i \<noteq> 0"
    and p: "PackageQueueMap_index i m = p" "p = Some a"
  shows "\<exists>h' m'. PackageQueueMap_erase i (h, m) = Inr (h', m') \<and> refs_ok sid h' m' held \<and>
     qm_capacity m' = qm_capacity m \<and> queue_ids m' = queue_ids m \<and> resend_ids m' = resend_ids m \<and>
     (\<forall>b. Some b \<in># held \<longrightarrow> hp_obj h' b = hp_obj h b) \<and>
     (\<forall>j. j \<noteq> 0 \<longrightarrow> j \<noteq> i \<longrightarrow> PackageQueueMap_index j m' = PackageQueueMap_index j m \<and>
        places m' held j = places m (add_mset p held) j)"
proof -
  let ?k = "slot (qm_capacity m) i"
  define m1 where "m1 = m\<lparr>qm_ref := (qm_ref m)[?k := qm_ref m ! ?k - 1]\<rparr>"
  note ok1 = refs_ok_deref [OF ok i p m1_def]
  have k: "?k < qm_capacity m" using qm_liveD(1) [OF refs_okD(1) [OF ok]] by (rule slot_less)
  have ai: "qm_arr m ! ?k = i" "qm_data_list m ! ?k = Some a"
    using p by (auto simp: PackageQueueMap_index_def split: if_splits)
  have f1: "qm_capacity m1 = qm_capacity m" "qm_arr m1 = qm_arr m" "qm_data_list m1 = qm_data_list m"
    "queue_ids m1 = queue_ids m" "resend_ids m1 = resend_ids m" "qm_ref m1 ! ?k = qm_ref m ! ?k - 1"
    using k refs_okD(2) [OF ok] by (simp_all add: m1_def queue_ids_def resend_ids_def)
  have ix: "PackageQueueMap_index j m1 = PackageQueueMap_index j m" for j using f1(1-3) by (rule index_cong)
  have pl: "places m' held j = places m (add_mset p held) j"
    if "j \<noteq> 0" "j \<noteq> i" "PackageQueueMap_index j m' = PackageQueueMap_index j m"
      "queue_ids m' = queue_ids m" "resend_ids m' = resend_ids m" for j m'
  proof -
    have "PackageQueueMap_index j m \<noteq> p"
      using index_inj_id [OF refs_okD(1) [OF ok] that(1) i, of a] that(2) p by auto
    then show ?thesis using that(3-5) by (simp add: places_def)
  qed
  show ?thesis
  proof (cases "qm_ref m ! ?k - 1 > 0")
    case True
    then have "PackageQueueMap_erase i (h, m) = Inr (h, m1)"
      using ai f1(6) by (simp add: PackageQueueMap_erase_def Let_def m1_def)
    with ok1 f1 ix pl show ?thesis by auto
  next
    case False
    have "int (places m1 held i) \<le> 0" using refs_okD(7) [OF ok1, of ?k] f1 ai i k False by simp
    then have z: "places m1 held i = 0" by simp
    define h' where "h' = h\<lparr>hp_obj := (hp_obj h)(a := None)\<rparr>"
    define m' where "m' = m1\<lparr>qm_arr := (qm_arr m1)[slot (qm_capacity m1) i := 0]\<rparr>"
    have p1: "PackageQueueMap_index i m1 = Some a" using p ix by simp
    note free = refs_ok_free [OF ok1 i p1 z h'_def m'_def]
    obtain d where d: "hp_obj h a = Some d"
      using qm_liveD(6) [OF refs_okD(1) [OF ok] k] ai i by auto
    have "PackageQueueMap_erase i (h, m) = Inr (h', m')"
      using False ai f1(6) d by (simp add: PackageQueueMap_erase_def Let_def m1_def m'_def h'_def heap_delete_def)
    moreover have "qm_capacity m' = qm_capacity m" "queue_ids m' = queue_ids m" "resend_ids m' = resend_ids m"
      by (simp_all add: m'_def m1_def queue_ids_def resend_ids_def)
    ultimately show ?thesis using free ix pl by simp
  qed
qed

text \<open>Storing a new package in a free slot.\<close>

lemma refs_ok_push:
  assumes ok: "refs_ok sid h m held" and sid: "sid \<noteq> 0" "sid < sid + 1"
    and free: "qm_arr m ! slot (qm_capacity m) sid = 0" and room: "qm_len m < 2 * qm_capacity m"
    and n: "heap_new d h = (a, h1)" and d: "pd_package_id d = sid"
  shows "\<exists>m'. PackageQueueMap_push a sid (h1, m) = Inr (h1, m') \<and> refs_ok (sid + 1) h1 m' held \<and>
     qm_capacity m' = qm_capacity m \<and> qm_arr m' = (qm_arr m)[slot (qm_capacity m) sid := sid] \<and>
     qm_len m' = qm_len m + 1 \<and> queue_ids m' = queue_ids m @ [sid] \<and> resend_ids m' = resend_ids m \<and>
     (\<forall>j. j \<noteq> 0 \<longrightarrow> PackageQueueMap_index j m \<noteq> None \<longrightarrow> PackageQueueMap_index j m' = PackageQueueMap_index j m)"
proof -
  let ?c = "qm_capacity m" let ?k = "slot ?c sid"
  note live = refs_okD(1) [OF ok] and D = refs_okD [OF ok]
  have k: "?k < ?c" using qm_liveD(1) [OF live] by (rule slot_less)
  define m' where "m' = m\<lparr>qm_queue := (qm_queue m)[qm_end m := sid],
      qm_end := (qm_end m + 1) mod (2 * ?c), qm_data_list := (qm_data_list m)[?k := Some a],
      qm_arr := (qm_arr m)[?k := sid], qm_ref := (qm_ref m)[?k := 1], qm_len := qm_len m + 1\<rparr>"
  have push: "PackageQueueMap_push a sid (h1, m) = Inr (h1, m')"
    using free by (simp add: PackageQueueMap_push_def Let_def m'_def)
  have live': "qm_live h1 m'" using qm_push_ok [OF live sid(1) n] push by auto
  have f: "qm_capacity m' = ?c" "qm_arr m' = (qm_arr m)[?k := sid]" "qm_data_list m' = (qm_data_list m)[?k := Some a]"
    "qm_ref m' = (qm_ref m)[?k := 1]" "resend_ids m' = resend_ids m" "qm_len m' = qm_len m + 1"
    by (simp_all add: m'_def resend_ids_def)
  have q: "queue_ids m' = queue_ids m @ [sid]"
    using ring_list_snoc [OF D(3) room, of sid] by (simp add: queue_ids_def m'_def)
  have a: "a = hp_next h" "hp_obj h1 = (hp_obj h)(a := Some d)" using n by (auto simp: heap_new_def)
  have fresh: "hp_obj h b \<noteq> None \<Longrightarrow> b \<noteq> a" for b using heap_ok_live [OF qm_liveD(4) [OF live], of b] a(1) by auto
  have old: "j \<noteq> ?k \<and> qm_arr m' ! j = qm_arr m ! j \<and> qm_data_list m' ! j = qm_data_list m ! j"
    if "j < ?c" "qm_arr m ! j \<noteq> 0" for j using that free by (cases "j = ?k") (simp_all add: f)
  have nheld: "Some a \<notin># held"
    using held_live [OF ok, of "Some a"] fresh by auto
  have ix: "PackageQueueMap_index j m' = PackageQueueMap_index j m" if "j \<noteq> 0" "PackageQueueMap_index j m \<noteq> None" for j
  proof -
    have "qm_arr m ! slot ?c j = j" using that(2) by (auto simp: PackageQueueMap_index_def split: if_splits)
    then show ?thesis using old [of "slot ?c j"] slot_less [OF qm_liveD(1) [OF live], of j] that(1)
      by (simp add: PackageQueueMap_index_def f(1))
  qed
  have new: "places m' held sid = 1"
  proof -
    have "count_list (queue_ids m) sid = 0" "count_list (resend_ids m) sid = 0"
      using D(5) by (auto simp: count_list_0_iff)
    moreover have "PackageQueueMap_index sid m' = Some a"
      using k qm_liveD(2,3) [OF live] by (simp add: PackageQueueMap_index_def f)
    ultimately show ?thesis using nheld by (simp add: places_def q f(5) count_eq_zero_iff)
  qed
  have slots: "qm_arr m' ! j < sid + 1 \<and> int (places m' held (qm_arr m' ! j)) \<le> qm_ref m' ! j \<and>
      (\<forall>b x. qm_data_list m' ! j = Some b \<longrightarrow> hp_obj h1 b = Some x \<longrightarrow> pd_package_id x = qm_arr m' ! j)"
    if j: "j < ?c" "qm_arr m' ! j \<noteq> 0" for j
  proof (cases "j = ?k")
    case True
    then show ?thesis using new k qm_liveD(2,3) [OF live] D(2) sid a(2) d by (auto simp: f)
  next
    case False
    then have nz: "qm_arr m ! j \<noteq> 0" using j(2) by (simp add: f)
    obtain b x where b: "qm_data_list m ! j = Some b" "hp_obj h b = Some x" using qm_liveD(6) [OF live j(1) nz] by blast
    have lt: "qm_arr m ! j < sid" using D(7) [OF j(1) nz] by blast
    have "PackageQueueMap_index (qm_arr m ! j) m \<noteq> None" using index_slot [OF live j(1) nz] b(1) by simp
    then have "places m' held (qm_arr m ! j) = places m held (qm_arr m ! j)"
      using ix [OF nz] lt by (simp add: places_def q f(5))
    then show ?thesis using D(7,8) [OF j(1) nz] old [OF j(1) nz] b fresh [of b] a(2) False sid(2)
      by (auto simp: f)
  qed
  have held: "\<exists>j < ?c. qm_arr m' ! j \<noteq> 0 \<and> qm_data_list m' ! j = p" if "p \<in># held" for p
    using D(6) [OF that] old by metis
  have ring: "ring_ok (qm_queue m') (2 * ?c) (qm_start m') (qm_end m') (qm_len m')"
    using ring_ok_snoc [OF D(3) room, of sid] by (simp add: m'_def)
  have ids: "\<forall>i \<in> set (queue_ids m @ [sid]) \<union> set (resend_ids m). i \<noteq> 0 \<and> i < sid + 1"
    using D(5) sid by (auto intro: order.strict_trans)
  have "refs_ok (sid + 1) h1 m' held"
    unfolding refs_ok_def f(1,5) q using live' D(2,4) ring ids held slots by (simp add: f(4)) (simp add: m'_def)
  with push f(1,2,5,6) q ix show ?thesis by blast
qed

text \<open>The same when the slot still holds a package without places, which is freed.\<close>

lemma refs_ok_reuse:
  assumes ok: "refs_ok sid h m held" and sid: "sid \<noteq> 0" "sid < sid + 1"
    and free: "qm_arr m ! slot (qm_capacity m) sid = 0 \<or>
        places m held (qm_arr m ! slot (qm_capacity m) sid) = 0"
    and room: "qm_len m < 2 * qm_capacity m"
    and n: "heap_new d h = (a, h1)" and d: "pd_package_id d = sid"
  shows "\<exists>h' m'. PackageQueueMap_push a sid (h1, m) = Inr (h', m') \<and> refs_ok (sid + 1) h' m' held \<and>
     qm_capacity m' = qm_capacity m \<and> qm_arr m' = (qm_arr m)[slot (qm_capacity m) sid := sid] \<and>
     qm_len m' = qm_len m + 1 \<and> queue_ids m' = queue_ids m @ [sid] \<and> resend_ids m' = resend_ids m \<and>
     (\<forall>b. Some b \<in># held \<longrightarrow> hp_obj h' b = hp_obj h b) \<and>
     (\<forall>j. j \<noteq> 0 \<longrightarrow> PackageQueueMap_index j m \<noteq> None \<longrightarrow> slot (qm_capacity m) j \<noteq> slot (qm_capacity m) sid \<longrightarrow>
        PackageQueueMap_index j m' = PackageQueueMap_index j m)"
proof (cases "qm_arr m ! slot (qm_capacity m) sid = 0")
  case True
  have keep: "hp_obj h1 b = hp_obj h b" if "Some b \<in># held" for b
    using held_live [OF ok that] heap_ok_live [OF qm_liveD(4) [OF refs_okD(1) [OF ok]], of b] n
    by (auto simp: heap_new_def)
  show ?thesis using refs_ok_push [OF ok sid True room n d] keep by blast
next
  case False
  let ?k = "slot (qm_capacity m) sid" let ?i = "qm_arr m ! ?k"
  note live = refs_okD(1) [OF ok]
  have k: "?k < qm_capacity m" using qm_liveD(1) [OF live] by (rule slot_less)
  obtain b x where b: "qm_data_list m ! ?k = Some b" "hp_obj h b = Some x" using qm_liveD(6) [OF live k False] by blast
  have ki: "slot (qm_capacity m) ?i = ?k" using qm_liveD(5) [OF live k False] .
  have ix: "PackageQueueMap_index ?i m = Some b" using index_slot [OF live k False] b(1) by simp
  have z: "places m held ?i = 0" using free False by blast
  define h0 where "h0 = h\<lparr>hp_obj := (hp_obj h)(b := None)\<rparr>"
  define m0 where "m0 = m\<lparr>qm_arr := (qm_arr m)[slot (qm_capacity m) ?i := 0]\<rparr>"
  note F = refs_ok_free [OF ok False ix z h0_def m0_def]
  have f0: "qm_capacity m0 = qm_capacity m" "qm_len m0 = qm_len m" "queue_ids m0 = queue_ids m"
    "resend_ids m0 = resend_ids m" "qm_arr m0 = (qm_arr m)[?k := 0]"
    by (simp_all add: m0_def queue_ids_def resend_ids_def ki)
  obtain h2 where n0: "heap_new d h0 = (a, h2)" using n by (simp add: heap_new_def h0_def)
  have ab: "a \<noteq> b" using n heap_ok_live [OF qm_liveD(4) [OF live], of b] b(2) by (auto simp: heap_new_def)
  have h2: "heap_delete (Some b) h1 = Inr h2"
    using n n0 ab b(2) by (auto simp: heap_new_def heap_delete_def h0_def fun_upd_twist)
  have free0: "qm_arr m0 ! slot (qm_capacity m0) sid = 0" using k qm_liveD(2) [OF live] by (simp add: f0)
  have room0: "qm_len m0 < 2 * qm_capacity m0" using room by (simp add: f0)
  from refs_ok_push [OF F(1) sid free0 room0 n0 d] obtain m' where P:
      "PackageQueueMap_push a sid (h2, m0) = Inr (h2, m')" "refs_ok (sid + 1) h2 m' held"
      "qm_capacity m' = qm_capacity m" "qm_arr m' = (qm_arr m0)[?k := sid]" "qm_len m' = qm_len m + 1"
      "queue_ids m' = queue_ids m @ [sid]" "resend_ids m' = resend_ids m"
      "\<forall>j. j \<noteq> 0 \<longrightarrow> PackageQueueMap_index j m0 \<noteq> None \<longrightarrow> PackageQueueMap_index j m' = PackageQueueMap_index j m0"
    unfolding f0(1-4) by blast
  have "PackageQueueMap_push a sid (h1, m) = Inr (h2, m')"
    using P(1) free0 False h2 b(1) unfolding PackageQueueMap_push_def
    by (simp add: Let_def f0(1,5)) (simp add: m0_def ki)
  moreover have "qm_arr m' = (qm_arr m)[?k := sid]" using P(4) by (simp add: f0(5))
  moreover have "hp_obj h2 c = hp_obj h c" if "Some c \<in># held" for c
  proof -
    have "c \<noteq> a" using held_live [OF ok that] heap_ok_live [OF qm_liveD(4) [OF live], of c] n
      by (auto simp: heap_new_def)
    moreover have "hp_obj h2 c = (if c = a then Some d else hp_obj h0 c)" using n0 by (auto simp: heap_new_def)
    ultimately show ?thesis using F(2) [OF that] by simp
  qed
  moreover have "PackageQueueMap_index j m' = PackageQueueMap_index j m"
    if "j \<noteq> 0" "PackageQueueMap_index j m \<noteq> None" "slot (qm_capacity m) j \<noteq> ?k" for j
  proof -
    have "j \<noteq> ?i" using that(3) ki by auto
    then show ?thesis using that(1,2) P(8) F(3) [OF that(1)] by simp
  qed
  ultimately show ?thesis using P(2,3,5-7) by blast
qed

lemma refs_ok_put:
  assumes ok: "refs_ok sid h m held" and a: "hp_obj h a = Some d" "pd_package_id d' = pd_package_id d"
  shows "refs_ok sid (heap_put a d' h) m held"
proof -
  note live = refs_okD(1) [OF ok] and D = refs_okD [OF ok]
  have o: "hp_obj (heap_put a d' h) b = (if b = a then Some d' else hp_obj h b)" for b by (simp add: heap_put_def)
  have "heap_ok (heap_put a d' h)"
    using qm_liveD(4) [OF live] heap_ok_live [of h a] a(1) by (auto simp: heap_ok_def heap_put_def)
  moreover have "hp_obj (heap_put a d' h) b \<noteq> None" if "hp_obj h b \<noteq> None" for b using that by (simp add: o)
  ultimately have "qm_live (heap_put a d' h) m" using live unfolding qm_live_def by blast
  moreover have "pd_package_id x = qm_arr m ! k"
    if "k < qm_capacity m" "qm_arr m ! k \<noteq> 0" "qm_data_list m ! k = Some b" "hp_obj (heap_put a d' h) b = Some x" for k b x
    using that D(8) [OF that(1-3)] a by (auto simp: o split: if_splits)
  ultimately show ?thesis unfolding refs_ok_def using D(2-7) by auto
qed

text \<open>
  The count is raised by every resend but lowered once: a package that was queued again is still
  stored after its acknowledgement, until its slot is needed for another one.
\<close>

lemma resent_package_kept:
  assumes "qm_arr m ! slot (qm_capacity m) i = i" "1 \<le> qm_ref m ! slot (qm_capacity m) i"
    "slot (qm_capacity m) i < length (qm_ref m)"
  shows "\<exists>m'. PackageQueueMap_erase i (h, PackageQueueMap_push_resend i m) = Inr (h, m') \<and>
     PackageQueueMap_index i m' = PackageQueueMap_index i m"
  using assms by (simp add: PackageQueueMap_erase_def PackageQueueMap_push_resend_def PackageQueueMap_index_def Let_def)

end
