(* ===== verification/RudpCounts.thy ===== *)
theory RudpCounts
  imports RudpRefs
begin

text \<open>
  How often a package was sent, compared with the reference count of its slot. A package that is given up
  after more than 20 transmissions is released and then looked at once more; \<open>counts_ok\<close> shows that
  the release never frees it, because every transmission but the first was paid for by a
  resend that raised the count.
\<close>

definition queued :: "packagequeuemap \<Rightarrow> u64 \<Rightarrow> nat" where
  "queued m i = count_list (queue_ids m) i + count_list (resend_ids m) i"

lemma index_arr:
  assumes "PackageQueueMap_index i m = Some a"
  shows "qm_arr m ! slot (qm_capacity m) i = i" "qm_data_list m ! slot (qm_capacity m) i = Some a"
  using assms by (simp_all add: PackageQueueMap_index_def split: if_split_asm)

text \<open>\<open>f i\<close> bounds the places that package \<open>i\<close> has ever had at the same time.\<close>

definition counts_ok :: "(u64 \<Rightarrow> int) \<Rightarrow> heap \<Rightarrow> packagequeuemap \<Rightarrow> nat option multiset \<Rightarrow> bool" where
  "counts_ok f h m held \<longleftrightarrow>
     (\<forall>i a d. i \<noteq> 0 \<longrightarrow> PackageQueueMap_index i m = Some a \<longrightarrow> hp_obj h a = Some d \<longrightarrow>
        pd_send_count d + int (queued m i) + int (places m held i) \<le> qm_ref m ! slot (qm_capacity m) i + f i)"

lemma counts_okD:
  "counts_ok f h m held \<Longrightarrow> i \<noteq> 0 \<Longrightarrow> PackageQueueMap_index i m = Some a \<Longrightarrow> hp_obj h a = Some d \<Longrightarrow>
   pd_send_count d + int (queued m i) + int (places m held i) \<le> qm_ref m ! slot (qm_capacity m) i + f i"
  unfolding counts_ok_def by blast

lemma counts_ok_mono: "counts_ok f h m held \<Longrightarrow> (\<And>i. f i \<le> g i) \<Longrightarrow> counts_ok g h m held"
  unfolding counts_ok_def by (meson add_left_mono order_trans)

lemma places_fewer: "held' \<subseteq># held \<Longrightarrow> places m held' i \<le> places m held i"
  using mset_subset_eq_count by (fastforce simp: places_def)

lemma counts_ok_fewer:
  assumes "counts_ok f h m held" "held' \<subseteq># held"
  shows "counts_ok f h m held'"
  unfolding counts_ok_def
proof (intro allI impI)
  fix i a d
  assume "i \<noteq> 0" "PackageQueueMap_index i m = Some a" "hp_obj h a = Some d"
  from counts_okD [OF assms(1) this] places_fewer [OF assms(2), of m i]
  show "pd_send_count d + int (queued m i) + int (places m held' i) \<le> qm_ref m ! slot (qm_capacity m) i + f i" by linarith
qed

lemma counts_ok_drop:
  assumes "counts_ok f h m (add_mset p held)" "PackageQueueMap_index i m = p"
  shows "counts_ok (f(i := f i - 1)) h m held"
  unfolding counts_ok_def
proof (intro allI impI)
  fix j a d
  assume j: "j \<noteq> 0" "PackageQueueMap_index j m = Some a" "hp_obj h a = Some d"
  have "places m held j + (if j = i then 1 else 0) \<le> places m (add_mset p held) j"
    using assms(2) by (simp add: places_def)
  with counts_okD [OF assms(1) j]
  show "pd_send_count d + int (queued m j) + int (places m held j) \<le>
      qm_ref m ! slot (qm_capacity m) j + (f(i := f i - 1)) j" by (cases "j = i") auto
qed

lemma counts_ok_new: "counts_ok f heap_empty (PackageQueueMap_new cap) {#}"
  by (simp add: counts_ok_def heap_empty_def)

section \<open>The operations of the map\<close>

lemma counts_ok_push_resend:
  assumes ok: "refs_ok sid h m held" and c: "counts_ok f h m held" and i: "i \<noteq> 0" "i < sid"
    and room: "qm_resend_len m < qm_capacity m"
  shows "counts_ok (f(i := f i + 1)) h (PackageQueueMap_push_resend i m) held"
  unfolding counts_ok_def
proof (intro allI impI)
  let ?m = "PackageQueueMap_push_resend i m"
  note fr = push_resend_frame [where i = i and m = m]
  fix j a d
  assume j: "j \<noteq> 0" "PackageQueueMap_index j ?m = Some a" "hp_obj h a = Some d"
  have ix: "PackageQueueMap_index j m = Some a" using j(2) fr(6) by simp
  have k: "slot (qm_capacity m) i < length (qm_ref m)"
    using slot_less [OF qm_liveD(1) [OF refs_okD(1) [OF ok]]] refs_okD(2) [OF ok] by simp
  have r: "qm_ref ?m ! slot (qm_capacity m) j \<ge> qm_ref m ! slot (qm_capacity m) j + (if j = i then 1 else 0)"
    using k by (simp add: PackageQueueMap_push_resend_def Let_def nth_list_update)
  have "resend_ids ?m = resend_ids m @ [i]" by (rule refs_ok_push_resend(2) [OF ok i room])
  then have "queued ?m j = queued m j + (if j = i then 1 else 0)"
    "places ?m held j = places m held j + (if j = i then 1 else 0)"
    using fr(5,6) by (simp_all add: queued_def places_def)
  with counts_okD [OF c j(1) ix j(3)] r
  show "pd_send_count d + int (queued ?m j) + int (places ?m held j) \<le>
      qm_ref ?m ! slot (qm_capacity ?m) j + (f(i := f i + 1)) j"
    unfolding fr(1) by (cases "j = i") auto
qed

lemma counts_ok_fold:
  "refs_ok sid h m held \<Longrightarrow> counts_ok f h m held \<Longrightarrow> \<forall>i \<in> set is. i \<noteq> 0 \<and> i < sid \<Longrightarrow>
   qm_resend_len m + length is \<le> qm_capacity m \<Longrightarrow>
   counts_ok (\<lambda>i. f i + int (count_list is i)) h (fold PackageQueueMap_push_resend is m) held"
proof (induction "is" arbitrary: m f)
  case (Cons i "is")
  let ?m = "PackageQueueMap_push_resend i m"
  have room: "qm_resend_len m < qm_capacity m" using Cons.prems(4) by simp
  have i: "i \<noteq> 0" "i < sid" using Cons.prems(3) by auto
  note fr = push_resend_frame [where i = i and m = m]
  have "counts_ok (\<lambda>j. (f(i := f i + 1)) j + int (count_list is j)) h (fold PackageQueueMap_push_resend is ?m) held"
    using Cons.prems(3,4) fr(1,4)
    by (intro Cons.IH refs_ok_push_resend(1) [OF Cons.prems(1) i room] counts_ok_push_resend [OF Cons.prems(1,2) i room]) simp_all
  then have "counts_ok (\<lambda>j. f j + int (count_list (i # is) j)) h (fold PackageQueueMap_push_resend is ?m) held"
    by (rule counts_ok_mono) auto
  then show ?case by simp
qed simp

lemma counts_ok_pop:
  assumes ok: "refs_ok sid h m held" and c: "counts_ok f h m held" and size: "PackageQueueMap_size m \<noteq> 0"
    and pop: "PackageQueueMap_pop m = (p, m1)"
  shows "\<exists>i. i \<noteq> 0 \<and> p = PackageQueueMap_index i m \<and> counts_ok (f(i := f i - 1)) h m1 (opt_add p held)"
proof -
  obtain i where P: "p = PackageQueueMap_index i m" "qm_capacity m1 = qm_capacity m" "qm_ref m1 = qm_ref m" "i \<noteq> 0"
    "\<And>j. queued m1 j + (if j = i then 1 else 0) = queued m j"
    using qm_pop_moves [OF ok size] pop by (auto simp: queued_def)
  note R = refs_ok_pop [OF ok size pop]
  have "counts_ok (f(i := f i - 1)) h m1 (opt_add p held)"
    unfolding counts_ok_def
  proof (intro allI impI)
    fix j a d
    assume j: "j \<noteq> 0" "PackageQueueMap_index j m1 = Some a" "hp_obj h a = Some d"
    have ix: "PackageQueueMap_index j m = Some a" using j(2) R(3) by simp
    have "places m1 (opt_add p held) j = places m held j" using R(4) [of j] ix j(1) by simp
    with counts_okD [OF c j(1) ix j(3)] P(5) [of j]
    show "pd_send_count d + int (queued m1 j) + int (places m1 (opt_add p held) j) \<le>
        qm_ref m1 ! slot (qm_capacity m1) j + (f(i := f i - 1)) j"
      unfolding P(2,3) by (cases "j = i") auto
  qed
  with P(1,4) show ?thesis by blast
qed

lemma counts_ok_put:
  assumes ok: "refs_ok sid h m held" and c: "counts_ok (f(i := f i - 1)) h m held"
    and i: "i \<noteq> 0" "PackageQueueMap_index i m = Some a"
    and d: "hp_obj h a = Some d" "pd_send_count d' = pd_send_count d + 1"
  shows "counts_ok f (heap_put a d' h) m held"
  unfolding counts_ok_def
proof (intro allI impI)
  fix j b x
  assume j: "j \<noteq> 0" "PackageQueueMap_index j m = Some b" "hp_obj (heap_put a d' h) b = Some x"
  show "pd_send_count x + int (queued m j) + int (places m held j) \<le> qm_ref m ! slot (qm_capacity m) j + f j"
  proof (cases "j = i")
    case True
    then have "b = a" "x = d'" using i(2) j by (auto simp: heap_put_def)
    then show ?thesis using counts_okD [OF c i d(1)] d(2) True by simp
  next
    case False
    then have "b \<noteq> a" using index_inj_id [OF refs_okD(1) [OF ok] j(1) i(1) j(2)] i(2) by auto
    then have "hp_obj h b = Some x" using j(3) by (simp add: heap_put_def)
    then show ?thesis using counts_okD [OF c j(1,2)] False by simp
  qed
qed

text \<open>\<open>erase\<close> gives up one place and one reference.\<close>

lemma counts_ok_erase:
  assumes ok: "refs_ok sid h m (add_mset p held)" and c: "counts_ok f h m (add_mset p held)" and i: "i \<noteq> 0"
    and p: "PackageQueueMap_index i m = p" "p = Some a"
    and e: "PackageQueueMap_erase i (h, m) = Inr (h', m')"
  shows "counts_ok f h' m' held"
proof -
  let ?k = "slot (qm_capacity m) i"
  note live = refs_okD(1) [OF ok]
  have k: "?k < qm_capacity m" using qm_liveD(1) [OF live] by (rule slot_less)
  have ai: "qm_arr m ! ?k = i" "qm_data_list m ! ?k = Some a"
    using p by (auto simp: PackageQueueMap_index_def split: if_splits)
  define m1 where "m1 = m\<lparr>qm_ref := (qm_ref m)[?k := qm_ref m ! ?k - 1]\<rparr>"
  have f1: "qm_capacity m1 = qm_capacity m" "qm_arr m1 = qm_arr m" "qm_data_list m1 = qm_data_list m"
    "queue_ids m1 = queue_ids m" "resend_ids m1 = resend_ids m" "qm_ref m1 ! ?k = qm_ref m ! ?k - 1"
    using k refs_okD(2) [OF ok] by (simp_all add: m1_def queue_ids_def resend_ids_def)
  have ix: "PackageQueueMap_index j m1 = PackageQueueMap_index j m" for j using f1(1-3) by (rule index_cong)
  have q: "queued m1 j = queued m j" "places m1 held j = places m held j" for j
    by (simp_all add: queued_def places_def f1 ix)
  have "counts_ok (f(i := f i - 1)) h m held" using counts_ok_drop [OF c p(1)] .
  then have c0: "j \<noteq> 0 \<Longrightarrow> PackageQueueMap_index j m = Some b \<Longrightarrow> hp_obj h b = Some d \<Longrightarrow>
      pd_send_count d + int (queued m j) + int (places m held j) \<le> qm_ref m ! slot (qm_capacity m) j + (f(i := f i - 1)) j" for j b d
    by (rule counts_okD)
  have c1: "counts_ok f h m1 held"
    unfolding counts_ok_def ix q f1(1)
  proof (intro allI impI)
    fix j b d
    assume j: "j \<noteq> 0" "PackageQueueMap_index j m = Some b" "hp_obj h b = Some d"
    show "pd_send_count d + int (queued m j) + int (places m held j) \<le> qm_ref m1 ! slot (qm_capacity m) j + f j"
    proof (cases "slot (qm_capacity m) j = ?k")
      case True
      have "qm_arr m ! slot (qm_capacity m) j = j" using index_arr [OF j(2)] by simp
      then have "j = i" unfolding True ai(1) by (rule sym)
      then show ?thesis using c0 [OF j] f1(6) by simp
    next
      case False
      then have "j \<noteq> i" by auto
      then show ?thesis using c0 [OF j] False by (simp add: m1_def)
    qed
  qed
  show ?thesis
  proof (cases "qm_ref m1 ! ?k > 0")
    case True
    then have "h' = h" "m' = m1" using e ai(1) by (simp_all add: PackageQueueMap_erase_def Let_def m1_def)
    with c1 show ?thesis by simp
  next
    case False
    then have "bind_out (heap_delete (Some a) h) (\<lambda>h. Inr (h, m1\<lparr>qm_arr := (qm_arr m1)[?k := 0]\<rparr>)) = Inr (h', m')"
      using e ai by (simp add: PackageQueueMap_erase_def Let_def m1_def)
    then have r: "h' = h\<lparr>hp_obj := (hp_obj h)(a := None)\<rparr>" "m' = m1\<lparr>qm_arr := (qm_arr m1)[?k := 0]\<rparr>"
      by (cases "hp_obj h a = None"; simp add: heap_delete_def)+
    have "counts_ok f h' m' held"
      unfolding counts_ok_def
    proof (intro allI impI)
      fix j b d
      assume j: "j \<noteq> 0" "PackageQueueMap_index j m' = Some b" "hp_obj h' b = Some d"
      have "b \<noteq> a" "hp_obj h b = Some d" using j(3) by (auto simp: r(1) split: if_splits)
      moreover have "slot (qm_capacity m) j \<noteq> ?k"
        using j(1,2) k qm_liveD(2) [OF live] by (auto simp: PackageQueueMap_index_def r(2) f1 split: if_splits)
      then have "PackageQueueMap_index j m1 = Some b"
        using j(2) f1(1-3) unfolding r(2) PackageQueueMap_index_def by (simp split: if_split_asm)
      moreover have "queued m' j = queued m1 j" "places m' held j = places m1 held j"
        using calculation j(2) by (simp_all add: queued_def places_def queue_ids_def resend_ids_def r(2))
      ultimately show "pd_send_count d + int (queued m' j) + int (places m' held j) \<le> qm_ref m' ! slot (qm_capacity m') j + f j"
        using counts_okD [OF c1 j(1), of b d] by (simp add: r(2))
    qed
    then show ?thesis .
  qed
qed

text \<open>A package that was sent more than 20 times has more than one reference left, so \<open>erase\<close> does not free it.\<close>

lemma counts_ok_kept:
  assumes ok: "refs_ok sid h m (add_mset p held)" and c: "counts_ok f h m (add_mset p held)" and i: "i \<noteq> 0" "f i \<le> 2"
    and p: "PackageQueueMap_index i m = p" "p = Some a" and d: "hp_obj h a = Some d" "20 < pd_send_count d"
  shows "\<exists>m'. PackageQueueMap_erase i (h, m) = Inr (h, m')"
proof -
  let ?k = "slot (qm_capacity m) i"
  have k: "?k < length (qm_ref m)"
    using slot_less [OF qm_liveD(1) [OF refs_okD(1) [OF ok]]] refs_okD(2) [OF ok] by simp
  have "qm_arr m ! ?k = i" using p by (auto simp: PackageQueueMap_index_def split: if_splits)
  moreover have "1 < qm_ref m ! ?k" using counts_okD [OF c i(1) _ d(1)] p d(2) i(2) by simp
  ultimately show ?thesis using k by (simp add: PackageQueueMap_erase_def Let_def)
qed

lemma count_list_0: "(\<And>x. x \<in> set xs \<Longrightarrow> x \<noteq> y) \<Longrightarrow> count_list xs y = 0"
  by (induction xs) auto

lemma counts_ok_reuse:
  assumes ok: "refs_ok sid h m held" and c: "counts_ok f h m held" and sid: "sid \<noteq> 0" "1 \<le> f sid"
    and n: "heap_new d h = (a, h1)" and d: "pd_send_count d = 0"
    and push: "PackageQueueMap_push a sid (h1, m) = Inr (h', m')"
    and ids: "queue_ids m' = queue_ids m @ [sid]" "resend_ids m' = resend_ids m"
  shows "counts_ok f h' m' held"
proof -
  let ?c = "qm_capacity m" let ?k = "slot ?c sid"
  note live = refs_okD(1) [OF ok]
  have k: "?k < ?c" using qm_liveD(1) [OF live] by (rule slot_less)
  have hn: "hp_obj h1 = (hp_obj h)(a := Some d)" "hp_obj h a = None"
    using n qm_liveD(4) [OF live] by (auto simp: heap_new_def heap_ok_def)
  have push': "bind_out (if qm_arr m ! ?k \<noteq> 0 then heap_delete (qm_data_list m ! ?k) h1 else Inr h1)
      (\<lambda>h. Inr (h, m\<lparr>qm_queue := (qm_queue m)[qm_end m := sid], qm_end := (qm_end m + 1) mod (2 * ?c),
        qm_data_list := (qm_data_list m)[?k := Some a], qm_arr := (qm_arr m)[?k := sid],
        qm_ref := (qm_ref m)[?k := 1], qm_len := qm_len m + 1\<rparr>)) = Inr (h', m')"
    using push by (simp add: PackageQueueMap_push_def Let_def)
  obtain h2 where h2: "(if qm_arr m ! ?k \<noteq> 0 then heap_delete (qm_data_list m ! ?k) h1 else Inr h1) = Inr h2"
    "h' = h2" "qm_capacity m' = ?c" "qm_arr m' = (qm_arr m)[?k := sid]" "qm_data_list m' = (qm_data_list m)[?k := Some a]"
    "qm_ref m' = (qm_ref m)[?k := 1]"
    using push' unfolding bind_out_eq_Inr_iff by auto
  have sub: "hp_obj h' b = Some x \<Longrightarrow> hp_obj h1 b = Some x" for b x
    using h2(1,2) by (auto simp: heap_delete_def split: if_splits option.splits)
  have fresh: "Some a \<notin># held" using held_live [OF ok, of "Some a"] hn(2) by auto
  show ?thesis
    unfolding counts_ok_def
  proof (intro allI impI)
    fix j b x
    assume j: "j \<noteq> 0" "PackageQueueMap_index j m' = Some b" "hp_obj h' b = Some x"
    show "pd_send_count x + int (queued m' j) + int (places m' held j) \<le> qm_ref m' ! slot (qm_capacity m') j + f j"
    proof (cases "slot ?c j = ?k")
      case True
      have at: "qm_arr m' ! ?k = sid" "qm_data_list m' ! ?k = Some a"
        using k qm_liveD(2,3) [OF live] by (simp_all add: h2(4,5))
      have "qm_arr m' ! ?k = j" "qm_data_list m' ! ?k = Some b"
        using index_arr [OF j(2)] unfolding h2(3) True by blast+
      with at have b: "j = sid" "b = a" by simp_all
      then have "x = d" using sub [OF j(3)] by (simp add: hn(1))
      moreover have "count_list (queue_ids m) sid = 0" "count_list (resend_ids m) sid = 0"
        using refs_okD(5) [OF ok] by (auto intro!: count_list_0)
      moreover have "PackageQueueMap_index sid m' = Some a" using j(2) b by simp
      ultimately show ?thesis using b d sid(2) fresh k refs_okD(2) [OF ok]
        by (simp add: queued_def places_def ids h2 not_in_iff)
    next
      case False
      then have "qm_arr m ! slot ?c j = j" "qm_data_list m ! slot ?c j = Some b"
        using index_arr [OF j(2)] unfolding h2(3-5) by simp_all
      then have ix: "PackageQueueMap_index j m = Some b" by (simp add: PackageQueueMap_index_def)
      have "hp_obj h b = Some x"
      proof -
        have "qm_arr m ! slot ?c j = j" "qm_data_list m ! slot ?c j = Some b"
          using ix by (auto simp: PackageQueueMap_index_def split: if_splits)
        then have "hp_obj h b \<noteq> None"
          using qm_liveD(6) [OF live slot_less [OF qm_liveD(1) [OF live]], of j] j(1) by auto
        then have "b \<noteq> a" using hn(2) by auto
        then show ?thesis using sub [OF j(3)] by (simp add: hn(1))
      qed
      moreover have "j \<noteq> sid" using False by auto
      then have "queued m' j = queued m j" "places m' held j = places m held j"
        using ix j(2) by (simp_all add: queued_def places_def ids)
      ultimately show ?thesis using counts_okD [OF c j(1) ix] False by (simp add: h2)
    qed
  qed
qed

end
