(* ===== verification/RudpTracking.thy ===== *)
theory RudpTracking
  imports RudpCounts
begin

text \<open>
  What becomes of a package on the sending side, over all interleavings of the threads. The addresses
  outside \<open>PackageQueueMap\<close> are the entries of \<open>AckWaitList\<close> and the package the acknowledgement
  handler looks at. The lemmas show that every thread keeps the invariant \<open>refs_ok\<close>, so none of
  them uses freed memory, and that a package leaves the queues, the wait list and the handler only
  when it was acknowledged or given up.
\<close>

section \<open>The sending threads\<close>

definition held_by :: "rsock \<Rightarrow> nat option multiset" where
  "held_by s = opt_add (so_ack_cur s) (mset (wl_entries (so_ack_pool s)))"

text \<open>A package gets at most one more place: the fast resend takes each identifier once.\<close>

definition resend_bound :: "u64 \<Rightarrow> u64 \<Rightarrow> int" where
  "resend_bound r i = (if i \<le> r then 2 else 1)"

lemma resend_bound_mono: "r \<le> r' \<Longrightarrow> resend_bound r i \<le> resend_bound r' i"
  by (auto simp: resend_bound_def)

definition snd_inv :: "rsock \<Rightarrow> bool" where
  "snd_inv s \<longleftrightarrow> refs_ok (so_send_id s) (so_send_heap s) (so_send_pool s) (held_by s) \<and>
     wl_ok (so_send_heap s) (so_ack_pool s) \<and> wl_capacity (so_ack_pool s) = qm_capacity (so_send_pool s) \<and>
     so_send_id s \<noteq> 0 \<and> so_send_id s < 2 ^ 63 \<and> so_resend_now s < 2 ^ 63 \<and>
     counts_ok (resend_bound (so_resend_now s)) (so_send_heap s) (so_send_pool s) (held_by s)"

text \<open>A stored package that some thread will still look at.\<close>

definition tracked :: "rsock \<Rightarrow> u64 \<Rightarrow> bool" where
  "tracked s i \<longleftrightarrow> i \<noteq> 0 \<and> PackageQueueMap_index i (so_send_pool s) \<noteq> None \<and>
     0 < places (so_send_pool s) (held_by s) i"

definition acknowledged :: "rsock \<Rightarrow> u64 \<Rightarrow> bool" where
  "acknowledged s i \<longleftrightarrow> i \<le> so_send_ack_id s \<or> acked (so_ack_recv_pool s) i"

definition given_up :: "rsock \<Rightarrow> u64 \<Rightarrow> bool" where
  "given_up s i \<longleftrightarrow> (\<exists>d. qm_get (so_send_heap s) (so_send_pool s) i = Some d \<and> 20 < pd_send_count d)"

definition snd_part :: "rsock \<Rightarrow> _" where
  "snd_part s = (so_send_id s, so_send_heap s, so_send_pool s, so_ack_pool s, so_ack_cur s, so_resend_now s)"

lemma snd_cong:
  assumes "snd_part s' = snd_part s"
  shows "snd_inv s' = snd_inv s" "tracked s' i = tracked s i"
  using assms by (simp_all add: snd_part_def snd_inv_def tracked_def held_by_def)

lemma wl_ok_heap:
  assumes ok: "wl_ok h w"
    and same: "\<And>p d. p \<in> set (wl_entries w) \<Longrightarrow> heap_get p h = Inr d \<Longrightarrow>
        \<exists>d'. heap_get p h' = Inr d' \<and> pd_package_id d' = pd_package_id d"
  shows "wl_ok h' w"
proof -
  have k: "wl_key h' c p = wl_key h c p" if "p \<in> set (wl_entries w)" for c p
  proof -
    obtain d where "heap_get p h = Inr d" using ok \<open>p \<in> set (wl_entries w)\<close> by (auto simp: wl_ok_def)
    with same [OF \<open>p \<in> set (wl_entries w)\<close> this] show ?thesis by (auto simp: wl_key_def)
  qed
  then have "filter (\<lambda>p. wl_key h' c p = j) (wl_entries w) = filter (\<lambda>p. wl_key h c p = j) (wl_entries w)" for c j
    by (intro filter_cong) auto
  moreover have "\<exists>d. heap_get p h' = Inr d" if "p \<in> set (wl_entries w)" for p
    using ok same that by (fastforce simp: wl_ok_def)
  ultimately show ?thesis using ok by (simp add: wl_ok_def)
qed

lemma sender_send_safe:
  assumes inv: "snd_inv s" and room: "wl_len (so_ack_pool s) < int (wl_capacity (so_ack_pool s))"
  shows "\<exists>s' dgs. sender_send now s = Inr (s', dgs) \<and> snd_inv s' \<and> so_send_id s' = so_send_id s \<and>
     (\<forall>i. tracked s i \<longrightarrow> tracked s' i)"
proof (cases "PackageQueueMap_size (so_send_pool s) = 0")
  case True
  then show ?thesis using inv by (simp add: sender_send_def)
next
  case False
  let ?h = "so_send_heap s" let ?m = "so_send_pool s" let ?w = "so_ack_pool s"
  let ?f = "resend_bound (so_resend_now s)"
  have ok: "refs_ok (so_send_id s) ?h ?m (held_by s)" and wl: "wl_ok ?h ?w"
    and cnt: "counts_ok ?f ?h ?m (held_by s)" using inv by (simp_all add: snd_inv_def)
  obtain p m1 where pop: "PackageQueueMap_pop ?m = (p, m1)" by fastforce
  note P = refs_ok_pop [OF ok False pop]
  obtain j where j: "j \<noteq> 0" "p = PackageQueueMap_index j ?m" "counts_ok (?f(j := ?f j - 1)) ?h m1 (opt_add p (held_by s))"
    using counts_ok_pop [OF ok cnt False pop] by blast
  define s1 where "s1 = s\<lparr>so_send_pool := m1\<rparr>"
  show ?thesis
  proof (cases p)
    case None
    have hs: "held_by s1 = held_by s" by (simp add: s1_def held_by_def)
    have "counts_ok ?f ?h m1 (held_by s)" using j(3) None by (auto simp: opt_add_def elim!: counts_ok_mono)
    then have "snd_inv s1" "tracked s i \<Longrightarrow> tracked s1 i" for i
      using inv P None hs by (auto simp: snd_inv_def tracked_def s1_def opt_add_def)
    moreover have "so_send_id s1 = so_send_id s" by (simp add: s1_def)
    moreover have "sender_send now s = Inr (s1, [])" using False pop None by (simp add: sender_send_def s1_def)
    ultimately show ?thesis by blast
  next
    case (Some a)
    have "Some a \<in># opt_add p (held_by s)" using Some by (simp add: opt_add_def)
    then obtain d where d: "hp_obj ?h a = Some d" using held_live [OF P(1)] by fastforce
    define d' where "d' = d\<lparr>pd_una := so_recv_ack_id s, pd_send_count := pd_send_count d + 1, pd_send_time := now\<rparr>"
    define h where "h = heap_put a d' ?h"
    have id: "pd_package_id d' = pd_package_id d" by (simp add: d'_def)
    have "wl_ok h ?w"
      using wl d id by (elim wl_ok_heap) (auto simp: heap_get_def h_def heap_put_def of_option_def split: option.splits if_splits)
    then obtain w where w: "AckWaitList_push a h ?w = Inr w" "wl_ok h w" "wl_capacity w = wl_capacity ?w"
        "wl_entries w = wl_entries ?w @ [Some a]"
      using AckWaitList_push_ok [OF _ room, of h a d'] by (auto simp: h_def heap_put_def)
    define s2 where "s2 = (let n = so_fast_start_count s1 + 1 in
       if so_fast_start s1
       then if n = 10 then s1\<lparr>so_fast_start_count := 0, so_fast_start := False\<rparr>
            else s1\<lparr>so_fast_start_count := n\<rparr>
       else s1)"
    define s' where "s' = s2\<lparr>so_send_heap := h, so_ack_pool := w\<rparr>"
    have f: "so_send_id s' = so_send_id s" "so_send_heap s' = h" "so_send_pool s' = m1" "so_ack_pool s' = w"
      "so_ack_cur s' = so_ack_cur s" "so_resend_now s' = so_resend_now s"
      by (simp_all add: s'_def s2_def s1_def Let_def)
    have held: "held_by s' = opt_add p (held_by s)"
      using Some by (simp add: held_by_def f w(4) opt_add_def)
    have "refs_ok (so_send_id s) h m1 (held_by s')"
      unfolding held h_def using P(1) d id by (rule refs_ok_put)
    moreover have "counts_ok ?f h m1 (held_by s')"
      unfolding held h_def using j(2) P(3) [of j] Some
      by (intro counts_ok_put [OF P(1) j(3,1) _ d]) (simp_all add: d'_def)
    ultimately have "snd_inv s'" using inv w(2,3) P(2) by (simp add: snd_inv_def f)
    moreover have "tracked s' i" if "tracked s i" for i
      using that P(3,4) [of i] by (simp add: tracked_def f held)
    moreover have "\<exists>dgs. sender_send now s = Inr (s', dgs)"
      using False pop Some d w(1)
      by (cases "so_fast_start s"; cases "so_fast_start_count s = 9")
        (simp_all add: sender_send_def s'_def s2_def s1_def heap_get_def h_def d'_def Let_def)
    ultimately show ?thesis using f(1) by blast
  qed
qed

text \<open>The acknowledgement handler takes an entry; entries it skips have a later one.\<close>

lemma awl_pop_kept:
  assumes "awl_pop_spec key xs = y # ys" "x \<in> set xs" "\<And>z. z \<in> set xs \<Longrightarrow> key z = key x \<Longrightarrow> z = x"
  shows "x \<in> set (y # ys)"
proof -
  have "key x \<in> key ` set (awl_pop_spec key xs)"
    using awl_pop_spec_keeps [of key xs] assms(2) by force
  then obtain z where z: "z \<in> set (y # ys)" "key z = key x" unfolding assms(1) by (metis imageE)
  obtain pre where "xs = pre @ y # ys" using awl_pop_spec_suffix [of xs key] assms(1) by auto
  with z assms(3) show ?thesis by auto
qed

lemma held_key:
  assumes ok: "refs_ok sid h m held" and p: "p \<in># held" "q \<in># held" "wl_key h (qm_capacity m) p = wl_key h (qm_capacity m) q"
  shows "p = q"
proof -
  obtain a d where A: "p = Some a" "hp_obj h a = Some d" "qm_data_list m ! slot (qm_capacity m) (pd_package_id d) = p"
    using held_live [OF ok p(1)] by blast
  obtain b x where B: "q = Some b" "hp_obj h b = Some x" "qm_data_list m ! slot (qm_capacity m) (pd_package_id x) = q"
    using held_live [OF ok p(2)] by blast
  have "slot (qm_capacity m) (pd_package_id d) = slot (qm_capacity m) (pd_package_id x)"
    using p(3) A(1,2) B(1,2) by (simp add: wl_key_def heap_get_def)
  with A(3) B(3) show ?thesis by simp
qed

lemma ackhandler_pop_safe:
  assumes inv: "snd_inv s"
  shows "\<exists>s'. ackhandler_pop s = Inr s' \<and> snd_inv s' \<and> so_send_id s' = so_send_id s \<and>
     (\<forall>i. tracked s i \<longrightarrow> tracked s' i \<or> given_up s i)"
proof (cases "so_ack_cur s \<noteq> None \<or> AckWaitList_size (so_ack_pool s) = 0")
  case True
  then show ?thesis using inv by (simp add: ackhandler_pop_def)
next
  case False
  let ?h = "so_send_heap s" let ?m = "so_send_pool s" let ?w = "so_ack_pool s" let ?key = "wl_key ?h (wl_capacity ?w)"
  have ok: "refs_ok (so_send_id s) ?h ?m (held_by s)" and wl: "wl_ok ?h ?w"
    and cap: "wl_capacity ?w = qm_capacity ?m" using inv by (simp_all add: snd_inv_def)
  have held: "held_by s = mset (wl_entries ?w)" using False by (simp add: held_by_def opt_add_def)
  have "0 \<le> wl_len ?w" using wl by (simp add: wl_ok_def)
  then have len: "0 < wl_len ?w" using False by (simp add: AckWaitList_size_def)
  obtain p w where w: "AckWaitList_pop ?h ?w = Inr (p, w)" "wl_ok ?h w" "wl_capacity w = wl_capacity ?w"
      "awl_pop_spec ?key (wl_entries ?w) = p # wl_entries w"
    using AckWaitList_pop_ok [OF wl len] by metis
  obtain pre where pre: "wl_entries ?w = pre @ p # wl_entries w"
    using awl_pop_spec_suffix [of "wl_entries ?w" ?key] w(4) by auto
  have sub: "add_mset p (mset (wl_entries w)) \<subseteq># held_by s" by (simp add: held pre)
  note ok1 = refs_ok_fewer [OF ok sub]
  have "counts_ok (resend_bound (so_resend_now s)) ?h ?m (held_by s)" using inv by (simp add: snd_inv_def)
  note cnt = counts_ok_fewer [OF this sub]
  have keep: "q \<in># add_mset p (mset (wl_entries w))" if q: "q \<in># held_by s" for q
    using awl_pop_kept [OF w(4), of q] held_key [OF ok _ q] q by (auto simp: held cap)
  obtain a d where d: "p = Some a" "hp_obj ?h a = Some d" "pd_package_id d \<noteq> 0"
      "PackageQueueMap_index (pd_package_id d) ?m = p"
    using held_live [OF ok1, of p] by (metis union_single_eq_member)
  have g: "heap_get p ?h = Inr d" using d by (simp add: heap_get_def)
  have still: "0 < places ?m (add_mset p (mset (wl_entries w))) i" if "tracked s i" for i
    using that keep by (auto simp: tracked_def places_def)
  show ?thesis
  proof (cases "20 < pd_send_count d")
    case True
    obtain h' m' where e: "PackageQueueMap_erase (pd_package_id d) (?h, ?m) = Inr (h', m')"
        "refs_ok (so_send_id s) h' m' (mset (wl_entries w))" "qm_capacity m' = qm_capacity ?m"
        "\<forall>b. Some b \<in># mset (wl_entries w) \<longrightarrow> hp_obj h' b = hp_obj ?h b"
        "\<forall>j. j \<noteq> 0 \<longrightarrow> j \<noteq> pd_package_id d \<longrightarrow> PackageQueueMap_index j m' = PackageQueueMap_index j ?m \<and>
           places m' (mset (wl_entries w)) j = places ?m (add_mset p (mset (wl_entries w))) j"
      using refs_ok_erase [OF ok1 d(3,4,1)] by blast
    define s' where "s' = s\<lparr>so_ack_pool := w, so_send_heap := h', so_send_pool := m',
        so_send_from := (if pd_package_id d > so_send_from s then pd_package_id d + 1 else so_send_from s)\<rparr>"
    have "wl_ok h' w" using w(2) e(4)
      by (elim wl_ok_heap) (auto simp: heap_get_def of_option_def split: option.splits)
    moreover have hs': "held_by s' = mset (wl_entries w)" using False by (simp add: held_by_def s'_def opt_add_def)
    moreover note counts_ok_erase [OF ok1 cnt d(3,4,1) e(1)]
    ultimately have "snd_inv s'" using inv e(2,3) w(3) by (simp add: snd_inv_def s'_def)
    moreover have "tracked s' i \<or> given_up s i" if t: "tracked s i" for i
    proof (cases "i = pd_package_id d")
      case eq: True
      then show ?thesis using d True by (auto simp: given_up_def qm_get_def)
    next
      case ne: False
      then have "tracked s' i" using still [OF t] t e(5)
        by (simp add: tracked_def hs') (simp add: s'_def)
      then show ?thesis ..
    qed
    moreover have "heap_get p h' = Inr d"
      using counts_ok_kept [OF ok1 cnt d(3) _ d(4,1,2) True] e(1) g by (auto simp: resend_bound_def)
    then have "ackhandler_pop s = Inr s'"
      using False w(1) g True e(1) by (simp add: ackhandler_pop_def Let_def s'_def)
    moreover have "so_send_id s' = so_send_id s" by (simp add: s'_def)
    ultimately show ?thesis by blast
  next
    case le: False
    define s' where "s' = s\<lparr>so_ack_pool := w, so_ack_cur := p\<rparr>"
    have hs': "held_by s' = add_mset p (mset (wl_entries w))" using d(1) by (simp add: held_by_def s'_def opt_add_def)
    have "snd_inv s'" using inv ok1 cnt w(2,3) hs' by (simp add: snd_inv_def s'_def)
    moreover have "tracked s' i" if "tracked s i" for i
      using still [OF that] that by (simp add: tracked_def hs') (simp add: s'_def)
    moreover have "ackhandler_pop s = Inr s'"
      using False w(1) g le by (simp add: ackhandler_pop_def Let_def s'_def)
    moreover have "so_send_id s' = so_send_id s" by (simp add: s'_def)
    ultimately show ?thesis by blast
  qed
qed

lemma ackhandler_check_safe:
  assumes inv: "snd_inv s" and room: "qm_resend_len (so_send_pool s) < qm_capacity (so_send_pool s)"
  shows "\<exists>s'. ackhandler_check now s = Inr s' \<and> snd_inv s' \<and> so_send_id s' = so_send_id s \<and>
     (\<forall>i. tracked s i \<longrightarrow> tracked s' i \<or> acknowledged s i)"
proof (cases "so_ack_cur s")
  case None
  then show ?thesis using inv by (simp add: ackhandler_check_def)
next
  case (Some a)
  let ?h = "so_send_heap s" let ?m = "so_send_pool s" let ?E = "mset (wl_entries (so_ack_pool s))"
  have held: "held_by s = add_mset (Some a) ?E" using Some by (simp add: held_by_def opt_add_def)
  let ?f = "resend_bound (so_resend_now s)"
  have ok: "refs_ok (so_send_id s) ?h ?m (add_mset (Some a) ?E)" and wl: "wl_ok ?h (so_ack_pool s)"
    and cnt: "counts_ok ?f ?h ?m (add_mset (Some a) ?E)"
    using inv held by (simp_all add: snd_inv_def)
  obtain d where d: "hp_obj ?h a = Some d" "pd_package_id d \<noteq> 0" "pd_package_id d < so_send_id s"
      "PackageQueueMap_index (pd_package_id d) ?m = Some a"
    using held_live [OF ok, of "Some a"] by auto
  let ?i = "pd_package_id d"
  have g: "heap_get (Some a) ?h = Inr d" using d(1) by (simp add: heap_get_def)
  let ?wait = "so_send_ack_id s < ?i \<and> \<not> acked (so_ack_recv_pool s) ?i"
  consider (sleep) "?wait" "get_ms now (pd_send_time d) < so_rto s"
    | (again) "?wait" "\<not> get_ms now (pd_send_time d) < so_rto s" | (over) "\<not> ?wait" by blast
  then show ?thesis
  proof cases
    case sleep
    then have "ackhandler_check now s = Inr s" using Some g by (simp add: ackhandler_check_def Let_def)
    then show ?thesis using inv by blast
  next
    case again
    define s' where "s' = s\<lparr>so_send_pool := PackageQueueMap_push_resend ?i ?m, so_ack_cur := None\<rparr>"
    have okE: "refs_ok (so_send_id s) ?h ?m ?E" using ok by (rule refs_ok_fewer) simp
    note R = refs_ok_push_resend [OF okE d(2,3) room]
    have "counts_ok ?f ?h (PackageQueueMap_push_resend ?i ?m) ?E"
      using counts_ok_push_resend [OF okE counts_ok_drop [OF cnt d(4)] d(2,3) room] by simp
    note C = this
    have hs': "held_by s' = ?E" by (simp add: held_by_def s'_def opt_add_def)
    have f: "qm_capacity (so_send_pool s') = qm_capacity ?m" "queue_ids (so_send_pool s') = queue_ids ?m"
      "PackageQueueMap_index i (so_send_pool s') = PackageQueueMap_index i ?m" for i
      by (simp_all add: s'_def push_resend_frame)
    have "snd_inv s'" using inv R(1) C hs' f(1) by (simp add: snd_inv_def) (simp add: s'_def)
    moreover have "tracked s' i" if t: "tracked s i" for i
    proof (cases "i = ?i")
      case True
      then show ?thesis using R(2) d(2,4) f(3) by (simp add: tracked_def places_def) (simp add: s'_def)
    next
      case False
      then have "PackageQueueMap_index i ?m \<noteq> Some a"
        using index_inj_id [OF refs_okD(1) [OF ok] _ d(2) _ d(4), of i] t by (auto simp: tracked_def)
      then have "0 < places (so_send_pool s') ?E i"
        using t R(2) by (auto simp: tracked_def places_def held f(2,3)) (simp add: s'_def)
      then show ?thesis using t by (simp add: tracked_def hs' f(3))
    qed
    moreover have "ackhandler_check now s = Inr s'"
      using again Some g by (simp add: ackhandler_check_def Let_def s'_def)
    moreover have "so_send_id s' = so_send_id s" by (simp add: s'_def)
    ultimately show ?thesis by blast
  next
    case over
    obtain h' m' where e: "PackageQueueMap_erase ?i (?h, ?m) = Inr (h', m')"
        "refs_ok (so_send_id s) h' m' ?E" "qm_capacity m' = qm_capacity ?m"
        "\<forall>b. Some b \<in># ?E \<longrightarrow> hp_obj h' b = hp_obj ?h b"
        "\<forall>j. j \<noteq> 0 \<longrightarrow> j \<noteq> ?i \<longrightarrow> PackageQueueMap_index j m' = PackageQueueMap_index j ?m \<and>
           places m' ?E j = places ?m (add_mset (Some a) ?E) j"
      using refs_ok_erase [OF ok d(2,4)] by blast
    define s' where "s' = s\<lparr>so_send_heap := h', so_send_pool := m', so_ack_cur := None\<rparr>"
    have "wl_ok h' (so_ack_pool s)" using wl e(4)
      by (elim wl_ok_heap) (auto simp: heap_get_def of_option_def split: option.splits)
    moreover have hs': "held_by s' = ?E" by (simp add: held_by_def s'_def opt_add_def)
    moreover have "counts_ok ?f h' m' ?E" using counts_ok_erase [OF ok cnt d(2,4) refl e(1)] .
    ultimately have "snd_inv s'" using inv e(2,3) by (simp add: snd_inv_def) (simp add: s'_def)
    moreover have "tracked s' i \<or> acknowledged s i" if t: "tracked s i" for i
    proof (cases "i = ?i")
      case True
      then show ?thesis using over by (auto simp: acknowledged_def not_less)
    next
      case False
      then have "tracked s' i" using t e(5) by (simp add: tracked_def hs' held) (simp add: s'_def)
      then show ?thesis ..
    qed
    moreover have "ackhandler_check now s = Inr s'"
      using over Some g e(1) by (simp add: ackhandler_check_def Let_def s'_def del: de_Morgan_conj)
    moreover have "so_send_id s' = so_send_id s" by (simp add: s'_def)
    ultimately show ?thesis by blast
  qed
qed

text \<open>The segment thread stores new packages; their slots hold nothing that is still needed.\<close>

definition slots_free :: "rsock \<Rightarrow> nat \<Rightarrow> bool" where
  "slots_free s n \<longleftrightarrow> (let m = so_send_pool s in
     n \<le> qm_capacity m \<and> qm_len m + n \<le> 2 * qm_capacity m \<and> unat (so_send_id s) + n < 2 ^ 63 \<and>
     (\<forall>k < n. let i = qm_arr m ! slot (qm_capacity m) (so_send_id s + of_nat k)
        in i = 0 \<or> places m (held_by s) i = 0))"

lemma slots_free_cong: "snd_part s' = snd_part s \<Longrightarrow> slots_free s' n = slots_free s n"
  by (simp add: snd_part_def slots_free_def held_by_def)

lemma slots_free_mono: "slots_free s n \<Longrightarrow> n' \<le> n \<Longrightarrow> slots_free s n'"
  by (auto simp: slots_free_def Let_def)

lemma push_plain_safe:
  assumes inv: "snd_inv s" and free: "slots_free s (Suc n)"
  shows "\<exists>s'. push_plain e plain s = Inr s' \<and> snd_inv s' \<and> (\<forall>i. tracked s i \<longrightarrow> tracked s' i) \<and>
     tracked s' (so_send_id s) \<and> so_send_id s' = so_send_id s + 1 \<and> slots_free s' n"
proof -
  let ?i = "so_send_id s" let ?m = "so_send_pool s" let ?c = "qm_capacity ?m"
  let ?d = "data_package e (so_crypto s) ?i plain"
  have ok: "refs_ok ?i (so_send_heap s) ?m (held_by s)" and wl: "wl_ok (so_send_heap s) (so_ack_pool s)" and i0: "?i \<noteq> 0"
    using inv by (simp_all add: snd_inv_def)
  have F: "Suc n \<le> ?c" "qm_len ?m + Suc n \<le> 2 * ?c" "unat ?i + Suc n < 2 ^ 63"
    "\<And>k. k < Suc n \<Longrightarrow> qm_arr ?m ! slot ?c (?i + of_nat k) = 0 \<or>
        places ?m (held_by s) (qm_arr ?m ! slot ?c (?i + of_nat k)) = 0"
    using free by (auto simp: slots_free_def Let_def)
  have u: "unat (?i + of_nat k) = unat ?i + k" if "k \<le> Suc n" for k
    using F(3) that by (intro unat_add_small) simp
  have inc: "?i < ?i + 1" "?i + 1 \<noteq> 0" "?i + 1 < 2 ^ 63"
    using u [of 1] F(3) by (auto simp: word_less_nat_alt)
  obtain a h where n: "heap_new ?d (so_send_heap s) = (a, h)" by fastforce
  have d: "pd_package_id ?d = ?i" by (simp add: data_package_def)
  have room: "qm_len ?m < 2 * ?c" using F(2) by simp
  obtain h' m' where P: "PackageQueueMap_push a ?i (h, ?m) = Inr (h', m')" "refs_ok (?i + 1) h' m' (held_by s)"
      "qm_capacity m' = ?c" "qm_arr m' = (qm_arr ?m)[slot ?c ?i := ?i]" "qm_len m' = qm_len ?m + 1"
      "queue_ids m' = queue_ids ?m @ [?i]" "resend_ids m' = resend_ids ?m"
      "\<forall>b. Some b \<in># held_by s \<longrightarrow> hp_obj h' b = hp_obj (so_send_heap s) b"
      "\<forall>j. j \<noteq> 0 \<longrightarrow> PackageQueueMap_index j ?m \<noteq> None \<longrightarrow> slot ?c j \<noteq> slot ?c ?i \<longrightarrow>
         PackageQueueMap_index j m' = PackageQueueMap_index j ?m"
    using refs_ok_reuse [OF ok i0 inc(1) _ room n d] F(4) [of 0] by auto
  define s' where "s' = s\<lparr>so_send_heap := h', so_send_pool := m', so_send_id := ?i + 1\<rparr>"
  have hs': "held_by s' = held_by s" by (simp add: held_by_def s'_def)
  have "Some b \<in># held_by s" if "Some b \<in> set (wl_entries (so_ack_pool s))" for b
    using that by (simp add: held_by_def opt_add_def)
  then have "wl_ok h' (so_ack_pool s)" using wl P(8)
    by (elim wl_ok_heap) (auto simp: heap_get_def of_option_def split: option.splits)
  moreover have "counts_ok (resend_bound (so_resend_now s)) h' m' (held_by s)"
    by (rule counts_ok_reuse [OF ok _ i0 _ n _ P(1,6,7)]) (use inv in \<open>simp_all add: snd_inv_def resend_bound_def data_package_def\<close>)
  ultimately have "snd_inv s'" using inv P(2,3) hs' inc by (simp add: snd_inv_def) (simp add: s'_def)
  moreover have "tracked s' i" if "tracked s i" for i
  proof -
    have t: "i \<noteq> 0" "PackageQueueMap_index i ?m \<noteq> None" "0 < places ?m (held_by s) i"
      using that by (simp_all add: tracked_def)
    then have "qm_arr ?m ! slot ?c i = i" by (auto simp: PackageQueueMap_index_def split: if_splits)
    then have "slot ?c i \<noteq> slot ?c ?i" using F(4) [of 0] t by auto
    then show ?thesis using t P(6,7,9) by (simp add: tracked_def hs' places_def) (simp add: s'_def)
  qed
  moreover have "tracked s' ?i"
  proof -
    have k: "slot ?c ?i < ?c" using qm_liveD(1) [OF refs_okD(1) [OF ok]] by (rule slot_less)
    then have "qm_arr m' ! slot ?c ?i = ?i" using P(4) qm_liveD(2) [OF refs_okD(1) [OF ok]] by simp
    then have "PackageQueueMap_index ?i m' \<noteq> None"
      using index_slot [OF refs_okD(1) [OF P(2)], of "slot ?c ?i"] qm_liveD(6) [OF refs_okD(1) [OF P(2)], of "slot ?c ?i"] k P(3) i0 by auto
    then show ?thesis using i0 P(6) by (simp add: tracked_def hs' places_def s'_def)
  qed
  moreover have "slots_free s' n"
  proof -
    have "qm_arr m' ! slot ?c (?i + 1 + of_nat k) = 0 \<or>
        places m' (held_by s) (qm_arr m' ! slot ?c (?i + 1 + of_nat k)) = 0" if k: "k < n" for k
    proof -
      let ?j = "slot ?c (?i + of_nat (Suc k))"
      have eq: "?i + 1 + of_nat k = ?i + of_nat (Suc k)" by simp
      have ne: "?j \<noteq> slot ?c ?i"
      proof
        assume "?j = slot ?c ?i"
        then have "?i + of_nat (Suc k) = ?i"
          using u [of "Suc k"] k F(1) by (intro slot_window [where lo = "unat ?i" and cap = ?c]) auto
        then show False using u [of "Suc k"] k by simp
      qed
      note live = refs_okD(1) [OF ok]
      have j: "?j < ?c" using qm_liveD(1) [OF live] by (rule slot_less)
      show ?thesis
      proof (cases "qm_arr ?m ! ?j = 0")
        case True
        then show ?thesis unfolding eq P(4) using ne by simp
      next
        case False
        then have z: "places ?m (held_by s) (qm_arr ?m ! ?j) = 0" using F(4) [of "Suc k"] k by simp
        have sl: "slot ?c (qm_arr ?m ! ?j) = ?j" using qm_liveD(5) [OF live j False] .
        have "PackageQueueMap_index (qm_arr ?m ! ?j) ?m \<noteq> None"
          using index_slot [OF live j False] qm_liveD(6) [OF live j False] by auto
        then have "PackageQueueMap_index (qm_arr ?m ! ?j) m' = PackageQueueMap_index (qm_arr ?m ! ?j) ?m"
          using P(9) False sl ne by simp
        moreover have "qm_arr ?m ! ?j \<noteq> ?i" using sl ne by auto
        ultimately have "places m' (held_by s) (qm_arr ?m ! ?j) = 0" using z P(6,7) by (simp add: places_def)
        then show ?thesis unfolding eq P(4) using ne by simp
      qed
    qed
    then show ?thesis using F(1-3) u [of 1] P(3,5) hs' by (simp add: slots_free_def Let_def) (simp add: s'_def)
  qed
  moreover have "push_plain e plain s = Inr s'" using P(1) by (simp add: push_plain_eq [OF n] s'_def)
  ultimately show ?thesis by (auto simp: s'_def)
qed

lemma push_plains_safe:
  "snd_inv s \<Longrightarrow> slots_free s (length ps) \<Longrightarrow>
   \<exists>s'. push_plains e ps s = Inr s' \<and> snd_inv s' \<and> (\<forall>i. tracked s i \<longrightarrow> tracked s' i) \<and>
     (\<forall>k < length ps. tracked s' (so_send_id s + of_nat k)) \<and> so_send_id s' = so_send_id s + of_nat (length ps)"
proof (induction ps arbitrary: s)
  case (Cons p ps)
  obtain s1 where s1: "push_plain e p s = Inr s1" "snd_inv s1" "\<forall>i. tracked s i \<longrightarrow> tracked s1 i"
      "tracked s1 (so_send_id s)" "so_send_id s1 = so_send_id s + 1" "slots_free s1 (length ps)"
    using push_plain_safe [OF Cons.prems(1), of "length ps" e p] Cons.prems(2) by auto
  obtain s' where s': "push_plains e ps s1 = Inr s'" "snd_inv s'" "\<forall>i. tracked s1 i \<longrightarrow> tracked s' i"
      "\<forall>k < length ps. tracked s' (so_send_id s1 + of_nat k)" "so_send_id s' = so_send_id s1 + of_nat (length ps)"
    using Cons.IH [OF s1(2,6)] by blast
  have "tracked s' (so_send_id s + of_nat k)" if "k < length (p # ps)" for k
    using that s1(4,5) s'(3,4) by (cases k) (auto simp: add.assoc)
  then show ?case using s1(1,3,5) s'(1-3,5) by auto
qed auto

lemma segment_batch_length: "segment_batch ms buf q = Inr (ps, buf') \<Longrightarrow> length ps \<le> sl_len q"
proof (induction ms buf q arbitrary: ps buf' rule: segment_batch.induct)
  case (1 ms buf q)
  show ?case
  proof (cases "PackageSegmentList_size q = 0")
    case True
    then show ?thesis using 1(2) by (simp add: segment_batch.simps [of ms buf q])
  next
    case False
    then obtain start buf1 q1 ps1 where f: "fill_package ms 2 buf q = Inr (start, buf1, q1)" "2 < start"
        "segment_batch ms buf1 q1 = Inr (ps1, buf')" "ps = take start buf1 # ps1"
      using 1(2) by (auto simp: segment_batch.simps [of ms buf q] bind_out_eq_Inr_iff split: sum.splits if_splits)
    have "length ps1 \<le> sl_len q1" using 1(1) [OF False f(1) refl refl f(2,3)] .
    moreover have "sl_len q1 < sl_len q" using fill_package_size [OF f(1)] f(2) by auto
    ultimately show ?thesis using f(4) by simp
  qed
qed

text \<open>The packing loop works on its own buffer: it may run out of it, but it touches no package.\<close>

lemma fill_package_faults: "fill_package ms start buf q = Inl f \<Longrightarrow> f = OutOfBounds"
proof (induction ms start buf q rule: fill_package.induct)
  case (1 ms start buf q)
  have put: "put_at off bs b = Inl g \<Longrightarrow> g = OutOfBounds" for off bs b g by (simp add: put_at_def split: if_splits)
  show ?case
  proof (cases "PackageSegmentList_front q")
    case None
    then show ?thesis using 1(2) by (simp add: fill_package.simps [of ms start buf q])
  next
    case (Some s)
    show ?thesis
    proof (cases "ms - 2 - int start > int (length s)")
      case False
      then show ?thesis using 1(2) Some by (simp add: fill_package.simps [of ms start buf q])
    next
      case True
      then show ?thesis using 1 Some put
        by (auto simp: fill_package.simps [of ms start buf q] bind_out_eq_Inl_iff)
    qed
  qed
qed

lemma segment_batch_faults: "segment_batch ms buf q = Inl f \<Longrightarrow> f = OutOfBounds \<or> f = Diverges"
proof (induction ms buf q rule: segment_batch.induct)
  case (1 ms buf q)
  then show ?case
    by (auto simp: segment_batch.simps [of ms buf q] bind_out_eq_Inl_iff split: sum.splits if_splits
        dest: fill_package_faults)
qed

lemma segment_pack_safe:
  assumes inv: "snd_inv s" and free: "\<And>snap. so_seg_pending s = Some snap \<Longrightarrow> slots_free s (sl_len snap)"
  shows "case segment_pack e s of
      Inl f \<Rightarrow> f = OutOfBounds \<or> f = Diverges
    | Inr s' \<Rightarrow> snd_inv s' \<and> (\<forall>i. tracked s i \<longrightarrow> tracked s' i) \<and>
        (\<forall>i. so_send_id s \<le> i \<longrightarrow> i < so_send_id s' \<longrightarrow> tracked s' i)"
proof (cases "\<exists>snap. so_seg_pending s = Some snap \<and> window_open s")
  case False
  then have "segment_pack e s = Inr s" by (auto simp: segment_pack_def split: option.splits)
  then show ?thesis using inv by (auto simp: not_less)
next
  case True
  then obtain snap where snap: "so_seg_pending s = Some snap" "window_open s" by blast
  let ?q = "snap\<lparr>sl_list := sl_list (so_segment_list s)\<rparr>"
  show ?thesis
  proof (cases "segment_batch (so_max_segment s) (so_seg_buf s) ?q")
    case (Inl f)
    then show ?thesis using snap segment_batch_faults [OF Inl] by (simp add: segment_pack_def)
  next
    case (Inr r)
    obtain ps buf where r: "r = (ps, buf)" by fastforce
    define s1 where "s1 = s\<lparr>so_seg_pending := None, so_seg_buf := buf\<rparr>"
    have part: "snd_part s1 = snd_part s" by (simp add: snd_part_def s1_def)
    have "length ps \<le> sl_len snap" using segment_batch_length [OF Inr [unfolded r]] by simp
    then have "slots_free s (length ps)" using slots_free_mono [OF free [OF snap(1)]] by blast
    then have n: "unat (so_send_id s) + length ps < 2 ^ 63" and fr: "slots_free s1 (length ps)"
      using slots_free_cong [OF part] by (simp_all add: slots_free_def Let_def)
    have "snd_inv s1" using inv snd_cong(1) [OF part] by simp
    from push_plains_safe [OF this fr, of e] obtain s' where s': "push_plains e ps s1 = Inr s'" "snd_inv s'"
        "\<forall>i. tracked s1 i \<longrightarrow> tracked s' i" "\<forall>k < length ps. tracked s' (so_send_id s + of_nat k)"
        "so_send_id s' = so_send_id s + of_nat (length ps)"
      by (auto simp: s1_def)
    have "tracked s' i" if i: "so_send_id s \<le> i" "i < so_send_id s'" for i
    proof -
      have u: "unat (so_send_id s + of_nat k) = unat (so_send_id s) + k" if "k \<le> length ps" for k
        using n that by (intro unat_add_small) simp
      define k where "k = unat i - unat (so_send_id s)"
      have "unat (so_send_id s) \<le> unat i" "unat i < unat (so_send_id s) + length ps"
        using i u [of "length ps"] by (simp_all add: s'(5) word_le_nat_alt word_less_nat_alt)
      then have k: "k < length ps" "unat i = unat (so_send_id s) + k" by (auto simp: k_def)
      then have "i = so_send_id s + of_nat k" using u [of k] word_unat_eq_iff by fastforce
      then show ?thesis using s'(4) k(1) by blast
    qed
    then show ?thesis using s'(1-3) snap Inr r snd_cong(2) [OF part] by (simp add: segment_pack_def s1_def)
  qed
qed

section \<open>What arrives\<close>

lemma collect_acks_max:
  "collect_acks sa si ids (p, m) = (p', m') \<Longrightarrow> m \<le> si \<Longrightarrow> m' \<le> si"
proof (induction ids arbitrary: p m)
  case (Cons x ids)
  show ?case
    by (rule Cons.IH [of "if x \<le> sa \<or> si < x \<or> acked p x then p else IdSet_insert x p"
          "if x \<le> sa \<or> si < x then m else umax m x"])
      (use Cons.prems in \<open>auto simp: umax_def split: if_splits\<close>)
qed auto

lemma handle_ack_form:
  assumes "handle_ack s = Inr s'"
  obtains mx s1 where "s' = fast_resend mx s1" "snd_part s1 = snd_part s" "mx \<le> so_send_id s"
proof -
  obtain a where a: "PackageAck_load_buf (so_recv_buf s) = Inr a"
    using assms by (auto simp: handle_ack_def bind_out_eq_Inr_iff)
  obtain p m where c: "collect_acks (so_send_ack_id s) (so_send_id s) (pa_ack_list a)
      (so_ack_recv_pool s, 0) = (p, m)" by fastforce
  have m: "m \<le> so_send_id s" using collect_acks_max [OF c] by simp
  show thesis using assms a c that [OF _ _ m]
    by (cases "so_recv_ack_id s < pa_send_from a")
      (auto simp: handle_ack_def Let_def advance_send_ack_def bind_out_eq_Inr_iff snd_part_def simp del: advance.simps)
qed

lemma fold_resend:
  "refs_ok sid h m held \<Longrightarrow> \<forall>i \<in> set is. i \<noteq> 0 \<and> i < sid \<Longrightarrow> qm_resend_len m + length is \<le> qm_capacity m \<Longrightarrow>
   refs_ok sid h (fold PackageQueueMap_push_resend is m) held \<and>
     (\<forall>j. places m held j \<le> places (fold PackageQueueMap_push_resend is m) held j)"
proof (induction "is" arbitrary: m)
  case (Cons i "is")
  let ?m = "PackageQueueMap_push_resend i m"
  have "qm_resend_len m < qm_capacity m" using Cons.prems(3) by simp
  note R = refs_ok_push_resend [OF Cons.prems(1) _ _ this, of i]
  note f = push_resend_frame [where i = i and m = m]
  have le: "places m held j \<le> places ?m held j" for j using R(2) Cons.prems(2) by (simp add: places_def f)
  have IH: "refs_ok sid h (fold PackageQueueMap_push_resend is ?m) held"
      "\<forall>j. places ?m held j \<le> places (fold PackageQueueMap_push_resend is ?m) held j"
    using Cons.IH [of ?m] R(1) Cons.prems(2,3) f(1,4) by simp_all
  then show ?case using le order.trans by (simp only: fold_simps) blast
qed auto

lemma fold_resend_frame:
  "qm_capacity (fold PackageQueueMap_push_resend is m) = qm_capacity m \<and>
   qm_resend_len (fold PackageQueueMap_push_resend is m) = qm_resend_len m + length is \<and>
   PackageQueueMap_index j (fold PackageQueueMap_push_resend is m) = PackageQueueMap_index j m"
  by (induction "is" arbitrary: m) (simp_all add: push_resend_frame)

lemma u64_range_bounds: "i \<in> set (u64_range a b) \<Longrightarrow> a \<le> i \<and> i < b"
proof -
  assume "i \<in> set (u64_range a b)"
  then obtain j where j: "i = of_nat j" "unat a \<le> j" "j < unat b" by (auto simp: u64_range_def)
  have "j < 2 ^ 64" using j(3) unsigned_less [of b, where ?'a = nat] by simp
  then have "unat (of_nat j :: u64) = j" by (simp add: unat_of_nat)
  with j show ?thesis by (simp add: word_le_nat_alt word_less_nat_alt)
qed

lemma u64_range_distinct: "distinct (u64_range a b)"
proof -
  have "inj_on (of_nat :: nat \<Rightarrow> u64) {unat a..<unat b}"
  proof (rule inj_onI)
    fix x y assume xy: "x \<in> {unat a..<unat b}" "y \<in> {unat a..<unat b}" "(of_nat x :: u64) = of_nat y"
    then have "x < 2 ^ 64" "y < 2 ^ 64" using unsigned_less [of b, where ?'a = nat] by auto
    then show "x = y" using arg_cong [OF xy(3), of unat] by (simp add: unat_of_nat)
  qed
  then show ?thesis by (simp add: u64_range_def distinct_map)
qed

lemma count_list_distinct: "distinct xs \<Longrightarrow> count_list xs x \<le> 1"
proof (induction xs)
  case (Cons y ys)
  have "count_list ys y = 0" using Cons.prems by (intro count_list_0) auto
  then show ?case using Cons by auto
qed simp

lemma fast_resend_safe:
  assumes inv: "snd_inv s" and mx: "mx \<le> so_send_id s" and ack: "so_send_ack_id s < 2 ^ 63"
    and room: "qm_resend_len (so_send_pool (fast_resend mx s)) \<le> qm_capacity (so_send_pool s)"
  shows "snd_inv (fast_resend mx s)" "tracked s i \<Longrightarrow> tracked (fast_resend mx s) i"
proof -
  define s1 where "s1 = (if so_resend_now s < so_send_ack_id s then s\<lparr>so_resend_now := so_send_ack_id s\<rparr> else s)"
  have f1: "so_send_pool s1 = so_send_pool s" "so_send_heap s1 = so_send_heap s" "so_send_id s1 = so_send_id s"
    "held_by s1 = held_by s" "so_ack_pool s1 = so_ack_pool s" "so_ack_recv_pool s1 = so_ack_recv_pool s"
    by (simp_all add: s1_def held_by_def)
  have r: "so_resend_now s1 < 2 ^ 63" using inv ack by (simp add: s1_def snd_inv_def)
  have mono: "so_resend_now s \<le> so_resend_now s1" by (simp add: s1_def order.strict_implies_order)
  have cnt: "counts_ok (resend_bound (so_resend_now s1)) (so_send_heap s) (so_send_pool s) (held_by s)"
    using inv resend_bound_mono [OF mono] by (auto simp: snd_inv_def elim: counts_ok_mono)
  have inv1: "snd_inv s1" and t1: "tracked s1 i = tracked s i" for i
    using inv r cnt by (simp_all add: snd_inv_def tracked_def f1)
  have "snd_inv (fast_resend mx s) \<and> (tracked s i \<longrightarrow> tracked (fast_resend mx s) i)"
  proof (cases "mx > so_resend_now s1 + 2")
    case False
    then have "fast_resend mx s = s1" by (simp add: fast_resend_def s1_def Let_def)
    then show ?thesis using inv1 t1 by simp
  next
    case True
    let ?is = "filter (\<lambda>i. \<not> acked (so_ack_recv_pool s) i) (u64_range (so_resend_now s1 + 1) mx)"
    let ?m = "fold PackageQueueMap_push_resend ?is (so_send_pool s)"
    have e: "fast_resend mx s = s1\<lparr>so_send_pool := ?m, so_resend_now := mx\<rparr>"
      using True by (simp add: fast_resend_def s1_def Let_def split del: if_split) (simp add: f1)
    have inc: "so_resend_now s1 < so_resend_now s1 + 1"
      using u64_inc [OF r] by (simp add: word_less_nat_alt)
    have ids: "\<forall>i \<in> set ?is. i \<noteq> 0 \<and> i < so_send_id s"
    proof
      fix i assume "i \<in> set ?is"
      then have i: "so_resend_now s1 + 1 \<le> i" "i < mx" using u64_range_bounds by auto
      have "so_resend_now s1 < i" using inc i(1) by (rule order.strict_trans2)
      moreover have "i < so_send_id s" using i(2) mx by (rule order.strict_trans2)
      ultimately show "i \<noteq> 0 \<and> i < so_send_id s" by auto
    qed
    have "refs_ok (so_send_id s) (so_send_heap s) (so_send_pool s) (held_by s)" using inv by (simp add: snd_inv_def)
    moreover have "qm_resend_len (so_send_pool s) + length ?is \<le> qm_capacity (so_send_pool s)"
      using room fold_resend_frame [of ?is "so_send_pool s" 0] by (simp add: e)
    ultimately have F: "refs_ok (so_send_id s) (so_send_heap s) ?m (held_by s)"
        "\<forall>j. places (so_send_pool s) (held_by s) j \<le> places ?m (held_by s) j"
      and C: "counts_ok (\<lambda>i. resend_bound (so_resend_now s1) i + int (count_list ?is i)) (so_send_heap s) ?m (held_by s)"
      using fold_resend [OF _ ids] counts_ok_fold [OF _ cnt ids] by blast+
    have "unat (so_resend_now s1 + 2) = unat (so_resend_now s1) + 2"
      using unat_add_small [of "so_resend_now s1" 2] r by (simp add: word_less_nat_alt)
    then have mx_le: "so_resend_now s1 \<le> mx" using True by (simp add: word_less_nat_alt word_le_nat_alt)
    have "resend_bound (so_resend_now s1) i + int (count_list ?is i) \<le> resend_bound mx i" for i
    proof (cases "i \<in> set ?is")
      case True
      then have i: "so_resend_now s1 + 1 \<le> i" "i < mx" using u64_range_bounds by auto
      have "so_resend_now s1 < i" using inc i(1) by (rule order.strict_trans2)
      moreover have "count_list ?is i \<le> 1" using u64_range_distinct by (intro count_list_distinct distinct_filter)
      ultimately show ?thesis using i(2) by (auto simp: resend_bound_def)
    next
      case False
      then have "count_list ?is i = 0" by (intro count_list_0) auto
      moreover have "so_resend_now s1 \<le> mx" using mx_le .
      ultimately show ?thesis using resend_bound_mono [of "so_resend_now s1" mx i] by simp
    qed
    note C = counts_ok_mono [OF C this]
    have hs: "held_by (fast_resend mx s) = held_by s" using f1(4) by (simp add: e held_by_def)
    have "mx < 2 ^ 63" using mx inv by (auto simp: snd_inv_def)
    then have "snd_inv (fast_resend mx s)"
      using inv F(1) C fold_resend_frame [of ?is "so_send_pool s" 0] by (simp add: snd_inv_def hs) (simp add: e f1)
    moreover have "tracked (fast_resend mx s) i" if "tracked s i"
    proof -
      have "0 < places ?m (held_by s) i" using that F(2) by (auto simp: tracked_def intro: order.strict_trans2)
      then show ?thesis using that fold_resend_frame [of ?is "so_send_pool s" i]
        by (simp add: tracked_def hs) (simp add: e)
    qed
    ultimately show ?thesis by blast
  qed
  then show "snd_inv (fast_resend mx s)" "tracked s i \<Longrightarrow> tracked (fast_resend mx s) i" by blast+
qed

lemma handle_data_snd_part: "handle_data e r s = Inr s' \<Longrightarrow> snd_part s' = snd_part s"
proof -
  assume h: "handle_data e r s = Inr s'"
  obtain d where d: "PackageData_from_buf (ev_junk_time e) (so_recv_buf s) r = Inr d"
    using h by (auto simp: handle_data_def bind_out_eq_Inr_iff)
  obtain a h1 where n: "heap_new d (so_heap s) = (a, h1)" by fastforce
  define w where "w = (if PackageMap_find (pd_package_id d) (so_recv_pool s) = None
         \<and> so_recv_ack_id s < pd_package_id d
      then PackageMap_set (pd_package_id d) a (h1, so_recv_pool s)
      else bind_out (heap_delete (Some a) h1) (\<lambda>h. Inr (h, so_recv_pool s)))"
  obtain h' pool s1 where s1: "w = Inr (h', pool)" "advance_recv_ack (s\<lparr>so_heap := h', so_recv_pool := pool\<rparr>) = Inr s1"
      "advance_send_ack (s1\<lparr>so_ack_send_queue := AckQueue_push (pd_package_id d) (so_ack_send_queue s1),
         so_send_ack_id := umax (so_send_ack_id s1) (pd_una d)\<rparr>) = Inr s'"
    using h d n by (auto simp: handle_data_def Let_def bind_out_eq_Inr_iff w_def [symmetric])
  have "snd_part s1 = snd_part s" using s1(2)
    by (auto simp: advance_recv_ack_def bind_out_eq_Inr_iff snd_part_def simp del: advance.simps)
  with s1(3) show ?thesis
    by (auto simp: advance_send_ack_def bind_out_eq_Inr_iff snd_part_def simp del: advance.simps)
qed

text \<open>A datagram leaves the packages to send alone, or it is an acknowledgement that resends some.\<close>

lemma receiver_step_form:
  assumes "receiver_step e now dg s = Inr (s', out)"
  shows "snd_part s' = snd_part s \<or>
     (\<exists>mx s1. s' = fast_resend mx s1 \<and> snd_part s1 = snd_part s \<and> mx \<le> so_send_id s)"
proof -
  define s1 where "s1 = s\<lparr>so_recv_buf := overlay (take MAX_MTU dg) (so_recv_buf s)\<rparr>"
  have s1: "snd_part s1 = snd_part s" "so_send_id s1 = so_send_id s" by (simp_all add: snd_part_def s1_def)
  show ?thesis
  proof (cases "length (take MAX_MTU dg) > 0")
    case False
    then show ?thesis using assms by (auto simp: receiver_step_def Let_def snd_part_def)
  next
    case True
    then have p: "process_package e now (length (take MAX_MTU dg)) s1 = Inr (s', out)"
      using assms by (simp add: receiver_step_def Let_def s1_def)
    then obtain t where t: "parse_package_type (so_recv_buf s1) = Inr t"
      by (auto simp: process_package_def bind_out_eq_Inr_iff)
    have stop: "snd_part (stop_all_thread s1) = snd_part s1" by (simp add: snd_part_def stop_all_thread_def)
    have ping: "snd_part s2 = snd_part s1" if "handle_ping now r s1 = Inr (s2, o2)" for r s2 o2
      using that by (auto simp: handle_ping_def Let_def bind_out_eq_Inr_iff set_rto_def snd_part_def split: if_splits)
    show ?thesis
    proof (cases "t = Some Ack")
      case True
      then have "handle_ack s1 = Inr s'" using p t by (auto simp: process_package_def bind_out_eq_Inr_iff)
      then show ?thesis using handle_ack_form [of s1 s'] s1 by metis
    next
      case False
      then have "snd_part s' = snd_part s1" using p t stop ping
        by (auto simp: process_package_def bind_out_eq_Inr_iff split: option.splits PackageType.splits
            dest: handle_data_snd_part)
      then show ?thesis using s1 by simp
    qed
  qed
qed

lemma receiver_step_safe:
  assumes inv: "snd_inv s" and step: "receiver_step e now dg s = Inr (s', out)"
    and ack: "so_send_ack_id s' < 2 ^ 63" and room: "qm_resend_len (so_send_pool s') \<le> qm_capacity (so_send_pool s)"
  shows "snd_inv s' \<and> so_send_id s' = so_send_id s \<and> (\<forall>i. tracked s i \<longrightarrow> tracked s' i)"
  using receiver_step_form [OF step]
proof
  assume p: "snd_part s' = snd_part s"
  then have "so_send_id s' = so_send_id s" by (simp add: snd_part_def)
  with inv snd_cong [OF p] show ?thesis by blast
next
  assume "\<exists>mx s1. s' = fast_resend mx s1 \<and> snd_part s1 = snd_part s \<and> mx \<le> so_send_id s"
  then obtain mx s1 where f: "s' = fast_resend mx s1" "snd_part s1 = snd_part s" "mx \<le> so_send_id s" by blast
  have "snd_inv s1" using inv snd_cong(1) [OF f(2)] by blast
  moreover have "tracked s1 i = tracked s i" for i using snd_cong(2) [OF f(2)] .
  moreover have "so_send_id s1 = so_send_id s" "so_send_pool s1 = so_send_pool s" using f(2) by (simp_all add: snd_part_def)
  ultimately have s1: "snd_inv s1" "tracked s1 i = tracked s i" "so_send_id s1 = so_send_id s" "so_send_pool s1 = so_send_pool s" for i
    by blast+
  have "mx \<le> so_send_id s1" "so_send_ack_id s1 < 2 ^ 63"
    "qm_resend_len (so_send_pool (fast_resend mx s1)) \<le> qm_capacity (so_send_pool s1)"
    using f s1 ack room by (simp_all add: fast_resend_frame)
  from fast_resend_safe [OF s1(1) this] show ?thesis
    using f(1) s1 by (simp add: fast_resend_frame)
qed

section \<open>Executions of the sending threads\<close>

text \<open>
  The steps are those of every thread of the socket. The arrays are assumed large enough: the wait
  list and the resend queue do not overflow, the slots of new packages hold nothing that is still
  needed; and the peer does not
  acknowledge identifiers above \<open>2 ^ 63\<close>.
\<close>

inductive snd_step :: "env \<Rightarrow> rsock \<Rightarrow> rsock \<Rightarrow> bool" for e where
  sn_send: "send_package buf n s = Inr (r, s') \<Longrightarrow> snd_step e s s'"
| sn_take: "snd_step e s (segment_take s)"
| sn_pack: "segment_pack e s = Inr s' \<Longrightarrow>
     (\<And>snap. so_seg_pending s = Some snap \<Longrightarrow> slots_free s (sl_len snap)) \<Longrightarrow> snd_step e s s'"
| sn_tick: "sender_tick now s = (s', out) \<Longrightarrow> snd_step e s s'"
| sn_sender: "sender_send now s = Inr (s', out) \<Longrightarrow>
     wl_len (so_ack_pool s) < int (wl_capacity (so_ack_pool s)) \<Longrightarrow> snd_step e s s'"
| sn_ack: "ack_sender_step s = (s', out) \<Longrightarrow> snd_step e s s'"
| sn_pop: "ackhandler_pop s = Inr s' \<Longrightarrow> snd_step e s s'"
| sn_check: "ackhandler_check now s = Inr s' \<Longrightarrow>
     qm_resend_len (so_send_pool s) < qm_capacity (so_send_pool s) \<Longrightarrow> snd_step e s s'"
| sn_recv: "receiver_step e now dg s = Inr (s', out) \<Longrightarrow> so_send_ack_id s' < 2 ^ 63 \<Longrightarrow>
     qm_resend_len (so_send_pool s') \<le> qm_capacity (so_send_pool s) \<Longrightarrow> snd_step e s s'"
| sn_read: "recv_package e room s = Inr (res, s') \<Longrightarrow> snd_step e s s'"

lemma snd_frames:
  "send_package buf n s = Inr (r, s') \<Longrightarrow> snd_part s' = snd_part s"
  "snd_part (segment_take s) = snd_part s"
  "sender_tick now s = (s', out) \<Longrightarrow> snd_part s' = snd_part s"
  "ack_sender_step s = (s', out) \<Longrightarrow> snd_part s' = snd_part s"
proof -
  show "send_package buf n s = Inr (r, s') \<Longrightarrow> snd_part s' = snd_part s"
    by (auto simp: send_package_def bind_out_eq_Inr_iff snd_part_def split: if_splits)
  show "snd_part (segment_take s) = snd_part s" by (simp add: segment_take_def snd_part_def)
  show "sender_tick now s = (s', out) \<Longrightarrow> snd_part s' = snd_part s"
    by (auto simp: sender_tick_def Let_def snd_part_def split: if_splits)
  show "ack_sender_step s = (s', out) \<Longrightarrow> snd_part s' = snd_part s"
    by (auto simp: ack_sender_step_def Let_def snd_part_def)
qed

lemma recv_package_snd_part:
  assumes "recv_package e room s = Inr (res, s')"
  shows "snd_part s' = snd_part s"
proof -
  obtain seg sp where n: "SegmentParser_next room (so_segment_recv s) = Inr (seg, sp)"
    using assms by (auto simp: recv_package_def bind_out_eq_Inr_iff)
  obtain i r where w: "recv_wait (so_worker_running s) (so_recv_pool s) (so_recv_ack_id s) (so_recv_id s) = (i, r)"
    by fastforce
  show ?thesis using assms n w
    by (cases "length seg \<noteq> 0"; cases r)
      (auto simp: recv_package_def Let_def bind_out_eq_Inr_iff snd_part_def)
qed

definition snd_next :: "rsock \<Rightarrow> rsock \<Rightarrow> bool" where
  "snd_next s s' \<longleftrightarrow> snd_inv s' \<and>
     (\<forall>i. tracked s i \<or> so_send_id s \<le> i \<and> i < so_send_id s' \<longrightarrow>
        tracked s' i \<or> acknowledged s i \<or> given_up s i)"

lemma snd_next_frame: "snd_inv s \<Longrightarrow> snd_part s' = snd_part s \<Longrightarrow> snd_next s s'"
proof -
  assume inv: "snd_inv s" and p: "snd_part s' = snd_part s"
  have "so_send_id s' = so_send_id s" using p by (simp add: snd_part_def)
  with inv snd_cong [OF p] show ?thesis by (auto simp: snd_next_def)
qed

lemma snd_step_next:
  assumes "snd_step e s s'" "snd_inv s"
  shows "snd_next s s'"
  using assms
proof (induction rule: snd_step.induct)
  case (sn_pack s s')
  then show ?case using segment_pack_safe [OF sn_pack(3,2), of e] by (auto simp: snd_next_def)
next
  case (sn_sender now s s' out)
  obtain s2 dgs where "sender_send now s = Inr (s2, dgs)" "snd_inv s2" "\<forall>i. tracked s i \<longrightarrow> tracked s2 i"
      "so_send_id s2 = so_send_id s"
    using sender_send_safe [OF sn_sender(3,2)] by blast
  with sn_sender(1) show ?case by (auto simp: snd_next_def)
next
  case (sn_pop s s')
  obtain s2 where "ackhandler_pop s = Inr s2" "snd_inv s2" "\<forall>i. tracked s i \<longrightarrow> tracked s2 i \<or> given_up s i"
      "so_send_id s2 = so_send_id s"
    using ackhandler_pop_safe [OF sn_pop(2)] by blast
  with sn_pop(1) show ?case by (auto simp: snd_next_def)
next
  case (sn_check now s s')
  obtain s2 where "ackhandler_check now s = Inr s2" "snd_inv s2" "\<forall>i. tracked s i \<longrightarrow> tracked s2 i \<or> acknowledged s i"
      "so_send_id s2 = so_send_id s"
    using ackhandler_check_safe [OF sn_check(3,2)] by blast
  with sn_check(1) show ?case by (auto simp: snd_next_def)
next
  case (sn_recv now dg s s' out)
  from receiver_step_safe [OF sn_recv(4,1,2,3)] show ?case by (auto simp: snd_next_def)
qed (blast intro: snd_next_frame snd_frames recv_package_snd_part)+

lemma snd_inv_new:
  assumes "0 < cap" "snd_part s = snd_part (rsock_new cap j64 jseg j8 down up key ms)"
  shows "snd_inv s"
proof -
  let ?s = "rsock_new cap j64 jseg j8 down up key ms"
  have "held_by ?s = {#}"
    by (simp add: held_by_def opt_add_def rsock_new_def AckWaitList_new_def wl_entries_def)
  then have "snd_inv ?s" using refs_ok_new [OF assms(1), of 1] wl_new_ok [OF assms(1), of heap_empty]
      counts_ok_new [of "resend_bound 0" cap]
    by (simp add: snd_inv_def rsock_new_def PackageQueueMap_new_def AckWaitList_new_def)
  then show ?thesis using snd_cong(1) [OF assms(2)] by simp
qed

lemma snd_inv_steps:
  assumes "0 < cap" "snd_part s0 = snd_part (rsock_new cap j64 jseg j8 down up key ms)"
    and "(snd_step e)\<^sup>*\<^sup>* s0 s"
  shows "snd_inv s"
  using assms(3)
proof (induction rule: rtranclp_induct)
  case base
  show ?case by (rule snd_inv_new [OF assms(1,2)])
next
  case (step s s')
  then show ?case using snd_step_next by (simp add: snd_next_def)
qed

lemma fresh_snd_part: "snd_part fresh_sock =
    snd_part (rsock_new 8 (replicate 8 0) (replicate 8 []) (replicate 1600 0) 100 100 [1, 2, 3] (MAX_SEGMENT 1496))"
  by (simp add: fresh_sock_def snd_part_def)

section \<open>A concrete execution\<close>

definition demo_start :: rsock where
  "demo_start = fresh_sock\<lparr>so_segment_list := demo_list\<rparr>"

lemma demo_start_part: "snd_part demo_start =
    snd_part (rsock_new 8 (replicate 8 0) (replicate 8 []) (replicate 1600 0) 100 100 [1, 2, 3] (MAX_SEGMENT 1496))"
  using fresh_snd_part by (simp add: demo_start_def snd_part_def)

lemma demo_steps: "(snd_step clear_env)\<^sup>*\<^sup>* demo_start demo_sender"
proof -
  have "demo_sender = segment_take demo_start" by (simp add: demo_sender_def demo_start_def)
  then show ?thesis using sn_take [of clear_env demo_start] by (simp add: r_into_rtranclp)
qed

lemma demo_slots: "so_seg_pending demo_sender = Some snap \<Longrightarrow> slots_free demo_sender (sl_len snap)"
proof -
  assume "so_seg_pending demo_sender = Some snap"
  then have "snap = PackageSegmentList_copy demo_list" using demo_sender_facts(1) by simp
  then have "sl_len snap = 2"
    by (simp add: PackageSegmentList_copy_def demo_list_def PackageSegmentList_push_def PackageSegmentList_new_def)
  moreover have "so_send_pool fresh_sock = PackageQueueMap_new 8" by (simp add: fresh_sock_def rsock_new_def)
  ultimately show ?thesis
    by (simp add: slots_free_def Let_def demo_sender_facts(6,7) PackageQueueMap_new_def slot_def)
qed

lemma demo_rooms: "wl_len (so_ack_pool demo_sender) < int (wl_capacity (so_ack_pool demo_sender))"
    "qm_resend_len (so_send_pool demo_sender) < qm_capacity (so_send_pool demo_sender)"
  by (simp_all add: demo_sender_def segment_take_def fresh_sock_def rsock_new_def AckWaitList_new_def PackageQueueMap_new_def)

lemma demo_pack_step:
  obtains s' where "segment_pack clear_env demo_sender = Inr s'" "snd_step clear_env demo_sender s'"
    "so_send_id demo_sender \<le> 1" "1 < so_send_id s'"
proof -
  let ?snap = "PackageSegmentList_copy demo_list"
  have c: "?snap\<lparr>sl_list := sl_list (so_segment_list demo_sender)\<rparr> = demo_list"
    by (simp add: PackageSegmentList_copy_def demo_sender_facts)
  obtain gs buf where g: "segment_batch 1408 (replicate 1600 0) demo_list = Inr (map seg_plain gs, buf)"
      "concat gs = [[1, 2], [3]]" "[] \<notin> set gs"
    using segment_batch_spec [OF demo_sender_facts(3), of 1408 "replicate 1600 0"] demo_sender_facts(4) by auto
  define s1 where "s1 = demo_sender\<lparr>so_seg_pending := None, so_seg_buf := buf\<rparr>"
  have part: "snd_part s1 = snd_part demo_sender" by (simp add: s1_def snd_part_def)
  have "snd_inv demo_sender" using snd_inv_steps [OF _ demo_start_part demo_steps] by simp
  then have inv: "snd_inv s1" using snd_cong(1) [OF part] by blast
  have len: "0 < length gs" "length gs \<le> 2" using g(2) length_groups [OF g(3)] by auto
  have "slots_free demo_sender (length gs)"
    using demo_slots [OF demo_sender_facts(1)] len(2)
    by (elim slots_free_mono) (simp add: PackageSegmentList_copy_def demo_list_def PackageSegmentList_push_def PackageSegmentList_new_def)
  then have "slots_free s1 (length (map seg_plain gs))" using slots_free_cong [OF part] by simp
  from push_plains_safe [OF inv this, of clear_env] obtain s' where s': "push_plains clear_env (map seg_plain gs) s1 = Inr s'"
      "so_send_id s' = 1 + of_nat (length gs)"
    by (auto simp: s1_def demo_sender_facts)
  have w: "window_open demo_sender" by (simp add: window_open_def demo_sender_facts)
  have pack: "segment_pack clear_env demo_sender = Inr s'"
    using g(1) s'(1) w c by (simp add: segment_pack_def demo_sender_facts(1,9,10) s1_def)
  have "length gs = 1 \<or> length gs = 2" using len by linarith
  then have "1 < so_send_id s'" using s'(2) by auto
  moreover have "snd_step clear_env demo_sender s'" by (rule sn_pack [OF pack demo_slots])
  ultimately show thesis using pack by (intro that) (simp_all add: demo_sender_facts(7))
qed

section \<open>Properties\<close>



text \<open>
  C17: No package is forgotten. Whatever a thread does, a package that waits in the send queue, in
  the resend queue, in the wait list or in the acknowledgement handler still waits in one of them
  afterwards, and so does every package made in this step, unless the peer has acknowledged it or
  it was sent more than 20 times and is given up.
\<close>

theorem package_not_forgotten:
  assumes "0 < cap" "snd_part s0 = snd_part (rsock_new cap j64 jseg j8 down up key ms)"
    and "(snd_step e)\<^sup>*\<^sup>* s0 s" "snd_step e s s'"
    and "tracked s i \<or> so_send_id s \<le> i \<and> i < so_send_id s'"
  shows "tracked s' i \<or> acknowledged s i \<or> given_up s i"
  using snd_step_next [OF assms(4) snd_inv_steps [OF assms(1-3)]] assms(5) unfolding snd_next_def by blast

theorem package_not_forgotten_witness:
  "\<exists>s'. segment_pack clear_env demo_sender = Inr s' \<and> tracked s' 1"
proof -
  obtain s' where s': "segment_pack clear_env demo_sender = Inr s'" "snd_step clear_env demo_sender s'"
    "so_send_id demo_sender \<le> 1" "1 < so_send_id s'"
    by (rule demo_pack_step)
  have "tracked s' 1 \<or> acknowledged demo_sender 1 \<or> given_up demo_sender 1"
    using package_not_forgotten [OF _ demo_start_part demo_steps s'(2), of 1] s'(3,4) by simp
  moreover have "\<not> acknowledged demo_sender 1" "\<not> given_up demo_sender 1"
    by (simp_all add: acknowledged_def given_up_def qm_get_def acked_def IdSet_find_def slot_def demo_sender_def
        segment_take_def fresh_sock_def rsock_new_def IdSet_new_def PackageQueueMap_new_def PackageQueueMap_index_def)
  ultimately show ?thesis using s'(1) by blast
qed

end
