(* ===== verification/Pthread.thy ===== *)
theory Pthread
  imports Prelude
begin

text \<open>
  Model of \<open>src/src/rudp/pthread_wrapper\<close>: the classes \<open>Mutex\<close> and \<open>ConditionVariable\<close> as state that threads share, with the
  documented behaviour of the calls that their methods make. A call that blocks has no result. The
  relation \<open>monitor_step\<close> is the loop that the worker threads run on such a pair: wait while there is nothing to
  do, take an item, and be woken by the threads that add one or that stop the socket.
\<close>

section \<open>Mutexes\<close>

type_synonym tid = nat

record Mutex =
  mx_owner :: "tid option"

definition Mutex_new :: Mutex where
  "Mutex_new = \<lparr>mx_owner = None\<rparr>"

definition Mutex_lock :: "tid \<Rightarrow> Mutex \<Rightarrow> Mutex option" where
  \<comment> \<open>the mutex is initialised without attributes: a second lock by its owner blocks, too\<close>
  "Mutex_lock t m = (if mx_owner m = None then Some (m\<lparr>mx_owner := Some t\<rparr>) else None)"

definition Mutex_unlock :: "tid \<Rightarrow> Mutex \<Rightarrow> Mutex option" where
  \<comment> \<open>undefined unless the caller is the owner\<close>
  "Mutex_unlock t m = (if mx_owner m = Some t then Some (m\<lparr>mx_owner := None\<rparr>) else None)"

text \<open>On Windows the mutex is a critical section, which its owner can enter again.\<close>

record CriticalSection =
  cs_owner :: "tid option"
  cs_count :: nat

definition win_Mutex_new :: CriticalSection where
  "win_Mutex_new = \<lparr>cs_owner = None, cs_count = 0\<rparr>"

definition win_Mutex_lock :: "tid \<Rightarrow> CriticalSection \<Rightarrow> CriticalSection option" where
  "win_Mutex_lock t m =
     (if cs_owner m = None \<or> cs_owner m = Some t
      then Some (m\<lparr>cs_owner := Some t, cs_count := cs_count m + 1\<rparr>) else None)"

definition win_Mutex_unlock :: "tid \<Rightarrow> CriticalSection \<Rightarrow> CriticalSection option" where
  "win_Mutex_unlock t m =
     (if cs_owner m \<noteq> Some t then None
      else if cs_count m = 1 then Some win_Mutex_new
      else Some (m\<lparr>cs_count := cs_count m - 1\<rparr>))"

section \<open>Condition variables\<close>

record ConditionVariable =
  cv_waiting :: "tid set"

definition ConditionVariable_new :: ConditionVariable where
  "ConditionVariable_new = \<lparr>cv_waiting = {}\<rparr>"

text \<open>The first half of \<open>wait\<close> releases the mutex and joins the waiting threads in one step; a thread that is woken locks the mutex again.\<close>

definition ConditionVariable_wait ::
  "tid \<Rightarrow> Mutex \<times> ConditionVariable \<Rightarrow> (Mutex \<times> ConditionVariable) option" where
  "ConditionVariable_wait t mc =
     (case Mutex_unlock t (fst mc) of
        None \<Rightarrow> None
      | Some m \<Rightarrow> Some (m, (snd mc)\<lparr>cv_waiting := insert t (cv_waiting (snd mc))\<rparr>))"

definition win_ConditionVariable_wait ::
  "tid \<Rightarrow> CriticalSection \<times> ConditionVariable \<Rightarrow> (CriticalSection \<times> ConditionVariable) option" where
  \<comment> \<open>the critical section is left once\<close>
  "win_ConditionVariable_wait t mc =
     (case win_Mutex_unlock t (fst mc) of
        None \<Rightarrow> None
      | Some m \<Rightarrow> Some (m, (snd mc)\<lparr>cv_waiting := insert t (cv_waiting (snd mc))\<rparr>))"

definition ConditionVariable_signal :: "tid \<Rightarrow> ConditionVariable \<Rightarrow> ConditionVariable" where
  \<comment> \<open>the system chooses a thread \<open>w\<close>; without a waiting thread the call has no effect\<close>
  "ConditionVariable_signal w c = c\<lparr>cv_waiting := cv_waiting c - {w}\<rparr>"

definition ConditionVariable_broadcast :: "ConditionVariable \<Rightarrow> ConditionVariable" where
  "ConditionVariable_broadcast c = c\<lparr>cv_waiting := {}\<rparr>"

lemma Mutex_lock_eq: "Mutex_lock t m = Some m' \<longleftrightarrow> mx_owner m = None \<and> m' = m\<lparr>mx_owner := Some t\<rparr>"
  by (auto simp: Mutex_lock_def)

lemma Mutex_unlock_eq: "Mutex_unlock t m = Some m' \<longleftrightarrow> mx_owner m = Some t \<and> m' = m\<lparr>mx_owner := None\<rparr>"
  by (auto simp: Mutex_unlock_def)

lemma ConditionVariable_wait_eq:
  "ConditionVariable_wait t (m, c) = Some (m', c') \<longleftrightarrow>
     mx_owner m = Some t \<and> m' = m\<lparr>mx_owner := None\<rparr> \<and> c' = c\<lparr>cv_waiting := insert t (cv_waiting c)\<rparr>"
  by (auto simp: ConditionVariable_wait_def Mutex_unlock_def)

lemmas pthread_simps = Mutex_lock_eq Mutex_unlock_eq ConditionVariable_wait_eq

text \<open>The two platforms differ for a thread that locks a mutex it holds: it blocks for ever, or goes on.\<close>

lemma relock_differs:
  "mx_owner m = Some t \<Longrightarrow> Mutex_lock t m = None"
  "cs_owner c = Some t \<Longrightarrow> \<exists>c'. win_Mutex_lock t c = Some c' \<and> cs_owner c' = Some t"
  by (simp_all add: Mutex_lock_def win_Mutex_lock_def)

lemma win_lock_unlock:
  assumes "win_Mutex_lock t c = Some c'" "cs_owner c = None \<longleftrightarrow> cs_count c = 0"
  shows "win_Mutex_unlock t c' = Some c"
  using assms by (cases c) (auto simp: win_Mutex_lock_def win_Mutex_unlock_def win_Mutex_new_def split: if_splits)

text \<open>The two kinds of monitor agree for threads that lock once: a critical section entered once is a mutex.\<close>

definition as_mutex :: "CriticalSection \<Rightarrow> Mutex" where
  "as_mutex c = \<lparr>mx_owner = cs_owner c\<rparr>"

lemma win_monitor_agrees:
  assumes "cs_owner c \<noteq> Some t"
  shows "map_option as_mutex (win_Mutex_lock t c) = Mutex_lock t (as_mutex c)"
    and "win_Mutex_lock t win_Mutex_new = Some c' \<Longrightarrow> map_option as_mutex (win_Mutex_unlock t c') = Mutex_unlock t (as_mutex c')"
    and "win_Mutex_lock t win_Mutex_new = Some c' \<Longrightarrow>
       map_option (map_prod as_mutex id) (win_ConditionVariable_wait t (c', v)) = ConditionVariable_wait t (as_mutex c', v)"
  using assms
  by (auto simp: win_Mutex_lock_def Mutex_lock_def win_Mutex_unlock_def Mutex_unlock_def as_mutex_def win_Mutex_new_def
      win_ConditionVariable_wait_def ConditionVariable_wait_def)

section \<open>The loop of a worker thread\<close>

text \<open>
  What is special to a thread: the condition of its inner loop, an item to skip, taking an item, what other
  threads do to the shared data under the lock before they signal, and what happens to it without the lock.
\<close>

record 'p wait_loop =
  lp_miss :: "'p \<Rightarrow> bool"
  lp_skip :: "'p \<Rightarrow> 'p option"
  lp_get :: "'p \<Rightarrow> 'p \<Rightarrow> bool"
  lp_put :: "'p \<Rightarrow> 'p \<Rightarrow> bool"
  lp_poke :: "'p \<Rightarrow> 'p \<Rightarrow> bool"

definition lp_idle :: "'p wait_loop \<Rightarrow> 'p \<Rightarrow> bool" where
  "lp_idle L p \<longleftrightarrow> lp_miss L p \<and> lp_skip L p = None"

datatype pc =
    Enter        \<comment> \<open>worker: before the lock\<close>
  | Check        \<comment> \<open>holds the lock, at the condition of the inner loop\<close>
  | Tested       \<comment> \<open>found nothing, and \<open>worker_running\<close> set\<close>
  | Deciding     \<comment> \<open>nothing to skip either: about to wait\<close>
  | Asleep
  | Awake        \<comment> \<open>woken, before locking again\<close>
  | Away         \<comment> \<open>works on the item, without the lock\<close>
  | Gone         \<comment> \<open>has returned\<close>
  | Rest         \<comment> \<open>another thread, outside\<close>
  | Locked       \<comment> \<open>holds the lock to add an item\<close>
  | Pushed       \<comment> \<open>has added it\<close>
  | Signalling   \<comment> \<open>has unlocked, or cleared \<open>worker_running\<close>: before the signal\<close>

record 'p monitor =
  mo_running :: bool
  mo_mutex :: Mutex
  mo_cv :: ConditionVariable
  mo_pool :: 'p
  mo_pc :: "tid \<Rightarrow> pc"

definition monitor_new :: "'p \<Rightarrow> 'p monitor" where
  "monitor_new p =
     \<lparr>mo_running = True, mo_mutex = Mutex_new, mo_cv = ConditionVariable_new, mo_pool = p,
      mo_pc = (\<lambda>t. if t = 0 then Enter else Rest)\<rparr>"

text \<open>
  Thread 0 is the worker; any other thread may add items and stop the socket, as often as it likes. \<open>sp\<close> says whether
  waits may end without a signal.
\<close>

inductive monitor_step :: "'p wait_loop \<Rightarrow> bool \<Rightarrow> 'p monitor \<Rightarrow> 'p monitor \<Rightarrow> bool" for L sp where
  mo_enter: "mo_pc s 0 \<in> {Enter, Awake} \<Longrightarrow> Mutex_lock 0 (mo_mutex s) = Some m \<Longrightarrow>
    monitor_step L sp s (s\<lparr>mo_mutex := m, mo_pc := (mo_pc s)(0 := Check)\<rparr>)"
| mo_leave: "mo_pc s 0 = Check \<Longrightarrow> lp_miss L (mo_pool s) \<Longrightarrow> \<not> mo_running s \<Longrightarrow>
    Mutex_unlock 0 (mo_mutex s) = Some m \<Longrightarrow>
    monitor_step L sp s (s\<lparr>mo_mutex := m, mo_pc := (mo_pc s)(0 := Gone)\<rparr>)"
| mo_test: "mo_pc s 0 = Check \<Longrightarrow> lp_miss L (mo_pool s) \<Longrightarrow> mo_running s \<Longrightarrow>
    monitor_step L sp s (s\<lparr>mo_pc := (mo_pc s)(0 := Tested)\<rparr>)"
| mo_skip: "mo_pc s 0 = Tested \<Longrightarrow> lp_skip L (mo_pool s) = Some p \<Longrightarrow>
    monitor_step L sp s (s\<lparr>mo_pool := p, mo_pc := (mo_pc s)(0 := Check)\<rparr>)"
| mo_decide: "mo_pc s 0 = Tested \<Longrightarrow> lp_skip L (mo_pool s) = None \<Longrightarrow>
    monitor_step L sp s (s\<lparr>mo_pc := (mo_pc s)(0 := Deciding)\<rparr>)"
| mo_wait: "mo_pc s 0 = Deciding \<Longrightarrow> ConditionVariable_wait 0 (mo_mutex s, mo_cv s) = Some (m, c) \<Longrightarrow>
    monitor_step L sp s (s\<lparr>mo_mutex := m, mo_cv := c, mo_pc := (mo_pc s)(0 := Asleep)\<rparr>)"
| mo_take: "mo_pc s 0 = Check \<Longrightarrow> \<not> lp_miss L (mo_pool s) \<Longrightarrow> lp_get L (mo_pool s) p \<Longrightarrow>
    Mutex_unlock 0 (mo_mutex s) = Some m \<Longrightarrow>
    monitor_step L sp s (s\<lparr>mo_pool := p, mo_mutex := m, mo_pc := (mo_pc s)(0 := Away)\<rparr>)"
| mo_turn: "mo_pc s 0 = Away \<Longrightarrow>
    monitor_step L sp s (s\<lparr>mo_pc := (mo_pc s)(0 := (if mo_running s then Enter else Gone))\<rparr>)"
| mo_lock: "t \<noteq> 0 \<Longrightarrow> mo_pc s t = Rest \<Longrightarrow> Mutex_lock t (mo_mutex s) = Some m \<Longrightarrow>
    monitor_step L sp s (s\<lparr>mo_mutex := m, mo_pc := (mo_pc s)(t := Locked)\<rparr>)"
| mo_put: "t \<noteq> 0 \<Longrightarrow> mo_pc s t = Locked \<Longrightarrow> lp_put L (mo_pool s) p \<Longrightarrow>
    monitor_step L sp s (s\<lparr>mo_pool := p, mo_pc := (mo_pc s)(t := Pushed)\<rparr>)"
| mo_unlock: "t \<noteq> 0 \<Longrightarrow> mo_pc s t = Pushed \<Longrightarrow> Mutex_unlock t (mo_mutex s) = Some m \<Longrightarrow>
    monitor_step L sp s (s\<lparr>mo_mutex := m, mo_pc := (mo_pc s)(t := Signalling)\<rparr>)"
| mo_stop: "t \<noteq> 0 \<Longrightarrow> mo_pc s t = Rest \<Longrightarrow>
    monitor_step L sp s (s\<lparr>mo_running := False, mo_pc := (mo_pc s)(t := Signalling)\<rparr>)"
| mo_signal: "t \<noteq> 0 \<Longrightarrow> mo_pc s t = Signalling \<Longrightarrow> w \<in> cv_waiting (mo_cv s) \<Longrightarrow>
    monitor_step L sp s (s\<lparr>mo_cv := ConditionVariable_signal w (mo_cv s), mo_pc := (mo_pc s)(t := Rest, w := Awake)\<rparr>)"
| mo_signal_none: "t \<noteq> 0 \<Longrightarrow> mo_pc s t = Signalling \<Longrightarrow> cv_waiting (mo_cv s) = {} \<Longrightarrow>
    monitor_step L sp s (s\<lparr>mo_pc := (mo_pc s)(t := Rest)\<rparr>)"
| mo_spurious: "sp \<Longrightarrow> w \<in> cv_waiting (mo_cv s) \<Longrightarrow>
    monitor_step L sp s (s\<lparr>mo_cv := ConditionVariable_signal w (mo_cv s), mo_pc := (mo_pc s)(w := Awake)\<rparr>)"
| mo_poke: "lp_poke L (mo_pool s) p \<Longrightarrow> monitor_step L sp s (s\<lparr>mo_pool := p\<rparr>)"

section \<open>What the loop guarantees\<close>

definition in_section :: "pc \<Rightarrow> bool" where
  "in_section x \<longleftrightarrow> x \<in> {Check, Tested, Deciding, Locked, Pushed}"

text \<open>
  The thread that owns the mutex is the one in its critical section, exactly a worker that is asleep waits on the
  condition variable, what the worker found out under the lock still holds, and if there is
  something to do while it sleeps, a thread is on its way to wake it.
\<close>

definition owner_ok :: "'p monitor \<Rightarrow> bool" where
  "owner_ok s \<longleftrightarrow> (\<forall>t. in_section (mo_pc s t) \<longleftrightarrow> mx_owner (mo_mutex s) = Some t)"

definition roles_ok :: "'p monitor \<Rightarrow> bool" where
  "roles_ok s \<longleftrightarrow>
     mo_pc s 0 \<in> {Enter, Check, Tested, Deciding, Asleep, Awake, Away, Gone} \<and>
     (\<forall>t. t \<noteq> 0 \<longrightarrow> mo_pc s t \<in> {Rest, Locked, Pushed, Signalling}) \<and>
     cv_waiting (mo_cv s) = (if mo_pc s 0 = Asleep then {0} else {})"

definition waker :: "'p monitor \<Rightarrow> bool" where
  "waker s \<longleftrightarrow> (\<exists>t. t \<noteq> 0 \<and> mo_pc s t \<in> {Pushed, Signalling})"

definition knows_ok :: "'p wait_loop \<Rightarrow> 'p monitor \<Rightarrow> bool" where
  "knows_ok L s \<longleftrightarrow>
     (mo_pc s 0 = Tested \<longrightarrow> lp_miss L (mo_pool s)) \<and>
     (mo_pc s 0 = Deciding \<longrightarrow> lp_idle L (mo_pool s)) \<and>
     (mo_pc s 0 = Asleep \<longrightarrow> lp_idle L (mo_pool s) \<or> waker s)"

definition monitor_ok :: "'p wait_loop \<Rightarrow> 'p monitor \<Rightarrow> bool" where
  "monitor_ok L s \<longleftrightarrow> owner_ok s \<and> roles_ok s \<and> knows_ok L s"

lemma monitor_new_ok: "monitor_ok L (monitor_new p)"
  by (simp add: monitor_ok_def owner_ok_def roles_ok_def knows_ok_def monitor_new_def Mutex_new_def
      ConditionVariable_new_def in_section_def)

lemma owner_ok_enter:
  assumes "owner_ok s" "mx_owner (mo_mutex s) = None" "in_section x"
    and "mo_pc s' = (mo_pc s)(t := x)" "mx_owner (mo_mutex s') = Some t"
  shows "owner_ok s'"
  using assms by (auto simp: owner_ok_def)

lemma owner_ok_exit:
  assumes "owner_ok s" "mx_owner (mo_mutex s) = Some t" "\<not> in_section x"
    and "mo_pc s' = (mo_pc s)(t := x)" "mx_owner (mo_mutex s') = None"
  shows "owner_ok s'"
  using assms by (auto simp: owner_ok_def)

lemma owner_ok_keep:
  assumes "owner_ok s" "\<And>x. in_section (mo_pc s' x) = in_section (mo_pc s x)"
    and "mx_owner (mo_mutex s') = mx_owner (mo_mutex s)"
  shows "owner_ok s'"
  using assms by (simp add: owner_ok_def)

lemma owner_ok_step: "monitor_step L sp s s' \<Longrightarrow> roles_ok s \<Longrightarrow> owner_ok s \<Longrightarrow> owner_ok s'"
proof (induction rule: monitor_step.induct)
  case (mo_enter s m)
  show ?case by (rule owner_ok_enter [OF mo_enter(4), of Check _ 0]) (use mo_enter in \<open>simp_all add: pthread_simps in_section_def\<close>)
next
  case (mo_leave s m)
  show ?case by (rule owner_ok_exit [OF mo_leave(6), of 0 Gone]) (use mo_leave in \<open>simp_all add: pthread_simps in_section_def\<close>)
next
  case (mo_wait s m c)
  show ?case by (rule owner_ok_exit [OF mo_wait(4), of 0 Asleep]) (use mo_wait in \<open>simp_all add: pthread_simps in_section_def\<close>)
next
  case (mo_take s p m)
  show ?case by (rule owner_ok_exit [OF mo_take(6), of 0 Away]) (use mo_take in \<open>simp_all add: pthread_simps in_section_def\<close>)
next
  case (mo_lock t s m)
  show ?case by (rule owner_ok_enter [OF mo_lock(5), of Locked _ t]) (use mo_lock in \<open>simp_all add: pthread_simps in_section_def\<close>)
next
  case (mo_unlock t s m)
  show ?case by (rule owner_ok_exit [OF mo_unlock(5), of t Signalling]) (use mo_unlock in \<open>simp_all add: pthread_simps in_section_def\<close>)
next
  case (mo_signal t s w)
  then have "mo_pc s w = Asleep" by (auto simp: roles_ok_def split: if_splits)
  then show ?case using mo_signal(2) by (intro owner_ok_keep [OF mo_signal(5)]) (auto simp: in_section_def)
next
  case (mo_spurious w s)
  then have "mo_pc s w = Asleep" by (auto simp: roles_ok_def split: if_splits)
  then show ?case by (intro owner_ok_keep [OF mo_spurious(4)]) (auto simp: in_section_def)
next
  case (mo_turn s)
  show ?case by (rule owner_ok_keep [OF mo_turn(3)]) (use mo_turn in \<open>auto simp: in_section_def\<close>)
next
  case (mo_test s)
  show ?case by (rule owner_ok_keep [OF mo_test(5)]) (use mo_test in \<open>auto simp: in_section_def\<close>)
next
  case (mo_skip s p)
  show ?case by (rule owner_ok_keep [OF mo_skip(4)]) (use mo_skip in \<open>auto simp: in_section_def\<close>)
next
  case (mo_decide s)
  show ?case by (rule owner_ok_keep [OF mo_decide(4)]) (use mo_decide in \<open>auto simp: in_section_def\<close>)
next
  case (mo_put t s p)
  show ?case by (rule owner_ok_keep [OF mo_put(5)]) (use mo_put in \<open>auto simp: in_section_def\<close>)
next
  case (mo_stop t s)
  show ?case by (rule owner_ok_keep [OF mo_stop(4)]) (use mo_stop in \<open>auto simp: in_section_def\<close>)
next
  case (mo_signal_none t s)
  show ?case by (rule owner_ok_keep [OF mo_signal_none(5)]) (use mo_signal_none in \<open>auto simp: in_section_def\<close>)
qed (simp add: owner_ok_def)

lemma roles_ok_step: "monitor_step L sp s s' \<Longrightarrow> roles_ok s \<Longrightarrow> roles_ok s'"
  by (induction rule: monitor_step.induct)
    (auto simp: roles_ok_def pthread_simps ConditionVariable_signal_def split: if_splits)

text \<open>Only the owner of the mutex can add an item, so nobody does while the worker holds it.\<close>

lemma owner_excludes: "owner_ok s \<Longrightarrow> in_section (mo_pc s t) \<Longrightarrow> in_section (mo_pc s t') \<Longrightarrow> t = t'"
  by (simp add: owner_ok_def)

text \<open>The contract: what happens without the lock never gives the worker something to do.\<close>

locale quiet_loop =
  fixes L :: "'p wait_loop"
  assumes poke_miss: "lp_poke L p p' \<Longrightarrow> lp_miss L p \<Longrightarrow> lp_miss L p'"
    and poke_skip: "lp_poke L p p' \<Longrightarrow> lp_idle L p \<Longrightarrow> lp_skip L p' = None"
begin

lemma poke_idle: "lp_poke L p p' \<Longrightarrow> lp_idle L p \<Longrightarrow> lp_idle L p'"
  using poke_miss poke_skip by (auto simp: lp_idle_def)

lemma knows_ok_step:
  assumes "monitor_step L sp s s'" "owner_ok s" "roles_ok s" "knows_ok L s"
  shows "knows_ok L s'"
  using assms
proof (induction rule: monitor_step.induct)
  case (mo_poke s p)
  then show ?case
    using poke_idle [OF mo_poke(1)] poke_miss [OF mo_poke(1)] by (auto simp: knows_ok_def waker_def)
next
  case (mo_wait s m c)
  then show ?case by (simp add: knows_ok_def)
next
  case (mo_put t s p)
  then have "mo_pc s 0 \<noteq> Tested" "mo_pc s 0 \<noteq> Deciding"
    using owner_excludes [of s 0 t] by (auto simp: in_section_def)
  then show ?case using mo_put(1) by (auto simp: knows_ok_def waker_def)
next
  case (mo_lock t s m)
  have "waker (s\<lparr>mo_mutex := m, mo_pc := (mo_pc s)(t := Locked)\<rparr>)" if "waker s"
    using that mo_lock(2) by (force simp: waker_def)
  then show ?case using mo_lock by (auto simp: knows_ok_def)
next
  case (mo_unlock t s m)
  then show ?case by (auto simp: knows_ok_def waker_def)
next
  case (mo_stop t s)
  then show ?case by (auto simp: knows_ok_def waker_def)
next
  case (mo_signal t s w)
  then show ?case by (auto simp: knows_ok_def waker_def roles_ok_def split: if_splits)
next
  case (mo_signal_none t s)
  then show ?case by (auto simp: knows_ok_def waker_def roles_ok_def split: if_splits)
next
  case (mo_spurious w s)
  then show ?case by (auto simp: knows_ok_def waker_def roles_ok_def split: if_splits)
qed (simp_all add: knows_ok_def lp_idle_def)

lemma monitor_step_ok: "monitor_step L sp s s' \<Longrightarrow> monitor_ok L s \<Longrightarrow> monitor_ok L s'"
  using owner_ok_step [of L sp s s'] roles_ok_step [of L sp s s'] knows_ok_step [of sp s s'] by (simp add: monitor_ok_def)

lemma monitor_reach_ok: "(monitor_step L sp)\<^sup>*\<^sup>* (monitor_new p) s \<Longrightarrow> monitor_ok L s"
proof (induction rule: rtranclp_induct)
  case base
  show ?case by (rule monitor_new_ok)
next
  case (step s s')
  show ?case by (rule monitor_step_ok [OF step.hyps(2) step.IH])
qed

text \<open>A worker that sleeps while everybody else is at rest has nothing to do.\<close>

lemma asleep_idle:
  assumes "(monitor_step L sp)\<^sup>*\<^sup>* (monitor_new p) s" "mo_pc s 0 = Asleep" "\<forall>t. t \<noteq> 0 \<longrightarrow> mo_pc s t \<in> {Rest, Locked}"
  shows "lp_idle L (mo_pool s)"
proof -
  have "\<not> waker s"
  proof
    assume "waker s"
    then obtain t where t: "t \<noteq> 0" "mo_pc s t \<in> {Pushed, Signalling}" unfolding waker_def by blast
    with assms(3) have "mo_pc s t \<in> {Rest, Locked}" by blast
    with t show False by auto
  qed
  then show ?thesis using monitor_reach_ok [OF assms(1)] assms(2) by (simp add: monitor_ok_def knows_ok_def)
qed

end

section \<open>Two runs\<close>

definition asleep :: "bool \<Rightarrow> 'p \<Rightarrow> 'p monitor" where
  "asleep running p =
     \<lparr>mo_running = running, mo_mutex = Mutex_new, mo_cv = \<lparr>cv_waiting = {0}\<rparr>, mo_pool = p,
      mo_pc = (\<lambda>t. if t = 0 then Asleep else Rest)\<rparr>"

definition deciding :: "bool \<Rightarrow> pc \<Rightarrow> 'p \<Rightarrow> 'p monitor" where
  "deciding running x p =
     \<lparr>mo_running = running, mo_mutex = \<lparr>mx_owner = Some 0\<rparr>, mo_cv = ConditionVariable_new, mo_pool = p,
      mo_pc = (\<lambda>t. if t = 0 then Deciding else if t = 1 then x else Rest)\<rparr>"

lemma reach_deciding:
  assumes "lp_idle L p"
  shows "(monitor_step L sp)\<^sup>*\<^sup>* (monitor_new p) (deciding True Rest p)"
proof -
  let ?m = "\<lparr>mx_owner = Some 0\<rparr>"
  let ?s1 = "(monitor_new p)\<lparr>mo_mutex := ?m, mo_pc := (mo_pc (monitor_new p))(0 := Check)\<rparr>"
  let ?s2 = "?s1\<lparr>mo_pc := (mo_pc ?s1)(0 := Tested)\<rparr>"
  let ?s3 = "?s2\<lparr>mo_pc := (mo_pc ?s2)(0 := Deciding)\<rparr>"
  have "monitor_step L sp (monitor_new p) ?s1"
    by (rule mo_enter) (simp_all add: monitor_new_def Mutex_lock_def Mutex_new_def)
  moreover have "monitor_step L sp ?s1 ?s2"
    using assms by (intro mo_test) (simp_all add: monitor_new_def lp_idle_def)
  moreover have "monitor_step L sp ?s2 ?s3"
    using assms by (intro mo_decide) (simp_all add: monitor_new_def lp_idle_def)
  moreover have "?s3 = deciding True Rest p"
    by (simp add: monitor_new_def deciding_def fun_eq_iff)
  ultimately show ?thesis by (metis (no_types, lifting) rtranclp.simps)
qed

lemma deciding_sleeps: "monitor_step L sp (deciding running Rest p) (asleep running p)"
proof -
  let ?s = "deciding running Rest p"
  let ?s' = "?s\<lparr>mo_mutex := Mutex_new, mo_cv := \<lparr>cv_waiting = {0}\<rparr>, mo_pc := (mo_pc ?s)(0 := Asleep)\<rparr>"
  have "monitor_step L sp ?s ?s'"
    by (rule mo_wait) (simp_all add: deciding_def pthread_simps Mutex_new_def ConditionVariable_new_def)
  moreover have "?s' = asleep running p" by (simp add: deciding_def asleep_def fun_eq_iff)
  ultimately show ?thesis by simp
qed

lemma reach_asleep: "lp_idle L p \<Longrightarrow> (monitor_step L sp)\<^sup>*\<^sup>* (monitor_new p) (asleep True p)"
  by (rule rtranclp.rtrancl_into_rtrancl [OF reach_deciding deciding_sleeps])

text \<open>A stop between the worker's test of \<open>worker_running\<close> and its wait: the signal finds nobody waiting.\<close>

lemma reach_stopped_asleep:
  assumes "lp_idle L p"
  shows "(monitor_step L sp)\<^sup>*\<^sup>* (monitor_new p) (asleep False p)"
proof -
  let ?s = "deciding True Rest p" let ?s1 = "deciding False Signalling p"
  have "monitor_step L sp ?s (?s\<lparr>mo_running := False, mo_pc := (mo_pc ?s)(1 := Signalling)\<rparr>)"
    by (rule mo_stop) (simp_all add: deciding_def)
  moreover have "?s\<lparr>mo_running := False, mo_pc := (mo_pc ?s)(1 := Signalling)\<rparr> = ?s1"
    by (simp add: deciding_def fun_eq_iff)
  moreover have "monitor_step L sp ?s1 (?s1\<lparr>mo_pc := (mo_pc ?s1)(1 := Rest)\<rparr>)"
    by (rule mo_signal_none) (simp_all add: deciding_def ConditionVariable_new_def)
  moreover have "?s1\<lparr>mo_pc := (mo_pc ?s1)(1 := Rest)\<rparr> = deciding False Rest p"
    by (simp add: deciding_def fun_eq_iff)
  moreover note reach_deciding [OF assms, of sp] deciding_sleeps [of L sp False p]
  ultimately show ?thesis by (metis (no_types, lifting) rtranclp.rtrancl_into_rtrancl)
qed

text \<open>Such a worker can only be woken by a thread that comes to add an item, or stops the socket again.\<close>

lemma asleep_steps:
  assumes "monitor_step L False (asleep running p) s'"
  shows "mo_pc s' 0 = Asleep \<and> (mo_pool s' = p \<or> lp_poke L p (mo_pool s')) \<and>
     (mo_pc s' = mo_pc (asleep running p) \<or> (\<exists>t. t \<noteq> 0 \<and> mo_pc s' t \<in> {Locked, Signalling}))"
  using assms by (cases rule: monitor_step.cases) (auto simp: asleep_def split: if_splits)

end
