(* ===== verification/Workers.thy ===== *)
theory Workers
  imports Pthread RudpSend
begin

text \<open>
  The waiting loops of \<open>src/src/rudp/ReliableSocket.cpp\<close>: the main sender waits on \<open>send_cv\<close> for \<open>send_pool\<close>, the
  acknowledgement handler on \<open>ack_cv\<close> for \<open>ack_pool\<close>, and \<open>recv_package\<close> on \<open>recv_cv\<close> for the next package. Each is an instance of
  the loop of \<open>Pthread\<close>, with the operations of the containers as what happens to the shared data.
\<close>

section \<open>The loops\<close>

text \<open>The sender; \<open>erase\<close> is called by the acknowledgement handler without the lock.\<close>

definition send_loop :: "packagequeuemap wait_loop" where
  "send_loop =
     \<lparr>lp_miss = (\<lambda>m. PackageQueueMap_size m = 0),
      lp_skip = (\<lambda>_. None),
      lp_get = (\<lambda>m m'. m' = snd (PackageQueueMap_pop m)),
      lp_put = (\<lambda>m m'. (\<exists>a i h h'. PackageQueueMap_push a i (h, m) = Inr (h', m')) \<or>
                       (\<exists>i. m' = PackageQueueMap_push_resend i m)),
      lp_poke = (\<lambda>m m'. \<exists>i h h'. PackageQueueMap_erase i (h, m) = Inr (h', m'))\<rparr>"

definition ack_loop :: "ackwaitlist wait_loop" where
  "ack_loop =
     \<lparr>lp_miss = (\<lambda>w. AckWaitList_size w = 0),
      lp_skip = (\<lambda>_. None),
      lp_get = (\<lambda>w w'. \<exists>h p. AckWaitList_pop h w = Inr (p, w')),
      lp_put = (\<lambda>w w'. \<exists>h a. AckWaitList_push a h w = Inr w'),
      lp_poke = (\<lambda>_ _. False)\<rparr>"

text \<open>
  \<open>recv_package\<close>; its own \<open>erase\<close> runs without the lock, and so does (with \<open>skips\<close>) the handling of an acknowledgement,
  which may raise \<open>recv_ack_id\<close> over packages that the peer gave up. The receiver adds data packages under the
  lock. Identifiers start at 1.
\<close>

definition recv_loop :: "bool \<Rightarrow> rsock wait_loop" where
  "recv_loop skips =
     \<lparr>lp_miss = (\<lambda>s. PackageMap_find (so_recv_id s) (so_recv_pool s) = None),
      lp_skip = (\<lambda>s. if so_recv_id s < so_recv_ack_id s then Some (s\<lparr>so_recv_id := so_recv_id s + 1\<rparr>) else None),
      lp_get = (\<lambda>s s'. s' = s\<lparr>so_recv_id := so_recv_id s + 1\<rparr>),
      lp_put = (\<lambda>s s'. \<exists>e r. handle_data e r s = Inr s'),
      lp_poke = (\<lambda>s s'. so_recv_id s \<noteq> 0 \<and>
        (\<exists>i h pool. PackageMap_erase i (so_heap s, so_recv_pool s) = Inr (h, pool) \<and>
           s' = s\<lparr>so_heap := h, so_recv_pool := pool\<rparr>) \<or>
        skips \<and> handle_ack s = Inr s')\<rparr>"

lemma erase_size: "PackageQueueMap_erase i (h, m) = Inr (h', m') \<Longrightarrow> PackageQueueMap_size m' = PackageQueueMap_size m"
  by (auto simp: PackageQueueMap_erase_def PackageQueueMap_size_def Let_def bind_out_eq_Inr_iff split: if_splits)

interpretation send_wait: quiet_loop send_loop
  by unfold_locales (auto simp: send_loop_def lp_idle_def erase_size)

interpretation ack_wait: quiet_loop ack_loop
  by unfold_locales (auto simp: ack_loop_def lp_idle_def)

lemma nth_update_cases: "xs[i := v] ! k = v \<or> xs[i := v] ! k = xs ! k"
  by (cases "k = i"; cases "i < length xs") (simp_all add: list_update_beyond)

lemma PackageMap_erase_miss:
  assumes "PackageMap_erase i (h, m) = Inr (h', m')" "PackageMap_find j m = None" "j \<noteq> 0"
  shows "PackageMap_find j m' = None"
proof (cases "pm_arr_id m ! slot (pm_capacity m) i = i")
  case True
  then have "m' = m\<lparr>pm_arr_id := (pm_arr_id m)[slot (pm_capacity m) i := 0]\<rparr>"
    using assms(1) by (auto simp: PackageMap_erase_def Let_def bind_out_eq_Inr_iff)
  then show ?thesis
    using assms(2,3) nth_update_cases [of "pm_arr_id m" "slot (pm_capacity m) i" 0 "slot (pm_capacity m) j"]
    by (auto simp: PackageMap_find_def split: if_split_asm)
next
  case False
  then show ?thesis using assms(1,2) by (simp add: PackageMap_erase_def Let_def)
qed

interpretation reader_wait: quiet_loop "recv_loop False"
  by unfold_locales (auto simp: recv_loop_def lp_idle_def dest: PackageMap_erase_miss)

section \<open>Properties\<close>

text \<open>A reader that \<open>recv_loop\<close> lets wait is one for which \<open>recv_wait\<close> of \<open>RudpSocket\<close> blocks.\<close>

lemma reader_idle:
  "lp_idle (recv_loop skips) s \<Longrightarrow>
     recv_wait True (so_recv_pool s) (so_recv_ack_id s) (so_recv_id s) = (so_recv_id s, Inr RecvBlocked)"
  by (subst recv_wait.simps) (auto simp: lp_idle_def recv_loop_def split: if_splits)



text \<open>
  C9: A stop can be lost. \<open>stop_all_thread\<close> clears \<open>worker_running\<close> and signals without holding the mutex, so it can fall
  between the sender's test of the flag and its wait. The sender then sleeps although the socket is
  stopped and every other thread is at rest, and only a thread that adds a package, or a second
  stop, can wake it.
\<close>

theorem stop_wakeup_lost:
  "\<exists>s. (monitor_step send_loop False)\<^sup>*\<^sup>* (monitor_new (PackageQueueMap_new n)) s \<and> \<not> mo_running s \<and>
     mo_pc s = (\<lambda>t. if t = 0 then Asleep else Rest) \<and>
     {s'. monitor_step send_loop False s s'} \<subseteq>
       {s'. mo_pc s' 0 = Asleep \<and> PackageQueueMap_size (mo_pool s') = 0 \<and>
          (mo_pc s' = mo_pc s \<or> (\<exists>t. t \<noteq> 0 \<and> mo_pc s' t \<in> {Locked, Signalling}))}"
proof -
  let ?m = "PackageQueueMap_new n" let ?s = "asleep False (PackageQueueMap_new n)"
  have z: "PackageQueueMap_size ?m = 0" by (simp add: PackageQueueMap_size_def PackageQueueMap_new_def)
  then have i: "lp_idle send_loop ?m" by (simp add: lp_idle_def send_loop_def)
  have "PackageQueueMap_size m' = 0" if "m' = ?m \<or> lp_poke send_loop ?m m'" for m'
    using that z erase_size by (auto simp: send_loop_def)
  then have "{s'. monitor_step send_loop False ?s s'} \<subseteq>
       {s'. mo_pc s' 0 = Asleep \<and> PackageQueueMap_size (mo_pool s') = 0 \<and>
          (mo_pc s' = mo_pc ?s \<or> (\<exists>t. t \<noteq> 0 \<and> mo_pc s' t \<in> {Locked, Signalling}))}"
    using asleep_steps [of send_loop False ?m] by blast
  then show ?thesis using reach_stopped_asleep [OF i, of False]
    by (intro exI [of _ ?s]) (simp add: asleep_def)
qed

end
