(* ===== verification/RudpGiveUp.thy ===== *)
theory RudpGiveUp
  imports Workers RudpTransmit
begin

text \<open>
  What happens when a package is given up after more than 20 transmissions: the acknowledgement handler of
  the sending side raises \<open>send_from\<close>, its acknowledgement packages carry the value, and the receiving
  side moves \<open>recv_ack_id\<close> up to it. \<open>ReliableSocket.h\<close> says that packages with identifiers less than \<open>send_from\<close> are received or
  dropped; the receiver also counts the package \<open>send_from\<close> itself.
\<close>

lemma pa_bytes_type: "parse_package_type (overlay (pa_bytes a) buf) = Inr (Some Ack)"
proof -
  have "take 4 (overlay (pa_bytes a) buf) = le_enc 4 (type_code Ack)" by (simp add: overlay_def pa_bytes_def)
  then show ?thesis
    by (simp add: parse_package_type_def overlay_def pa_bytes_def get_le_def le_val_enc decode_type_def)
qed

text \<open>The receiver on an acknowledgement.\<close>

lemma handle_ack_skips:
  assumes sh: "rx_shape s" and a: "PackageAck_load_buf (so_recv_buf s) = Inr a"
  shows "\<exists>s'. handle_ack s = Inr s' \<and> so_recv_ack_id s' = umax (so_recv_ack_id s) (pa_send_from a) \<and>
     rx_shape s' \<and> so_recv_pool s' = so_recv_pool s \<and> so_recv_id s' = so_recv_id s \<and> so_heap s' = so_heap s \<and>
     so_worker_running s' = so_worker_running s"
proof -
  obtain p m where c: "collect_acks (so_send_ack_id s) (so_send_id s) (pa_ack_list a)
      (so_ack_recv_pool s, 0) = (p, m)" by fastforce
  define s1 where "s1 = s\<lparr>so_recv_ack_id := umax (so_recv_ack_id s) (pa_send_from a)\<rparr>"
  define u where "u = (if pa_una a > so_send_id s then 0 else pa_una a)"
  define s2 where "s2 = s1\<lparr>so_ack_recv_pool := p, so_send_ack_id := umax u (so_send_ack_id s)\<rparr>"
  have "is_ok p" "is_size p = is_size (so_ack_recv_pool s)"
    using collect_acks_ok [OF _ c] sh by (auto simp: rx_shape_def)
  then have "rx_shape s2" using sh by (simp add: rx_shape_def s2_def s1_def)
  then obtain z where z: "advance_send_ack s2 = Inr (s2\<lparr>so_send_ack_id := z\<rparr>)"
    by (rule advance_send_ack_total)
  have s1: "(if pa_send_from a > so_recv_ack_id s then s\<lparr>so_recv_ack_id := pa_send_from a\<rparr> else s) = s1"
    by (simp add: s1_def umax_def)
  have "handle_ack s = Inr (fast_resend m (s2\<lparr>so_send_ack_id := z\<rparr>))"
    using a c z by (simp add: handle_ack_def Let_def s1 u_def [symmetric]) (simp add: s2_def s1_def)
  moreover have "rx_shape (fast_resend m (s2\<lparr>so_send_ack_id := z\<rparr>))"
    using \<open>rx_shape s2\<close> by (simp add: fast_resend_frame) (simp add: rx_shape_def)
  ultimately show ?thesis by (auto simp: fast_resend_def Let_def s2_def s1_def)
qed

lemma receiver_ack_skips:
  assumes sh: "rx_shape s" and a: "length (pa_ack_list a) \<le> 35"
  shows "\<exists>s'. receiver_step e now (pa_bytes a) s = Inr (s', []) \<and>
     so_recv_ack_id s' = umax (so_recv_ack_id s) (pa_send_from a) \<and> rx_shape s' \<and>
     so_recv_pool s' = so_recv_pool s \<and> so_recv_id s' = so_recv_id s \<and> so_heap s' = so_heap s"
proof -
  define s1 where "s1 = s\<lparr>so_recv_buf := overlay (pa_bytes a) (so_recv_buf s)\<rparr>"
  have len: "0 < length (pa_bytes a)" "length (pa_bytes a) \<le> MAX_MTU"
    using a by (simp_all add: length_pa_bytes pa_length_def sizeof_defs MAX_MTU_def)
  have "PackageAck_load_buf (so_recv_buf s1) = Inr a" using a by (simp add: s1_def PackageAck_roundtrip)
  moreover have "rx_shape s1" using sh by (simp add: rx_shape_def s1_def)
  ultimately obtain s' where s': "handle_ack s1 = Inr s'"
      "so_recv_ack_id s' = umax (so_recv_ack_id s1) (pa_send_from a)" "rx_shape s'" "so_recv_pool s' = so_recv_pool s1"
      "so_recv_id s' = so_recv_id s1" "so_heap s' = so_heap s1"
    using handle_ack_skips [of s1 a] by blast
  have "receiver_step e now (pa_bytes a) s = Inr (s', [])"
    using len s'(1) pa_bytes_type [of a "so_recv_buf s"]
    by (simp add: receiver_step_def process_package_def Let_def s1_def)
  with s'(2-6) show ?thesis by (auto simp: s1_def)
qed

text \<open>A data package at or below \<open>recv_ack_id\<close> is thrown away.\<close>

lemma receiver_drops_late:
  assumes sh: "rx_shape s" and d: "pd_type d = Data" "length (pd_bytes d) \<le> MAX_MTU" "pd_package_id d \<le> so_recv_ack_id s"
  shows "\<exists>s'. receiver_step e now (pd_bytes d) s = Inr (s', []) \<and> so_recv_pool s' = so_recv_pool s"
proof -
  define s1 where "s1 = s\<lparr>so_recv_buf := overlay (pd_bytes d) (so_recv_buf s)\<rparr>"
  have "0 < length (pd_bytes d)" by (simp add: length_pd_bytes pd_length_def sizeof_defs)
  then have rs: "receiver_step e now (pd_bytes d) s = bind_out (handle_data e (pd_length d) s1) (\<lambda>s. Inr (s, []))"
    using d(1,2) pd_bytes_type [of d "so_recv_buf s"]
    by (auto simp: receiver_step_def process_package_def s1_def length_pd_bytes [symmetric] Let_def)
  define d1 where "d1 = d\<lparr>pd_type := Data, pd_send_count := 0, pd_send_time := ev_junk_time e\<rparr>"
  obtain a h1 where n: "heap_new d1 (so_heap s) = (a, h1)" by fastforce
  have fb: "PackageData_from_buf (ev_junk_time e) (so_recv_buf s1) (pd_length d) = Inr d1"
    by (simp add: s1_def d1_def PackageData_roundtrip)
  obtain h2 where h2: "heap_delete (Some a) h1 = Inr h2" using n by (auto simp: heap_new_def heap_delete_def)
  define s2 where "s2 = s1\<lparr>so_heap := h2\<rparr>"
  have sh2: "rx_shape s2" using sh by (simp add: rx_shape_def s2_def s1_def)
  then obtain y where y: "advance_recv_ack s2 = Inr (s2\<lparr>so_recv_ack_id := y\<rparr>)" by (rule advance_recv_ack_total)
  define s3 where "s3 = s2\<lparr>so_recv_ack_id := y, so_ack_send_queue := AckQueue_push (pd_package_id d) (so_ack_send_queue s2),
      so_send_ack_id := umax (so_send_ack_id s2) (pd_una d1)\<rparr>"
  have "rx_shape s3" using sh2 by (simp add: rx_shape_def s3_def)
  then obtain z where z: "advance_send_ack s3 = Inr (s3\<lparr>so_send_ack_id := z\<rparr>)" by (rule advance_send_ack_total)
  have "\<not> so_recv_ack_id s1 < pd_package_id d1" using d(3) by (simp add: s1_def d1_def)
  then have "handle_data e (pd_length d) s1 = Inr (s3\<lparr>so_send_ack_id := z\<rparr>)"
    using fb n h2 y z by (simp add: handle_data_def Let_def s1_def s2_def) (simp add: s3_def s2_def s1_def d1_def)
  then show ?thesis using rs by (simp add: s3_def s2_def s1_def)
qed

text \<open>The sending side: what giving up does to \<open>send_from\<close>, and what its acknowledgements carry.\<close>

lemma ackhandler_gives_up:
  assumes pop: "ackhandler_pop s = Inr s'" and ne: "so_send_from s' \<noteq> so_send_from s"
  shows "\<exists>p d. heap_get p (so_send_heap s) = Inr d \<and> 20 < pd_send_count d \<and>
     so_send_from s' = pd_package_id d + 1 \<and> so_send_from s < pd_package_id d"
proof (cases "so_ack_cur s \<noteq> None \<or> AckWaitList_size (so_ack_pool s) = 0")
  case True
  with pop ne show ?thesis by (simp add: ackhandler_pop_def)
next
  case False
  then obtain p w d where p: "AckWaitList_pop (so_send_heap s) (so_ack_pool s) = Inr (p, w)"
      "heap_get p (so_send_heap s) = Inr d"
    using pop by (auto simp: ackhandler_pop_def bind_out_eq_Inr_iff Let_def)
  have c: "20 < pd_send_count d"
  proof (rule ccontr)
    assume "\<not> 20 < pd_send_count d"
    then show False using False p pop ne by (auto simp: ackhandler_pop_def Let_def)
  qed
  obtain h pool where e: "PackageQueueMap_erase (pd_package_id d) (so_send_heap s, so_send_pool s) = Inr (h, pool)"
    using False p c pop by (auto simp: ackhandler_pop_def bind_out_eq_Inr_iff Let_def)
  obtain x where x: "heap_get p h = Inr x"
    "so_send_from s' = (if pd_package_id x > so_send_from s then pd_package_id x + 1 else so_send_from s)"
    using False p c pop e by (cases "heap_get p h") (auto simp: ackhandler_pop_def Let_def)
  have sub: "hp_obj h b = Some y \<Longrightarrow> hp_obj (so_send_heap s) b = Some y" for b y
    using e by (auto simp: PackageQueueMap_erase_def Let_def bind_out_eq_Inr_iff heap_delete_def split: if_splits option.splits)
  have "x = d" using p(2) x(1) sub
    by (auto simp: heap_get_def of_option_def split: option.splits)
  then show ?thesis using p(2) c x(2) ne by (auto split: if_splits)
qed

lemma ack_sender_carries:
  assumes "aq_ok (so_ack_send_queue s)" "dg \<in> set (snd (ack_sender_step s))"
  shows "\<exists>a. dg = pa_bytes a \<and> pa_send_from a = so_send_from s \<and> length (pa_ack_list a) \<le> 35"
proof -
  let ?q = "AckQueue_copy (so_ack_send_queue s)"
  have "aq_ok ?q" using assms(1) by (simp add: aq_ok_def AckQueue_copy_def)
  from ack_drain_spec [OF this, of 35 "so_recv_ack_id s" "so_send_from s"] assms(2)
  show ?thesis by (auto simp: ack_sender_step_def)
qed

section \<open>Properties\<close>

text \<open>
  C7: Giving up one package loses the next one as well. When the acknowledgement handler gives up a package, the
  next acknowledgements announce its identifier plus one as \<open>send_from\<close>. A peer that receives one of them while it has
  acknowledged less moves its own acknowledgement to that identifier, so the package with exactly this
  identifier, which was not given up, is thrown away when it arrives afterwards.
\<close>

theorem given_up_takes_next:
  assumes "ackhandler_pop a = Inr a'" "so_send_from a' \<noteq> so_send_from a"
    and "aq_ok (so_ack_send_queue a')" "dg \<in> set (snd (ack_sender_step a'))"
    and "rx_shape b" "so_recv_ack_id b < so_send_from a'"
    and "pd_type d = Data" "length (pd_bytes d) \<le> MAX_MTU" "pd_package_id d = so_send_from a'"
  shows "\<exists>p x b1 b2. heap_get p (so_send_heap a) = Inr x \<and> 20 < pd_send_count x \<and>
     pd_package_id d = pd_package_id x + 1 \<and>
     receiver_step e now dg b = Inr (b1, []) \<and> so_recv_ack_id b1 = pd_package_id d \<and>
     receiver_step e' now' (pd_bytes d) b1 = Inr (b2, []) \<and> so_recv_pool b2 = so_recv_pool b"
proof -
  obtain p x where x: "heap_get p (so_send_heap a) = Inr x" "20 < pd_send_count x"
      "so_send_from a' = pd_package_id x + 1"
    using ackhandler_gives_up [OF assms(1,2)] by blast
  obtain k where k: "dg = pa_bytes k" "pa_send_from k = so_send_from a'" "length (pa_ack_list k) \<le> 35"
    using ack_sender_carries [OF assms(3,4)] by blast
  obtain b1 where b1: "receiver_step e now dg b = Inr (b1, [])" "rx_shape b1" "so_recv_pool b1 = so_recv_pool b"
      "so_recv_ack_id b1 = umax (so_recv_ack_id b) (pa_send_from k)"
    using receiver_ack_skips [OF assms(5) k(3)] k(1) by blast
  have ack: "so_recv_ack_id b1 = pd_package_id d" using b1(4) k(2) assms(6,9) by (auto simp: umax_def)
  obtain b2 where "receiver_step e' now' (pd_bytes d) b1 = Inr (b2, [])" "so_recv_pool b2 = so_recv_pool b1"
    using receiver_drops_late [OF b1(2) assms(7,8)] ack by fastforce
  with x b1 ack assms(9) show ?thesis by metis
qed

definition tired_package :: PackageData where
  "tired_package = \<lparr>pd_type = Data, pd_package_id = 1, pd_una = 0, pd_data = [7], pd_send_count = 21, pd_send_time = (0, 0)\<rparr>"

definition demo_tired :: rsock where
  "demo_tired = fresh_sock\<lparr>so_send_heap := snd (heap_new tired_package heap_empty),
     so_send_pool := (PackageQueueMap_new 8)\<lparr>qm_arr := (replicate 8 0)[1 := 1],
        qm_data_list := (replicate 8 None)[1 := Some 0], qm_ref := (replicate 8 0)[1 := 21]\<rparr>,
     so_ack_pool := (AckWaitList_new 8)\<lparr>wl_queue := (replicate 8 None)[0 := Some 0], wl_end := 1,
        wl_count := (replicate 8 0)[1 := 1], wl_len := 1\<rparr>,
     so_ack_send_queue := AckQueue_push 4 (AckQueue_new [0, 0] 2)\<rparr>"

lemma demo_tired_pop:
  "\<exists>a'. ackhandler_pop demo_tired = Inr a' \<and> so_send_from a' = 2 \<and>
     so_ack_send_queue a' = so_ack_send_queue demo_tired \<and> so_recv_ack_id a' = 0"
  by (simp add: ackhandler_pop_def demo_tired_def fresh_sock_def rsock_new_def AckWaitList_size_def AckWaitList_pop_def
      AckWaitList_new_def awl_skip.simps heap_new_def heap_empty_def heap_get_def tired_package_def slot_def
      PackageQueueMap_erase_def PackageQueueMap_new_def Let_def)

definition next_package :: PackageData where
  "next_package = \<lparr>pd_type = Data, pd_package_id = 2, pd_una = 0, pd_data = [8], pd_send_count = 1, pd_send_time = (0, 0)\<rparr>"

lemma demo_ack_sent:
  assumes "so_ack_send_queue s = so_ack_send_queue demo_tired" "so_recv_ack_id s = 0"
  shows "aq_ok (so_ack_send_queue s)" "\<exists>dg. dg \<in> set (snd (ack_sender_step s))"
proof -
  have q: "so_ack_send_queue s = AckQueue_push 4 (AckQueue_new [0, 0] 2)" using assms(1) by (simp add: demo_tired_def)
  show "aq_ok (so_ack_send_queue s)" by (simp add: q aq_ok_def ring_ok_def AckQueue_push_def AckQueue_new_def)
  have "AckQueue_size (AckQueue_copy (so_ack_send_queue s)) = 1"
    by (simp add: q AckQueue_size_def AckQueue_copy_def AckQueue_push_def AckQueue_new_def)
  moreover obtain ids q1 where "ack_load_loop 35 (so_recv_ack_id s) (AckQueue_copy (so_ack_send_queue s)) = (ids, q1)"
    by fastforce
  ultimately obtain p ps where "ack_drain 35 (so_recv_ack_id s) (so_send_from s) (AckQueue_copy (so_ack_send_queue s)) = p # ps"
    by (simp add: ack_drain.simps [of 35 "so_recv_ack_id s" "so_send_from s" "AckQueue_copy (so_ack_send_queue s)"])
  then show "\<exists>dg. dg \<in> set (snd (ack_sender_step s))" by (auto simp: ack_sender_step_def Let_def)
qed

theorem given_up_takes_next_witness:
  "\<exists>a dg p x b1 b2. ackhandler_pop demo_tired = Inr a \<and> dg \<in> set (snd (ack_sender_step a)) \<and>
     heap_get p (so_send_heap demo_tired) = Inr x \<and> 20 < pd_send_count x \<and> 2 = pd_package_id x + 1 \<and>
     receiver_step clear_env (0, 0) dg fresh_sock = Inr (b1, []) \<and> so_recv_ack_id b1 = 2 \<and>
     receiver_step clear_env (0, 0) (pd_bytes next_package) b1 = Inr (b2, []) \<and> so_recv_pool b2 = so_recv_pool fresh_sock"
proof -
  obtain a where a: "ackhandler_pop demo_tired = Inr a" "so_send_from a = 2"
      "so_ack_send_queue a = so_ack_send_queue demo_tired" "so_recv_ack_id a = 0"
    using demo_tired_pop by blast
  obtain dg where dg: "dg \<in> set (snd (ack_sender_step a))" using demo_ack_sent(2) [OF a(3,4)] ..
  have f: "so_send_from demo_tired = 0" "so_recv_ack_id fresh_sock = 0"
    by (simp_all add: demo_tired_def fresh_sock_def rsock_new_def)
  have d: "pd_type next_package = Data" "length (pd_bytes next_package) \<le> MAX_MTU" "pd_package_id next_package = 2"
    by (simp_all add: next_package_def length_pd_bytes pd_length_def sizeof_defs MAX_MTU_def)
  have ne: "so_send_from a \<noteq> so_send_from demo_tired" "so_recv_ack_id fresh_sock < so_send_from a"
      "pd_package_id next_package = so_send_from a"
    using a(2) f d(3) by simp_all
  note given_up_takes_next [OF a(1) ne(1) demo_ack_sent(1) [OF a(3,4)] dg fresh_shape ne(2) d(1,2) ne(3),
      of clear_env "(0, 0)" clear_env "(0, 0)"]
  then show ?thesis unfolding d(3) using a(1) dg by blast
qed

definition demo_waiting :: rsock where
  "demo_waiting = fresh_sock\<lparr>so_recv_buf := overlay (pa_bytes \<lparr>pa_una = 0, pa_send_from = 5, pa_ack_list = []\<rparr>) (so_recv_buf fresh_sock)\<rparr>"

text \<open>
  The reader is not woken by a skip. Acknowledgements are handled without the reader's lock and do not
  signal \<open>recv_cv\<close>: there is an execution after which \<open>recv_package\<close> sleeps, no thread is about to wake it, and yet
  its loop would go on if it looked, since the peer has announced that the missing package was given
  up.
\<close>

lemma skip_does_not_wake:
  "\<exists>s. (monitor_step (recv_loop True) False)\<^sup>*\<^sup>* (monitor_new demo_waiting) s \<and> mo_running s \<and>
     mo_pc s = (\<lambda>t. if t = 0 then Asleep else Rest) \<and>
     so_recv_id (mo_pool s) < so_recv_ack_id (mo_pool s)"
proof -
  have "PackageAck_load_buf (so_recv_buf demo_waiting) = Inr \<lparr>pa_una = 0, pa_send_from = 5, pa_ack_list = []\<rparr>"
    by (simp add: demo_waiting_def PackageAck_roundtrip)
  moreover have "rx_shape demo_waiting" using fresh_shape by (simp add: demo_waiting_def rx_shape_def)
  ultimately obtain p where p: "handle_ack demo_waiting = Inr p" "so_recv_ack_id p = 5" "so_recv_id p = 1"
    using handle_ack_skips [of demo_waiting] demo_fields by (fastforce simp: demo_waiting_def umax_def)
  have f: "so_recv_id demo_waiting = 1" "so_recv_ack_id demo_waiting = 0" "so_recv_pool demo_waiting = PackageMap_new 8"
    by (simp_all add: demo_waiting_def fresh_sock_def rsock_new_def)
  have "lp_idle (recv_loop True) demo_waiting"
    by (simp add: lp_idle_def recv_loop_def f PackageMap_find_def PackageMap_new_def slot_def)
  note reach_asleep [OF this, of False]
  moreover have "monitor_step (recv_loop True) False (asleep True demo_waiting) ((asleep True demo_waiting)\<lparr>mo_pool := p\<rparr>)"
    by (rule mo_poke) (use p(1) in \<open>simp add: recv_loop_def asleep_def\<close>)
  ultimately have "(monitor_step (recv_loop True) False)\<^sup>*\<^sup>* (monitor_new demo_waiting) ((asleep True demo_waiting)\<lparr>mo_pool := p\<rparr>)"
    by (rule rtranclp.rtrancl_into_rtrancl)
  then show ?thesis using p(2,3) by (intro exI [of _ "(asleep True demo_waiting)\<lparr>mo_pool := p\<rparr>"]) (simp add: asleep_def)
qed

end
