(* ===== verification/RudpConnect.thy ===== *)
theory RudpConnect
  imports RudpSocket
begin

text \<open>
  Model of the connection management of \<open>src/src/rudp/ReliableSocket.cpp\<close>: binding, listening, the request of a
  client (\<open>connect_addr\<close>), the answer of the server (\<open>accept_connection\<close>) and closing. The record
  \<open>conn\<close> adds the addresses and the port counter of the class to its \<open>rsock\<close>. What the operating
  system decides is an argument: the datagram that each wait brings, whether \<open>bind\<close> accepts a port,
  the clock, \<open>getaddrinfo\<close>.
\<close>

section \<open>State\<close>

record conn =
  cn_sock :: rsock
  cn_remote :: sockaddr        \<comment> \<open>\<open>remote_addr\<close>\<close>
  cn_connected :: sockaddr     \<comment> \<open>\<open>connected_addr\<close>\<close>
  cn_local :: sockaddr         \<comment> \<open>\<open>local_addr\<close>\<close>
  cn_free_port_now :: nat

definition conn_new :: "rsock \<Rightarrow> conn" where
  \<comment> \<open>\<^verbatim>\<open>new sockaddr()\<close> is zeroed\<close>
  "conn_new s = \<lparr>cn_sock = s, cn_remote = (0, 0), cn_connected = (0, 0), cn_local = (0, 0), cn_free_port_now = 0\<rparr>"

definition free_port_start :: nat where "free_port_start = 50020"

definition smin :: "u32 \<Rightarrow> u32 \<Rightarrow> u32" where
  \<comment> \<open>the macro \<open>min\<close> on \<open>int\<close>\<close>
  "smin a b = (if sint b < sint a then b else a)"

section \<open>Addresses, binding, listening, closing\<close>

type_synonym host_lookup = "string \<Rightarrow> u32 option"

definition get_ipinfo :: "host_lookup \<Rightarrow> string \<Rightarrow> u32 \<Rightarrow> sockaddr option" where
  \<comment> \<open>the hints ask for \<open>AF_INET\<close>; \<open>htons\<close> keeps the low 16 bits of the port\<close>
  "get_ipinfo gai host port = (case gai host of None \<Rightarrow> None | Some ip \<Rightarrow> Some (ip, ucast port))"

definition bind_addr :: "(sockaddr \<Rightarrow> bool) \<Rightarrow> sockaddr \<Rightarrow> conn \<Rightarrow> int \<times> conn" where
  "bind_addr can_bind addr c =
     (let c = c\<lparr>cn_local := addr\<rparr> in
      if can_bind addr then (0, c\<lparr>cn_sock := (cn_sock c)\<lparr>so_type := BindedSocket\<rparr>\<rparr>) else (-1, c))"

definition bind_addr_host ::
  "host_lookup \<Rightarrow> sockaddr \<Rightarrow> (sockaddr \<Rightarrow> bool) \<Rightarrow> string \<Rightarrow> u32 \<Rightarrow> conn \<Rightarrow> int \<times> conn" where
  \<comment> \<open>the result of \<open>get_ipinfo\<close> is not looked at: \<open>junk\<close> is the uninitialised \<open>addr\<close>\<close>
  "bind_addr_host gai junk can_bind host port c =
     bind_addr can_bind (case get_ipinfo gai host port of None \<Rightarrow> junk | Some a \<Rightarrow> a) c"

definition listen_addr :: "conn \<Rightarrow> int \<times> conn" where
  "listen_addr c = (0, c\<lparr>cn_sock := (cn_sock c)\<lparr>so_type := AcceptableSocket\<rparr>\<rparr>)"

definition close_addr :: "u8 \<Rightarrow> conn \<Rightarrow> conn \<times> (bytes \<times> sockaddr) list" where
  "close_addr junk c =
     (c\<lparr>cn_sock := stop_all_thread ((cn_sock c)\<lparr>so_worker_running := False\<rparr>)\<rparr>,
      [(PackageConnectionClose_bytes junk, cn_connected c)])"

section \<open>The client\<close>

text \<open>
  The loop that waits for the answer. \<open>net k\<close> is what the \<open>k\<close>-th \<open>select\<close> brings: nothing, or a datagram
  (an empty one stands for a failing \<open>recvfrom\<close>). \<open>recvfrom\<close> may store \<open>MAX_MTU\<close> bytes, the buffer of
  the answer has 12. The result is the number of retries and the buffer.
\<close>

definition recv_into :: "bytes \<Rightarrow> bytes \<Rightarrow> bytes outcome" where
  "recv_into dgram buf =
     (let dg = take MAX_MTU dgram in if length dg \<le> length buf then Inr (overlay dg buf) else Inl OutOfBounds)"

fun connect_loop :: "(nat \<Rightarrow> bytes option) \<Rightarrow> nat \<Rightarrow> nat \<Rightarrow> bytes \<Rightarrow> (nat \<times> bytes) outcome" where
  "connect_loop net 0 count buf = Inr (count, buf)"
| "connect_loop net (Suc n) count buf =
     (case net count of
        None \<Rightarrow> connect_loop net n (count + 1) buf
      | Some dg \<Rightarrow>
          if dg = [] then connect_loop net n (count + 1) buf
          else bind_out (recv_into dg buf) (\<lambda>buf. Inr (count, buf)))"

definition control_port :: "(sockaddr \<Rightarrow> bool) \<Rightarrow> u16 option" where
  "control_port can_bind = find (\<lambda>p. can_bind (0x0100007f, p)) (map of_nat [2000..<2010])"

text \<open>
  \<open>sent k\<close> is the clock when the request is sent for the \<open>k\<close>-th time, \<open>now\<close> the clock after the answer.
  The result holds the return value and the requests that were sent.
\<close>

definition connect_addr ::
  "(nat \<Rightarrow> bytes option) \<Rightarrow> (nat \<Rightarrow> timeval) \<Rightarrow> timeval \<Rightarrow> (sockaddr \<Rightarrow> bool) \<Rightarrow> sockaddr \<Rightarrow> conn \<Rightarrow>
   ((int \<times> conn) \<times> (bytes \<times> sockaddr) list) outcome" where
  "connect_addr net sent now can_bind server_addr c =
     (let c = c\<lparr>cn_remote := server_addr, cn_connected := server_addr\<rparr>;
          create = PackageConnectionCreate_bytes (so_download_speed (cn_sock c));
          requests = (\<lambda>count. replicate (count + 1) (create, server_addr)) in
      bind_out (connect_loop net 5 0 (PackageConnectionCreateR_bytes 100 50020)) (\<lambda>(count, buf).
      if count \<ge> 5 then Inr ((-1, c), requests count)
      else
        bind_out (get_le 4 8 buf) (\<lambda>speed.
        bind_out (get_le 4 4 buf) (\<lambda>port.
        let s = (cn_sock c)\<lparr>so_send_speed := smin (of_nat speed) (so_upload_speed (cn_sock c))\<rparr>;
            s = set_rto (get_ms now (sent count)) s;
            c = c\<lparr>cn_sock := s, cn_connected := (fst server_addr, of_nat port)\<rparr> in
        case control_port can_bind of
          None \<Rightarrow> Inr ((-1, c\<lparr>cn_local := (0x0100007f, 2009)\<rparr>), requests count)
        | Some p \<Rightarrow>
            Inr ((0, c\<lparr>cn_local := (0x0100007f, p), cn_sock := s\<lparr>so_worker_running := True\<rparr>\<rparr>), requests count)))))"

definition connect_addr_host ::
  "host_lookup \<Rightarrow> sockaddr \<Rightarrow> (nat \<Rightarrow> bytes option) \<Rightarrow> (nat \<Rightarrow> timeval) \<Rightarrow> timeval \<Rightarrow> (sockaddr \<Rightarrow> bool) \<Rightarrow> string \<Rightarrow> u32 \<Rightarrow>
   conn \<Rightarrow> ((int \<times> conn) \<times> (bytes \<times> sockaddr) list) outcome" where
  "connect_addr_host gai junk net sent now can_bind host port c =
     connect_addr net sent now can_bind (case get_ipinfo gai host port of None \<Rightarrow> junk | Some a \<Rightarrow> a) c"

section \<open>The server\<close>

definition get_free_port :: "nat \<Rightarrow> nat \<times> nat" where
  \<comment> \<open>the port and the new \<open>free_port_now\<close>\<close>
  "get_free_port free_port_now = (free_port_now + free_port_start, (free_port_now + 1) mod 100)"

text \<open>
  The loop that binds the new socket: \<open>can_bind\<close> is asked for one port after the other. After a full
  round of the 100 ports it starts over, so 100 turns without success mean that it does not end.
\<close>

fun bind_port :: "(sockaddr \<Rightarrow> bool) \<Rightarrow> u32 \<Rightarrow> nat \<Rightarrow> nat \<Rightarrow> (nat \<times> nat) outcome" where
  "bind_port can_bind ip 0 now = Inl Diverges"
| "bind_port can_bind ip (Suc n) now =
     (let (po, now) = get_free_port now in
      if can_bind (ip, of_nat po) then Inr (po, now) else bind_port can_bind ip n now)"

text \<open>The constructor of a connected socket; \<open>blank\<close> holds the member initialisers and the allocator's junk.\<close>

definition ReliableSocket_server :: "rsock \<Rightarrow> u32 \<Rightarrow> sockaddr \<Rightarrow> sockaddr \<Rightarrow> int \<Rightarrow> bytes \<Rightarrow> conn" where
  "ReliableSocket_server blank speed_send co_addr local rt key =
     (let s = set_rto rt (blank\<lparr>so_send_speed := speed_send\<rparr>);
          s = s\<lparr>so_type := ServerSocket, so_worker_running := True, so_crypto := SharpCrypto_new key\<rparr> in
      (conn_new s)\<lparr>cn_local := local, cn_remote := co_addr, cn_connected := co_addr\<rparr>)"

text \<open>
  \<open>recvfrom\<close> stores the datagram in the 8-byte buffer of a request that was built with speed 100. The
  result is the listening socket, the new connection (\<open>nullptr\<close> is \<open>None\<close>) and what was sent.
\<close>

definition accept_connection ::
  "rsock \<Rightarrow> (sockaddr \<Rightarrow> bool) \<Rightarrow> (bytes \<times> sockaddr) \<Rightarrow> conn \<Rightarrow>
   (conn \<times> conn option \<times> (bytes \<times> sockaddr) list) outcome" where
  "accept_connection blank can_bind msg c =
     (if so_type (cn_sock c) \<noteq> AcceptableSocket then Inr (c, None, [])
      else
        bind_out (recv_into (fst msg) (PackageConnectionCreate_bytes 100)) (\<lambda>create.
        let c = c\<lparr>cn_connected := snd msg\<rparr> in
        bind_out (parse_package_type create) (\<lambda>ty.
        if ty \<noteq> Some ConnectionCreate then Inr (c, None, [])
        else
          bind_out (get_le 4 4 create) (\<lambda>speed.
          let sub_send_speed = smin (of_nat speed) (so_upload_speed (cn_sock c)) in
          bind_out (bind_port can_bind (fst (cn_local c)) 100 (cn_free_port_now c)) (\<lambda>(po, now).
          let new_addr = (fst (cn_local c), of_nat po);
              reply = PackageConnectionCreateR_bytes sub_send_speed (of_nat po) in
          Inr (c\<lparr>cn_free_port_now := now\<rparr>,
               Some (ReliableSocket_server blank sub_send_speed (snd msg) new_addr 200
                       (sc_key (so_crypto (cn_sock c)))),
               [(reply, snd msg)]))))))"

section \<open>Ports\<close>

lemma bind_port_cycle:
  "k < n \<Longrightarrow> now < 100 \<Longrightarrow> can_bind (ip, of_nat ((now + k) mod 100 + free_port_start)) \<Longrightarrow>
     \<exists>j \<le> k. bind_port can_bind ip n now =
        Inr ((now + j) mod 100 + free_port_start, ((now + j) mod 100 + 1) mod 100) \<and>
        can_bind (ip, of_nat ((now + j) mod 100 + free_port_start))"
proof (induction n arbitrary: k now)
  case (Suc n)
  show ?case
  proof (cases "can_bind (ip, of_nat (now + free_port_start))")
    case True
    then show ?thesis using Suc.prems(2)
      by (intro exI [of _ 0]) (simp add: get_free_port_def)
  next
    case False
    then have "k \<noteq> 0" using Suc.prems by (metis add_0_right mod_less)
    then obtain k' where k: "k = Suc k'" by (cases k) auto
    let ?now = "(now + 1) mod 100"
    have m: "(?now + j) mod 100 = (now + Suc j) mod 100" for j by (simp add: mod_simps)
    obtain j where "j \<le> k'" "bind_port can_bind ip n ?now =
        Inr ((?now + j) mod 100 + free_port_start, ((?now + j) mod 100 + 1) mod 100)"
        "can_bind (ip, of_nat ((?now + j) mod 100 + free_port_start))"
      using Suc.IH [of k' ?now] Suc.prems k m [of k'] by auto
    then show ?thesis using False k
      by (intro exI [of _ "Suc j"]) (simp add: get_free_port_def m [simplified] del: mod_add_left_eq)
  qed
qed simp

lemma bind_port_full:
  "\<forall>k. \<not> can_bind (ip, of_nat (k mod 100 + free_port_start)) \<Longrightarrow> now < 100 \<Longrightarrow> bind_port can_bind ip n now = Inl Diverges"
proof (induction n arbitrary: now)
  case (Suc n)
  have "\<not> can_bind (ip, of_nat (now + free_port_start))" using Suc.prems by (metis mod_less)
  then show ?case using Suc.IH [of "(now + 1) mod 100"] Suc.prems by (simp add: get_free_port_def)
qed simp

section \<open>Requests and answers\<close>

lemma length_create [simp]: "length (PackageConnectionCreate_bytes v) = 8"
  by (simp add: PackageConnectionCreate_bytes_def)

lemma length_create_r [simp]: "length (PackageConnectionCreateR_bytes v p) = 12"
  by (simp add: PackageConnectionCreateR_bytes_def)

lemma recv_into_full:
  "length dg = length buf \<Longrightarrow> length dg \<le> MAX_MTU \<Longrightarrow> recv_into dg buf = Inr dg"
  by (simp add: recv_into_def overlay_def)

lemma create_fields:
  "parse_package_type (PackageConnectionCreate_bytes v) = Inr (Some ConnectionCreate)"
  "get_le 4 4 (PackageConnectionCreate_bytes v) = Inr (unat v)"
  using le_val_enc_u32 [of v]
  by (simp_all add: parse_package_type_def PackageConnectionCreate_bytes_def get_le_def decode_type_def le_val_enc)

lemma create_r_fields:
  "get_le 4 8 (PackageConnectionCreateR_bytes v p) = Inr (unat v)"
  "get_le 4 4 (PackageConnectionCreateR_bytes v p) = Inr (unat p)"
  using le_val_enc_u32 [of v] le_val_enc_u32 [of p]
  by (simp_all add: PackageConnectionCreateR_bytes_def get_le_def)

lemma connect_loop_answer:
  "\<forall>j < k. net (i + j) = None \<Longrightarrow> net (i + k) = Some dg \<Longrightarrow> dg \<noteq> [] \<Longrightarrow> k < n \<Longrightarrow>
     connect_loop net n i buf = bind_out (recv_into dg buf) (\<lambda>buf. Inr (i + k, buf))"
proof (induction n arbitrary: i k)
  case (Suc n)
  show ?case
  proof (cases k)
    case 0
    then show ?thesis using Suc.prems by simp
  next
    case (Suc j)
    have "net i = None" using Suc.prems(1) Suc by (metis add_0_right zero_less_Suc)
    moreover have "\<forall>l < j. net (i + 1 + l) = None" using Suc.prems(1) Suc by auto
    ultimately show ?thesis using Suc.IH [of j "i + 1"] Suc.prems Suc by simp
  qed
qed simp

lemma connect_loop_silent:
  "\<forall>j < n. net (i + j) = None \<Longrightarrow> connect_loop net n i buf = Inr (i + n, buf)"
proof (induction n arbitrary: i)
  case (Suc n)
  then have "net i = None" by (metis add_0_right zero_less_Suc)
  moreover have "\<forall>j < n. net (i + 1 + j) = None" using Suc.prems by auto
  ultimately show ?case using Suc.IH [of "i + 1"] by simp
qed simp

lemma accept_request:
  assumes acc: "so_type (cn_sock srv) = AcceptableSocket" and now: "cn_free_port_now srv < 100"
    and free: "k < 100" "can_bind (fst (cn_local srv), of_nat (k + free_port_start))"
  shows "\<exists>po now'. accept_connection blank can_bind (PackageConnectionCreate_bytes v, src) srv =
     Inr (srv\<lparr>cn_connected := src, cn_free_port_now := now'\<rparr>,
       Some (ReliableSocket_server blank (smin v (so_upload_speed (cn_sock srv))) src
         (fst (cn_local srv), of_nat po) 200 (sc_key (so_crypto (cn_sock srv)))),
       [(PackageConnectionCreateR_bytes (smin v (so_upload_speed (cn_sock srv))) (of_nat po), src)]) \<and>
     free_port_start \<le> po \<and> po < free_port_start + 100 \<and> can_bind (fst (cn_local srv), of_nat po) \<and> now' < 100"
proof -
  let ?now = "cn_free_port_now srv"
  obtain i where i: "i < 100" "(?now + i) mod 100 = k"
  proof
    show "(k + 100 - ?now) mod 100 < 100" by simp
    have "(?now + (k + 100 - ?now) mod 100) mod 100 = (?now + (k + 100 - ?now)) mod 100" by (simp add: mod_simps)
    also have "\<dots> = k" using now free(1) by simp
    finally show "(?now + (k + 100 - ?now) mod 100) mod 100 = k" .
  qed
  obtain j where j: "bind_port can_bind (fst (cn_local srv)) 100 ?now =
      Inr ((?now + j) mod 100 + free_port_start, ((?now + j) mod 100 + 1) mod 100)"
      "can_bind (fst (cn_local srv), of_nat ((?now + j) mod 100 + free_port_start))"
    using bind_port_cycle [OF i(1) now, of can_bind "fst (cn_local srv)"] i(2) free(2) by blast
  have r: "recv_into (PackageConnectionCreate_bytes v) (PackageConnectionCreate_bytes 100) = Inr (PackageConnectionCreate_bytes v)"
    by (rule recv_into_full) (simp_all add: MAX_MTU_def)
  define po now' where "po = (?now + j) mod 100 + free_port_start" and "now' = ((?now + j) mod 100 + 1) mod 100"
  have "bind_port can_bind (fst (cn_local srv)) 100 ?now = Inr (po, now')" "can_bind (fst (cn_local srv), of_nat po)"
    using j by (simp_all only: po_def now'_def)
  moreover have "free_port_start \<le> po" "po < free_port_start + 100" "now' < 100" by (simp_all add: po_def now'_def)
  moreover have "accept_connection blank can_bind (PackageConnectionCreate_bytes v, src) srv =
     Inr (srv\<lparr>cn_connected := src, cn_free_port_now := now'\<rparr>,
       Some (ReliableSocket_server blank (smin v (so_upload_speed (cn_sock srv))) src
         (fst (cn_local srv), of_nat po) 200 (sc_key (so_crypto (cn_sock srv)))),
       [(PackageConnectionCreateR_bytes (smin v (so_upload_speed (cn_sock srv))) (of_nat po), src)])"
    unfolding accept_connection_def Let_def
    by (simp add: acc r create_fields \<open>bind_port can_bind (fst (cn_local srv)) 100 ?now = Inr (po, now')\<close>)
  ultimately show ?thesis by blast
qed

lemma connect_answered:
  assumes net: "\<forall>j < k. net j = None" "net k = Some (PackageConnectionCreateR_bytes v p)" "k < 5"
    and ctl: "control_port can_bind = Some lp"
  shows "connect_addr net sent now can_bind server cl =
     Inr ((0, cl\<lparr>cn_remote := server, cn_connected := (fst server, ucast p), cn_local := (0x0100007f, lp),
         cn_sock := (set_rto (get_ms now (sent k))
           ((cn_sock cl)\<lparr>so_send_speed := smin v (so_upload_speed (cn_sock cl))\<rparr>))\<lparr>so_worker_running := True\<rparr>\<rparr>),
       replicate (k + 1) (PackageConnectionCreate_bytes (so_download_speed (cn_sock cl)), server))"
proof -
  let ?b = "PackageConnectionCreateR_bytes v p"
  have "length ?b \<noteq> 0" by simp
  then have "?b \<noteq> []" by (simp only: length_0_conv not_False_eq_True)
  moreover have "recv_into ?b (PackageConnectionCreateR_bytes 100 50020) = Inr ?b"
    by (rule recv_into_full) (simp_all add: MAX_MTU_def)
  ultimately have "connect_loop net 5 0 (PackageConnectionCreateR_bytes 100 50020) = Inr (k, ?b)"
    using connect_loop_answer [of k net 0 ?b 5] net by simp
  then show ?thesis using net(3) ctl
    by (simp add: connect_addr_def Let_def create_r_fields)
qed

text \<open>
  C21: The handshake. A listening server with a free port in its range answers the request of a client with
  a new connection on that port, and the client that gets this answer in one of its five waits
  ends up connected to exactly the address the new socket is bound to. Both sides run, share the key,
  and send at the smaller of what they may upload and what the other side announced.
\<close>

theorem handshake_agrees:
  assumes srv: "so_type (cn_sock srv) = AcceptableSocket" "cn_free_port_now srv < 100"
      "so_crypto (cn_sock srv) = SharpCrypto_new key" "so_crypto (cn_sock cl) = SharpCrypto_new key"
    and free: "k < 100" "can_bind (fst (cn_local srv), of_nat (k + free_port_start))"
    and wait: "n < 5" "\<forall>j < n. net j = None"
    and ctl: "control_port can_bind' = Some lp"
  shows "\<exists>srv' new reply. accept_connection blank can_bind
        (PackageConnectionCreate_bytes (so_download_speed (cn_sock cl)), src) srv = Inr (srv', Some new, [(reply, src)]) \<and>
     (net n = Some reply \<longrightarrow> (\<exists>cl' sends. connect_addr net sent now can_bind' server cl = Inr ((0, cl'), sends) \<and>
        length sends = n + 1 \<and>
        cn_connected cl' = (fst server, snd (cn_local new)) \<and> cn_connected new = src \<and>
        is_alive (cn_sock new) \<and> is_alive (cn_sock cl') \<and>
        so_crypto (cn_sock new) = SharpCrypto_new key \<and> so_crypto (cn_sock cl') = SharpCrypto_new key \<and>
        so_send_speed (cn_sock new) = smin (so_download_speed (cn_sock cl)) (so_upload_speed (cn_sock srv)) \<and>
        so_send_speed (cn_sock cl') = smin (so_send_speed (cn_sock new)) (so_upload_speed (cn_sock cl))))"
proof -
  let ?v = "smin (so_download_speed (cn_sock cl)) (so_upload_speed (cn_sock srv))"
  obtain po now' where a: "accept_connection blank can_bind
        (PackageConnectionCreate_bytes (so_download_speed (cn_sock cl)), src) srv =
     Inr (srv\<lparr>cn_connected := src, cn_free_port_now := now'\<rparr>,
       Some (ReliableSocket_server blank ?v src (fst (cn_local srv), of_nat po) 200 (sc_key (so_crypto (cn_sock srv)))),
       [(PackageConnectionCreateR_bytes ?v (of_nat po), src)])" "free_port_start \<le> po" "po < free_port_start + 100"
    using accept_request [where can_bind = can_bind, OF srv(1,2) free, of blank "so_download_speed (cn_sock cl)" src] by blast
  have po: "ucast (of_nat po :: u32) = (of_nat po :: u16)"
    using a(3) by (simp add: word_unat_eq_iff unsigned_ucast_eq unsigned_of_nat free_port_start_def)
  define new where "new = ReliableSocket_server blank ?v src (fst (cn_local srv), of_nat po) 200 (sc_key (so_crypto (cn_sock srv)))"
  have new: "snd (cn_local new) = of_nat po" "cn_connected new = src" "is_alive (cn_sock new)"
      "so_crypto (cn_sock new) = SharpCrypto_new key" "so_send_speed (cn_sock new) = ?v"
    using srv(3) by (simp_all add: new_def ReliableSocket_server_def conn_new_def Let_def set_rto_def is_alive_def sc_key_rekey)
  define cl' where "cl' = cl\<lparr>cn_remote := server, cn_connected := (fst server, of_nat po), cn_local := (0x0100007f, lp),
         cn_sock := (set_rto (get_ms now (sent n))
           ((cn_sock cl)\<lparr>so_send_speed := smin ?v (so_upload_speed (cn_sock cl))\<rparr>))\<lparr>so_worker_running := True\<rparr>\<rparr>"
  have cl': "cn_connected cl' = (fst server, of_nat po)" "is_alive (cn_sock cl')" "so_crypto (cn_sock cl') = SharpCrypto_new key"
      "so_send_speed (cn_sock cl') = smin ?v (so_upload_speed (cn_sock cl))"
    using srv(4) by (simp_all add: cl'_def set_rto_def Let_def is_alive_def)
  have c: "connect_addr net sent now can_bind' server cl = Inr ((0, cl'),
       replicate (n + 1) (PackageConnectionCreate_bytes (so_download_speed (cn_sock cl)), server))"
    if "net n = Some (PackageConnectionCreateR_bytes ?v (of_nat po))"
    using connect_answered [OF wait(2) that wait(1) ctl, of sent now server cl] unfolding cl'_def po .
  show ?thesis
    using a(1) c new cl' unfolding new_def [symmetric] by fastforce
qed

definition demo_server :: conn where
  "demo_server = (conn_new fresh_sock)\<lparr>cn_local := (5, 50010), cn_sock := fresh_sock\<lparr>so_type := AcceptableSocket\<rparr>\<rparr>"

theorem handshake_agrees_witness:
  "\<exists>srv' new. accept_connection fresh_sock (\<lambda>_. True) (PackageConnectionCreate_bytes 100, (9, 7)) demo_server =
      Inr (srv', Some new, [(PackageConnectionCreateR_bytes 100 50020, (9, 7))]) \<and>
   (\<exists>cl' sends. connect_addr (\<lambda>_. Some (PackageConnectionCreateR_bytes 100 50020)) (\<lambda>_. (0, 0)) (1, 0) (\<lambda>_. True) (5, 50010) (conn_new fresh_sock) =
      Inr ((0, cl'), sends) \<and> cn_connected cl' = (5, snd (cn_local new)))"
proof -
  let ?reply = "PackageConnectionCreateR_bytes 100 50020" and ?cl = "conn_new fresh_sock"
  have cp: "control_port (\<lambda>_. True) = Some 2000" by (simp add: control_port_def upt_rec)
  have cr: "so_crypto (cn_sock demo_server) = SharpCrypto_new [1, 2, 3]" "so_crypto (cn_sock ?cl) = SharpCrypto_new [1, 2, 3]"
    by (simp_all add: demo_server_def conn_new_def fresh_sock_def rsock_new_def)
  have sp: "so_download_speed (cn_sock ?cl) = 100" by (simp add: conn_new_def fresh_sock_def rsock_new_def)
  have "\<exists>srv' new. accept_connection fresh_sock (\<lambda>_. True) (PackageConnectionCreate_bytes 100, (9, 7)) demo_server =
      Inr (srv', Some new, [(?reply, (9, 7))])"
  proof -
    have "bind_port (\<lambda>_. True) 5 (Suc 99) 0 = Inr (50020, 1)"
      by (simp add: get_free_port_def free_port_start_def del: Suc_numeral)
    then have b: "bind_port (\<lambda>_. True) 5 100 0 = Inr (50020, 1)" by simp
    have d: "so_type (cn_sock demo_server) = AcceptableSocket" "so_upload_speed (cn_sock demo_server) = 100"
      "cn_local demo_server = (5, 50010)" "cn_free_port_now demo_server = 0"
      by (simp_all add: demo_server_def conn_new_def fresh_sock_def rsock_new_def)
    have r: "recv_into (PackageConnectionCreate_bytes 100) (PackageConnectionCreate_bytes 100) = Inr (PackageConnectionCreate_bytes 100)"
      by (rule recv_into_full) (simp_all add: MAX_MTU_def)
    show ?thesis by (simp add: accept_connection_def r d b create_fields Let_def smin_def)
  qed
  then show ?thesis
    using handshake_agrees [of demo_server "[1, 2, 3]" ?cl 0 "\<lambda>_. True" 0 "\<lambda>_. Some ?reply" "\<lambda>_. True" 2000 fresh_sock "(9, 7)"
        "\<lambda>_. (0, 0)" "(1, 0)" "(5, 50010)"] cp cr sp
    by (auto simp: demo_server_def conn_new_def)
qed

text \<open>
  A silent server. When none of the five waits brings a datagram, \<open>connect_addr\<close> returns -1 after it
  sent the request six times, and the worker threads are not started.
\<close>

lemma connect_times_out:
  assumes "\<forall>j < 5. net j = None"
  shows "connect_addr net sent now can_bind server cl =
     Inr ((-1, cl\<lparr>cn_remote := server, cn_connected := server\<rparr>),
       replicate 6 (PackageConnectionCreate_bytes (so_download_speed (cn_sock cl)), server))"
  using connect_loop_silent [of 5 net 0 "PackageConnectionCreateR_bytes 100 50020"] assms
  by (simp add: connect_addr_def Let_def numeral_eq_Suc)

lemma connect_times_out_witness:
  "connect_addr (\<lambda>_. None) (\<lambda>_. (0, 0)) (1, 0) (\<lambda>_. True) (5, 50010) (conn_new fresh_sock) =
     Inr ((-1, (conn_new fresh_sock)\<lparr>cn_remote := (5, 50010), cn_connected := (5, 50010)\<rparr>),
       replicate 6 (PackageConnectionCreate_bytes (so_download_speed (cn_sock (conn_new fresh_sock))), (5, 50010)))"
  by (rule connect_times_out) simp

text \<open>
  C39: Choosing a port. The loop of \<open>accept_connection\<close> that binds the socket of a new connection ends exactly when
  one of the 100 ports from 50020 on can be bound, and then the port it gives is one of these.
  When all are taken it tries them over and over.
\<close>

theorem bind_port_terminates:
  assumes "now < 100"
  shows "if \<exists>k < 100. can_bind (ip, of_nat (k + free_port_start))
     then \<exists>po now'. bind_port can_bind ip 100 now = Inr (po, now') \<and> 50020 \<le> po \<and> po < 50120 \<and> can_bind (ip, of_nat po)
     else bind_port can_bind ip n now = Inl Diverges"
proof (cases "\<exists>k < 100. can_bind (ip, of_nat (k + free_port_start))")
  case True
  then obtain k where k: "k < 100" "can_bind (ip, of_nat (k + free_port_start))" by blast
  have "(now + (k + 100 - now) mod 100) mod 100 = (now + (k + 100 - now)) mod 100" by (simp add: mod_simps)
  also have "\<dots> = k" using assms k(1) by simp
  finally have "can_bind (ip, of_nat ((now + (k + 100 - now) mod 100) mod 100 + free_port_start))" using k(2) by simp
  moreover have "(k + 100 - now) mod 100 < 100" by simp
  ultimately obtain j where "bind_port can_bind ip 100 now =
        Inr ((now + j) mod 100 + free_port_start, ((now + j) mod 100 + 1) mod 100)"
      "can_bind (ip, of_nat ((now + j) mod 100 + free_port_start))"
    using bind_port_cycle [of "(k + 100 - now) mod 100" 100 now can_bind ip] assms by blast
  moreover have "50020 \<le> (now + j) mod 100 + free_port_start" "(now + j) mod 100 + free_port_start < 50120"
    by (simp_all add: free_port_start_def)
  ultimately show ?thesis using True by (simp only: if_True) blast
next
  case False
  then have "\<forall>k. \<not> can_bind (ip, of_nat (k mod 100 + free_port_start))" by (meson mod_less_divisor zero_less_numeral)
  then show ?thesis using False bind_port_full assms by (simp only: if_False) blast
qed

theorem bind_port_terminates_witness:
  "(\<exists>po now'. bind_port (\<lambda>a. snd a = 50021) 5 100 0 = Inr (po, now') \<and> 50020 \<le> po \<and> po < 50120) \<and>
   bind_port (\<lambda>_. False) 5 250 0 = Inl Diverges"
proof -
  have "\<exists>k < 100. of_nat (k + free_port_start) = (50021 :: u16)"
    by (intro exI [of _ 1]) (simp add: free_port_start_def)
  then show ?thesis
    using bind_port_terminates [of 0 "\<lambda>a. snd a = 50021" 5] bind_port_terminates [of 0 "\<lambda>_. False" 5 250]
    by (auto split: if_splits)
qed

text \<open>
  Both sides of the handshake accept a datagram of up to 1600 bytes into the small buffer of the package
  they expect: a client that gets an answer of more than 12 bytes, and a listening server that gets
  a request of more than 8 bytes, write behind the buffer.
\<close>

lemma handshake_overflow:
  assumes "12 < length dg" "so_type (cn_sock srv) = AcceptableSocket"
  shows "connect_addr (\<lambda>_. Some dg) sent now can_bind server cl = Inl OutOfBounds \<and>
     accept_connection blank can_bind (dg, src) srv = Inl OutOfBounds"
proof -
  have "dg \<noteq> []" using assms(1) by auto
  then have "connect_loop (\<lambda>_. Some dg) 5 0 (PackageConnectionCreateR_bytes 100 50020) = Inl OutOfBounds"
    using connect_loop_answer [of 0 "\<lambda>_. Some dg" 0 dg 5] assms(1) by (simp add: recv_into_def MAX_MTU_def)
  moreover have "recv_into dg (PackageConnectionCreate_bytes 100) = Inl OutOfBounds"
    using assms(1) by (simp add: recv_into_def MAX_MTU_def)
  ultimately show ?thesis using assms(2) by (simp add: connect_addr_def accept_connection_def Let_def)
qed

lemma handshake_overflow_witness:
  "accept_connection fresh_sock (\<lambda>_. True) (replicate 20 0, (9, 7)) demo_server = Inl OutOfBounds"
  using handshake_overflow [of "replicate 20 0" demo_server] by (simp add: demo_server_def)

end
