(* ===== verification/RudpThreads.thy ===== *)
theory RudpThreads
  imports RudpConnect RudpTransmit
begin

text \<open>
  The worker threads of \<open>src/src/rudp/ReliableSocket.cpp\<close> on the level of the class, with the addresses of \<open>conn\<close>: the start
  of the sender and its pacing, and the turns of the receiver around \<open>select\<close> and \<open>recvfrom\<close>. The steps on the
  shared containers are those of \<open>RudpSend\<close> and \<open>RudpSocket\<close>.
\<close>

section \<open>Sender\<close>

definition list_package_size :: int where "list_package_size = 1024 * 10"

text \<open>
  \<^verbatim>\<open>(double) list_package_size / send_speed * 8\<close>, cut to \<open>int\<close>. The product with 8 is exact and the quotient is off by less than
  the distance to the next integer, so the result is the integer quotient; a speed of zero gives an infinite one.
\<close>

definition list_package_us :: "u32 \<Rightarrow> int outcome" where
  "list_package_us send_speed =
     (if send_speed = 0 then Inl BadConversion else Inr (c_div (list_package_size * 8) (sint send_speed)))"

definition to_connected :: "conn \<Rightarrow> bytes list \<Rightarrow> (bytes \<times> sockaddr) list" where
  "to_connected c out = map (\<lambda>b. (b, cn_connected c)) out"

text \<open>What the thread does before its loop; \<open>t0\<close> and \<open>now\<close> are the two clock readings.\<close>

definition sender_start :: "timeval \<Rightarrow> timeval \<Rightarrow> conn \<Rightarrow> (conn \<times> sleeper \<times> (bytes \<times> sockaddr) list) outcome" where
  "sender_start t0 now c =
     bind_out (list_package_us (so_send_speed (cn_sock c))) (\<lambda>us.
       let s = (cn_sock c)\<lparr>so_fast_start_count := 0, so_package_count := 0, so_ping_send_time := now\<rparr> in
       Inr (c\<lparr>cn_sock := s\<rparr>, Sleeper_new t0 list_package_size us, to_connected c [PackagePing_bytes False]))"

text \<open>
  A turn from the package to the sleep. The copies that \<open>fast_start\<close> sends are not counted. The results are the
  datagrams and the microseconds slept.
\<close>

definition list_package_count :: "bool \<Rightarrow> bytes list \<Rightarrow> int" where
  "list_package_count fast out = sum_list (map (\<lambda>b. int (length b)) (if fast then butlast out else out))"

definition sender_paced ::
  "timeval \<Rightarrow> timeval \<Rightarrow> timeval \<Rightarrow> conn \<Rightarrow> sleeper \<Rightarrow> (conn \<times> sleeper \<times> (bytes \<times> sockaddr) list \<times> int) outcome" where
  "sender_paced sent now wake c sl =
     bind_out (sender_send sent (cn_sock c)) (\<lambda>(s, out).
       let (slept, sl) = (if out = [] then (0, sl)
             else send_sleep (list_package_count (so_fast_start (cn_sock c)) out) now wake sl) in
       Inr (c\<lparr>cn_sock := s\<rparr>, sl, to_connected c out, slept))"

section \<open>Receiver\<close>

definition select_ready :: "nat \<Rightarrow> nat list \<Rightarrow> (nat \<Rightarrow> bool) \<Rightarrow> nat list" where
  \<comment> \<open>\<open>select\<close> looks at the descriptors below its first argument\<close>
  "select_ready nfds watched pending = filter (\<lambda>f. f < nfds \<and> pending f) watched"

datatype receiver_next = Again | Leave

text \<open>
  A turn: \<open>fds\<close> are \<open>sock\<close> and \<open>local_sock\<close>, \<open>pending\<close> says which descriptors have a datagram after at most 20 seconds, \<open>msg\<close> is
  the datagram of \<open>sock\<close> with its source. \<open>recvfrom\<close> stores the source in \<open>connected_addr\<close>.
\<close>

definition receiver_turn ::
  "env \<Rightarrow> timeval \<Rightarrow> nat \<times> nat \<Rightarrow> (nat \<Rightarrow> bool) \<Rightarrow> bytes \<times> sockaddr \<Rightarrow> conn \<Rightarrow>
   (receiver_next \<times> conn \<times> (bytes \<times> sockaddr) list) outcome" where
  "receiver_turn e now fds pending msg c =
     (let (sock, local_sock) = fds;
          client = (so_type (cn_sock c) = RegularSocket \<or> so_type (cn_sock c) = BindedSocket);
          ready = select_ready (sock + 1) (if client then [sock, local_sock] else [sock]) pending in
      if client \<and> local_sock \<in> set ready then Inr (Leave, c, [])
      else if sock \<notin> set ready then Inr (Again, c, [])
      else
        let c = c\<lparr>cn_connected := snd msg\<rparr> in
        bind_out (receiver_step e now (fst msg) (cn_sock c)) (\<lambda>(s, out).
          Inr (Again, c\<lparr>cn_sock := s\<rparr>, to_connected c out)))"

text \<open>The loop, on the results of its calls of \<open>select\<close>.\<close>

fun receiver_loop ::
  "env \<Rightarrow> nat \<times> nat \<Rightarrow> (timeval \<times> (nat \<Rightarrow> bool) \<times> bytes \<times> sockaddr) list \<Rightarrow> conn \<Rightarrow>
   (conn \<times> (bytes \<times> sockaddr) list) outcome" where
  "receiver_loop e fds [] c = Inr (c, [])"
| "receiver_loop e fds ((now, pending, msg) # evs) c =
     (if \<not> so_worker_running (cn_sock c) then Inr (c, [])
      else bind_out (receiver_turn e now fds pending msg c) (\<lambda>(next, c, out).
        case next of
          Leave \<Rightarrow> Inr (c, out)
        | Again \<Rightarrow> bind_out (receiver_loop e fds evs c) (\<lambda>(c, out'). Inr (c, out @ out'))))"

section \<open>The rate of the sender\<close>

text \<open>
  One entry per turn: the state of the connection, which other threads change in between, and the clock
  readings. The result holds the pacing state, what was sent, and the sleeps with their readings.
\<close>

fun paced_run ::
  "(conn \<times> timeval \<times> timeval \<times> timeval) list \<Rightarrow> sleeper \<Rightarrow> (sleeper \<times> bytes list \<times> (int \<times> timeval \<times> timeval) list) outcome" where
  "paced_run [] sl = Inr (sl, [], [])"
| "paced_run ((c, sent, now, wake) # ts) sl =
     bind_out (sender_paced sent now wake c sl) (\<lambda>(c, sl, out, slept).
     bind_out (paced_run ts sl) (\<lambda>(sl, outs, log).
       Inr (sl, map fst out @ outs, (slept, now, wake) # log)))"

lemma get_us_split: "get_us a c = get_us a b + get_us b c"
  by (simp add: get_us_def algebra_simps)

lemma sender_send_copies:
  assumes "sender_send now s = Inr (s', out)" "\<not> so_fast_start s"
  shows "\<exists>b. out = [] \<or> out = [b] \<or> out = [b, b]"
proof (cases "PackageQueueMap_size (so_send_pool s) = 0")
  case True
  then show ?thesis using assms(1) by (simp add: sender_send_def)
next
  case False
  obtain p pool where "PackageQueueMap_pop (so_send_pool s) = (p, pool)" by fastforce
  then show ?thesis using assms False
    by (cases p) (auto simp: sender_send_def Let_def bind_out_eq_Inr_iff split: if_splits)
qed

lemma sender_paced_run:
  assumes "sender_paced sent now wake c sl = Inr (c', sl', out, slept)"
  shows "\<exists>s os. sender_send sent (cn_sock c) = Inr (s, os) \<and> out = to_connected c os \<and>
     (if os = [] then (0, sl) else send_sleep (list_package_count (so_fast_start (cn_sock c)) os) now wake sl) = (slept, sl')"
proof -
  obtain s os where m: "sender_send sent (cn_sock c) = Inr (s, os)"
    using assms by (auto simp: sender_paced_def bind_out_eq_Inr_iff)
  obtain v w where vw: "(if os = [] then (0, sl) else send_sleep (list_package_count (so_fast_start (cn_sock c)) os) now wake sl) = (v, w)"
    by fastforce
  have "out = to_connected c os" "v = slept" "w = sl'"
    using assms m vw by (cases "os = []"; simp add: sender_paced_def)+
  with m vw show ?thesis by blast
qed

text \<open>One turn counts what it sends, at most two copies.\<close>

lemma sender_paced_counts:
  assumes "sender_paced sent now wake c sl = Inr (c', sl', out, slept)" "\<not> so_fast_start (cn_sock c)"
    and "\<forall>b \<in> fst ` set out. length b \<le> L"
  shows "\<exists>n. 0 \<le> n \<and> n \<le> 2 * int L \<and> n = sum_list (map (int \<circ> length \<circ> fst) out) \<and>
     (out = [] \<and> slept = 0 \<and> sl' = sl \<or> send_sleep n now wake sl = (slept, sl'))"
proof -
  obtain s os where o: "sender_send sent (cn_sock c) = Inr (s, os)" "out = to_connected c os"
      "(if os = [] then (0, sl) else send_sleep (list_package_count False os) now wake sl) = (slept, sl')"
    using sender_paced_run [OF assms(1)] assms(2) by (metis (full_types))
  have l: "\<forall>b \<in> set os. length b \<le> L" using assms(3) o(2) by (auto simp: to_connected_def)
  have n: "sum_list (map (int \<circ> length \<circ> fst) out) = list_package_count False os"
    by (simp add: o(2) to_connected_def list_package_count_def comp_def)
  obtain b where "os = [] \<or> os = [b] \<or> os = [b, b]" using sender_send_copies [OF o(1) assms(2)] by blast
  then have "0 \<le> list_package_count False os" "list_package_count False os \<le> 2 * int L"
    using l by (auto simp: list_package_count_def)
  moreover have "out = [] \<longleftrightarrow> os = []" by (simp add: o(2) to_connected_def)
  ultimately show ?thesis using n o(3) by (intro exI [of _ "list_package_count False os"]) (auto split: if_splits)
qed

text \<open>A pause ends a period that was at least \<open>sleep_time\<close> long.\<close>

lemma send_sleep_period:
  assumes "send_sleep n now wake sl = (slept, sl')" "slept \<le> get_us wake now" "0 \<le> slept"
    and "sl_send_len sl \<le> sl_sleep_len sl" "0 \<le> sl_sleep_len sl"
  shows "sl_sleep_len sl' = sl_sleep_len sl \<and> sl_sleep_time sl' = sl_sleep_time sl \<and> sl_send_len sl' \<le> sl_sleep_len sl \<and>
     (sl_send_len sl' = sl_send_len sl + n \<and> sl_t0 sl' = sl_t0 sl \<or>
      sl_send_len sl' = 0 \<and> sl_sleep_time sl \<le> get_us (sl_t0 sl') (sl_t0 sl))"
proof (cases "sl_send_len sl + n > sl_sleep_len sl")
  case False
  then show ?thesis using assms by (auto simp: send_sleep_def Let_def)
next
  case True
  then have "sl' = sl\<lparr>sl_send_len := 0, sl_t0 := wake\<rparr>"
      "slept = (if get_us now (sl_t0 sl) < sl_sleep_time sl then sl_sleep_time sl - get_us now (sl_t0 sl) else 0)"
    using assms(1) by (auto simp: send_sleep_def Let_def)
  then show ?thesis using assms(2,3,5) get_us_split [of wake "sl_t0 sl" now] by (auto split: if_splits)
qed

lemma send_sleep_slept: "send_sleep n now wake sl = (slept, sl') \<Longrightarrow> 0 \<le> slept"
  by (auto simp: send_sleep_def Let_def split: if_splits)

lemma paced_run_bytes:
  assumes "paced_run ts sl = Inr (sl', outs, log)" "\<forall>(c, _) \<in> set ts. \<not> so_fast_start (cn_sock c)"
    and "\<forall>b \<in> set outs. length b \<le> L" "\<forall>(slept, now, wake) \<in> set log. slept \<le> get_us wake now"
    and "0 \<le> sl_sleep_time sl" "0 \<le> sl_send_len sl" "sl_send_len sl \<le> sl_sleep_len sl"
  shows "sl_send_len sl' \<le> sl_sleep_len sl \<and> 0 \<le> get_us (sl_t0 sl') (sl_t0 sl) \<and>
     (sl_send_len sl + sum_list (map (int \<circ> length) outs) - sl_send_len sl') * sl_sleep_time sl
       \<le> (sl_sleep_len sl + 2 * int L) * get_us (sl_t0 sl') (sl_t0 sl)"
  using assms
proof (induction ts arbitrary: sl outs log)
  case Nil
  then show ?case by (simp add: get_us_def)
next
  case (Cons t ts)
  obtain c sent now wake where t: "t = (c, sent, now, wake)" by (cases t)
  obtain c1 sl1 out slept outs2 log2 where s: "sender_paced sent now wake c sl = Inr (c1, sl1, out, slept)"
      "paced_run ts sl1 = Inr (sl', outs2, log2)" "outs = map fst out @ outs2" "log = (slept, now, wake) # log2"
    using Cons.prems(1) by (auto simp: t bind_out_eq_Inr_iff)
  have f: "\<not> so_fast_start (cn_sock c)" "\<forall>b \<in> fst ` set out. length b \<le> L" "slept \<le> get_us wake now"
    using Cons.prems(2,3,4) s(3,4) by (auto simp: t)
  obtain n where n: "0 \<le> n" "n \<le> 2 * int L" "n = sum_list (map (int \<circ> length \<circ> fst) out)"
      "out = [] \<and> slept = 0 \<and> sl1 = sl \<or> send_sleep n now wake sl = (slept, sl1)"
    using sender_paced_counts [OF s(1) f(1,2)] by blast
  have tot: "sum_list (map (int \<circ> length) outs) = n + sum_list (map (int \<circ> length) outs2)"
    by (simp add: s(3) n(3) comp_def)
  let ?T = "sl_sleep_time sl" let ?B = "sl_sleep_len sl" let ?d = "get_us (sl_t0 sl1) (sl_t0 sl)"
  have step: "sl_sleep_len sl1 = ?B \<and> sl_sleep_time sl1 = ?T \<and> sl_send_len sl1 \<le> ?B \<and> 0 \<le> sl_send_len sl1 \<and> 0 \<le> ?d \<and>
      (sl_send_len sl + n - sl_send_len sl1) * ?T \<le> (?B + 2 * int L) * ?d"
  proof (cases "out = [] \<and> slept = 0 \<and> sl1 = sl")
    case True
    then show ?thesis using n(3) Cons.prems(6,7) by (simp add: get_us_def)
  next
    case False
    then have z: "send_sleep n now wake sl = (slept, sl1)" using n(4) by blast
    have B: "0 \<le> ?B" using Cons.prems(6,7) by linarith
    note p = send_sleep_period [OF z f(3) send_sleep_slept [OF z] Cons.prems(7) B]
    show ?thesis
    proof (cases "sl_send_len sl1 = sl_send_len sl + n \<and> sl_t0 sl1 = sl_t0 sl")
      case True
      then show ?thesis using p n(1) Cons.prems(6) by (simp add: get_us_def)
    next
      case False
      then have r: "sl_send_len sl1 = 0" "?T \<le> ?d" using p by auto
      have "(sl_send_len sl + n) * ?T \<le> (?B + 2 * int L) * ?d"
        using r(2) n(1,2) Cons.prems(5,6,7) by (intro mult_mono) linarith+
      then show ?thesis using p r Cons.prems(5) by auto
    qed
  qed
  have "\<forall>(c, _) \<in> set ts. \<not> so_fast_start (cn_sock c)" "\<forall>b \<in> set outs2. length b \<le> L"
    "\<forall>(slept, now, wake) \<in> set log2. slept \<le> get_us wake now"
    using Cons.prems(2,3,4) s(3,4) by auto
  note ih = Cons.IH [OF s(2) this]
  have ih': "sl_send_len sl' \<le> ?B \<and> 0 \<le> get_us (sl_t0 sl') (sl_t0 sl1) \<and>
     (sl_send_len sl1 + sum_list (map (int \<circ> length) outs2) - sl_send_len sl') * ?T
       \<le> (?B + 2 * int L) * get_us (sl_t0 sl') (sl_t0 sl1)"
    using ih step Cons.prems(5) by (simp add: comp_def)
  have g: "get_us (sl_t0 sl') (sl_t0 sl) = get_us (sl_t0 sl') (sl_t0 sl1) + ?d" by (rule get_us_split)
  have "(sl_send_len sl + sum_list (map (int \<circ> length) outs) - sl_send_len sl') * ?T =
     (sl_send_len sl + n - sl_send_len sl1) * ?T + (sl_send_len sl1 + sum_list (map (int \<circ> length) outs2) - sl_send_len sl') * ?T"
    by (simp add: tot algebra_simps)
  also have "\<dots> \<le> (?B + 2 * int L) * ?d + (?B + 2 * int L) * get_us (sl_t0 sl') (sl_t0 sl1)"
    using step ih' by linarith
  also have "\<dots> = (?B + 2 * int L) * get_us (sl_t0 sl') (sl_t0 sl)" unfolding g by (simp add: algebra_simps)
  finally have main: "(sl_send_len sl + sum_list (map (int \<circ> length) outs) - sl_send_len sl') * ?T
      \<le> (?B + 2 * int L) * get_us (sl_t0 sl') (sl_t0 sl)" .
  have "0 \<le> get_us (sl_t0 sl') (sl_t0 sl)" unfolding g using step ih' by linarith
  then show ?case using main ih' by blast
qed

section \<open>Addresses and control\<close>

text \<open>
  The exit request that \<open>stop_all_thread\<close> sends to the control port only wakes the receiver if the control socket
  has the smaller descriptor; it is opened after the other one.
\<close>

lemma control_not_watched:
  assumes "sock < local_sock" "pending local_sock" "\<not> pending sock"
  shows "receiver_turn e now (sock, local_sock) pending msg c = Inr (Again, c, [])"
  using assms by (simp add: receiver_turn_def select_ready_def)

lemma control_watched:
  assumes "local_sock < sock" "pending local_sock" "so_type (cn_sock c) = RegularSocket"
  shows "receiver_turn e now (sock, local_sock) pending msg c = Inr (Leave, c, [])"
  using assms by (simp add: receiver_turn_def select_ready_def)

text \<open>A stopped receiver ends without another turn.\<close>

lemma receiver_loop_stopped: "\<not> so_worker_running (cn_sock c) \<Longrightarrow> receiver_loop e fds evs c = Inr (c, [])"
  by (cases evs) auto

text \<open>A request that asks for speed zero is accepted, and the sender of the new connection computes with an infinite delay.\<close>

lemma zero_speed_faults:
  assumes "accept_connection blank can_bind (PackageConnectionCreate_bytes 0, src) c = Inr (c', Some new, out)"
    and "0 \<le> sint (so_upload_speed (cn_sock c))"
  shows "sender_start t0 now new = Inl BadConversion"
proof -
  have g: "get_le 4 4 (PackageConnectionCreate_bytes 0) = Inr 0" by code_simp
  have "recv_into (PackageConnectionCreate_bytes 0) (PackageConnectionCreate_bytes 100) = Inr (PackageConnectionCreate_bytes 0)"
    by code_simp
  then have "so_send_speed (cn_sock new) = smin 0 (so_upload_speed (cn_sock c))"
    using assms(1) g by (auto simp: accept_connection_def bind_out_eq_Inr_iff Let_def ReliableSocket_server_def conn_new_def
        set_rto_def split: if_splits)
  also have "\<dots> = 0" using assms(2) by (simp add: smin_def)
  finally show ?thesis by (simp add: sender_start_def list_package_us_def)
qed

section \<open>Properties\<close>


definition small_package :: PackageData where
  "small_package = \<lparr>pd_type = Data, pd_package_id = 1, pd_una = 0, pd_data = [7], pd_send_count = 0, pd_send_time = (0, 0)\<rparr>"

definition demo_sending :: conn where
  "demo_sending = conn_new (fresh_sock\<lparr>so_fast_start := False, so_send_speed := 100,
     so_send_heap := snd (heap_new small_package heap_empty),
     so_send_pool := (PackageQueueMap_new 8)\<lparr>qm_queue := (replicate 16 0)[0 := 1], qm_len := 1, qm_end := 1,
        qm_arr := (replicate 8 0)[1 := 1], qm_data_list := (replicate 8 None)[1 := Some 0]\<rparr>\<rparr>)"

lemma demo_sending_turn:
  "\<exists>c. sender_paced (1, 0) (1, 0) (1, 0) demo_sending (Sleeper_new t 10240 us) =
     Inr (c, (Sleeper_new t 10240 us)\<lparr>sl_send_len := 21\<rparr>, to_connected demo_sending [pd_bytes small_package], 0)"
  by (simp add: sender_paced_def sender_send_def demo_sending_def conn_new_def fresh_sock_def rsock_new_def
      PackageQueueMap_size_def PackageQueueMap_pop_def PackageQueueMap_index_def PackageQueueMap_new_def slot_def
      heap_new_def heap_empty_def heap_get_def heap_put_def small_package_def AckWaitList_push_def AckWaitList_new_def
      Let_def list_package_count_def to_connected_def length_pd_bytes pd_length_def sizeof_defs send_sleep_def Sleeper_new_def pd_bytes_def)




end
