(* ===== verification/Buffers.thy ===== *)
theory Buffers
  imports Prelude
begin

text \<open>
  Who owns the arrays of \<open>src/src/rudp/Package.h\<close>, \<open>NetStruct.cpp\<close> and \<open>ReliableSocket.h\<close>: constructors, copy constructors, \<open>load\<close>,
  \<open>de_init\<close> and destructors, as far as they allocate and free. What the arrays hold is the subject of the other theories. The
  store lists every array allocated so far with its size in bytes, or nothing once it was freed. Pointers and \<open>long\<close> have
  eight bytes; initialising a member from a temporary does not copy it.
\<close>

section \<open>The store\<close>

type_synonym store = "nat option list"

datatype ptr = Array nat | Foreign  \<comment> \<open>a buffer that was not allocated, as one on the stack\<close>

definition new_array :: "nat \<Rightarrow> store \<Rightarrow> ptr \<times> store" where
  "new_array n st = (Array (length st), st @ [Some n])"

definition delete_array :: "ptr \<Rightarrow> store \<Rightarrow> store outcome" where
  "delete_array p st =
     (case p of
        Foreign \<Rightarrow> Inl UseAfterFree
      | Array a \<Rightarrow> if a < length st \<and> st ! a \<noteq> None then Inr (st[a := None]) else Inl UseAfterFree)"

fun delete_arrays :: "ptr list \<Rightarrow> store \<Rightarrow> store outcome" where
  "delete_arrays [] st = Inr st"
| "delete_arrays (p # ps) st = bind_out (delete_array p st) (delete_arrays ps)"

definition live_bytes :: "store \<Rightarrow> nat" where
  "live_bytes st = sum_list (map (\<lambda>x. case x of None \<Rightarrow> 0 | Some n \<Rightarrow> n) st)"

section \<open>Packages that wrap a buffer\<close>

text \<open>\<open>PackageAck\<close> and \<open>PackagePing\<close> own their bytes as long as \<open>init\<close> is set.\<close>

record view =
  vw_bytes :: ptr
  vw_len :: int
  vw_init :: bool

definition PackageAck_view :: "ptr \<Rightarrow> int \<Rightarrow> view" where
  "PackageAck_view bytes total_len = \<lparr>vw_bytes = bytes, vw_len = total_len, vw_init = False\<rparr>"

definition PackageAck_alloc :: "int \<Rightarrow> nat \<Rightarrow> store \<Rightarrow> view \<times> store" where
  \<comment> \<open>\<open>len\<close> is not initialised\<close>
  "PackageAck_alloc junk max_ack st =
     (let (p, st) = new_array (4 + 24 + 8 * max_ack) st in (\<lparr>vw_bytes = p, vw_len = junk, vw_init = True\<rparr>, st))"

definition PackagePing_alloc :: "store \<Rightarrow> view \<times> store" where
  "PackagePing_alloc st = (let (p, st) = new_array 5 st in (\<lparr>vw_bytes = p, vw_len = 5, vw_init = True\<rparr>, st))"

definition view_load :: "ptr \<Rightarrow> int \<Rightarrow> view \<times> store \<Rightarrow> (view \<times> store) outcome" where
  "view_load bytes n vst =
     (case vst of (v, st) \<Rightarrow>
      bind_out (if vw_init v then delete_array (vw_bytes v) st else Inr st) (\<lambda>st.
        Inr (\<lparr>vw_bytes = bytes, vw_len = n, vw_init = False\<rparr>, st)))"

definition view_delete :: "view \<times> store \<Rightarrow> store outcome" where
  "view_delete vst = (case vst of (v, st) \<Rightarrow> if vw_init v then delete_array (vw_bytes v) st else Inr st)"

text \<open>\<open>PackageConnectionCreate\<close> and \<open>PackageConnectionCreateR\<close> always free their bytes; their \<open>load\<close> is marked ``do not use''.\<close>

record owner =
  ow_bytes :: ptr
  ow_len :: int

definition PackageConnectionCreate_new :: "store \<Rightarrow> owner \<times> store" where
  "PackageConnectionCreate_new st = (let (p, st) = new_array 8 st in (\<lparr>ow_bytes = p, ow_len = 8\<rparr>, st))"

definition PackageConnectionCreateR_new :: "store \<Rightarrow> owner \<times> store" where
  "PackageConnectionCreateR_new st = (let (p, st) = new_array 12 st in (\<lparr>ow_bytes = p, ow_len = 12\<rparr>, st))"

definition PackageConnectionClose_new :: "store \<Rightarrow> owner \<times> store" where
  \<comment> \<open>an empty structure has one byte\<close>
  "PackageConnectionClose_new st = (let (p, st) = new_array 5 st in (\<lparr>ow_bytes = p, ow_len = 5\<rparr>, st))"

definition owner_load :: "ptr \<Rightarrow> int \<Rightarrow> owner \<Rightarrow> owner" where
  "owner_load bytes n w = \<lparr>ow_bytes = bytes, ow_len = n\<rparr>"

definition owner_delete :: "owner \<Rightarrow> store \<Rightarrow> store outcome" where
  "owner_delete w st = delete_array (ow_bytes w) st"

section \<open>Containers\<close>

record aq_mem =
  am_arr :: ptr
  am_mem :: bool

definition AckQueue_alloc :: "nat \<Rightarrow> store \<Rightarrow> aq_mem \<times> store" where
  "AckQueue_alloc capacity st = (let (p, st) = new_array (8 * capacity) st in (\<lparr>am_arr = p, am_mem = True\<rparr>, st))"

definition AckQueue_share :: "aq_mem \<Rightarrow> aq_mem" where
  \<comment> \<open>the copy constructor\<close>
  "AckQueue_share q = \<lparr>am_arr = am_arr q, am_mem = False\<rparr>"

definition AckQueue_delete :: "aq_mem \<Rightarrow> store \<Rightarrow> store outcome" where
  "AckQueue_delete q st = (if am_mem q then delete_array (am_arr q) st else Inr st)"

definition AckQueue_de_init :: "aq_mem \<Rightarrow> store \<Rightarrow> store outcome" where
  "AckQueue_de_init q st = delete_array (am_arr q) st"

definition IdSet_alloc :: "nat \<Rightarrow> store \<Rightarrow> ptr \<times> store" where
  "IdSet_alloc arr_size st = new_array (8 * arr_size) st"

definition IdSet_delete :: "ptr \<Rightarrow> store \<Rightarrow> store outcome" where
  "IdSet_delete arr st = delete_array arr st"

text \<open>\<open>PackageMap\<close> has two arrays, \<open>data_pointer_list\<close> and \<open>arr_id\<close>; it has no destructor, and \<open>de_init\<close> frees the second.\<close>

definition PackageMap_alloc :: "nat \<Rightarrow> store \<Rightarrow> (ptr \<times> ptr) \<times> store" where
  "PackageMap_alloc n st = (let (d, st) = new_array (8 * n) st; (a, st) = new_array (8 * n) st in ((d, a), st))"

definition PackageMap_free :: "ptr \<times> ptr \<Rightarrow> store \<Rightarrow> store outcome" where
  "PackageMap_free m st = delete_array (snd m) st"

record qm_mem =
  qa_data_list :: ptr
  qa_arr :: ptr
  qa_queue :: ptr
  qa_resend_queue :: ptr
  qa_ref :: ptr

definition PackageQueueMap_alloc :: "nat \<Rightarrow> store \<Rightarrow> qm_mem \<times> store" where
  "PackageQueueMap_alloc capacity st =
     (let (d, st) = new_array (8 * capacity) st; (a, st) = new_array (8 * capacity) st;
          (q, st) = new_array (16 * capacity) st; (rq, st) = new_array (8 * capacity) st;
          (r, st) = new_array (4 * capacity) st in
      (\<lparr>qa_data_list = d, qa_arr = a, qa_queue = q, qa_resend_queue = rq, qa_ref = r\<rparr>, st))"

definition PackageQueueMap_free :: "qm_mem \<Rightarrow> store \<Rightarrow> store outcome" where
  \<comment> \<open>the four \<^verbatim>\<open>delete[]\<close> at the end of the destructor\<close>
  "PackageQueueMap_free m st = delete_arrays [qa_arr m, qa_queue m, qa_data_list m, qa_ref m] st"

definition AckWaitList_alloc :: "nat \<Rightarrow> store \<Rightarrow> (ptr \<times> ptr) \<times> store" where
  "AckWaitList_alloc capacity st =
     (let (q, st) = new_array (8 * capacity) st; (c, st) = new_array (4 * capacity) st in ((q, c), st))"

definition AckWaitList_delete :: "ptr \<times> ptr \<Rightarrow> store \<Rightarrow> store outcome" where
  "AckWaitList_delete w st = delete_arrays [snd w, fst w] st"

definition PackageSegmentList_alloc :: "nat \<Rightarrow> store \<Rightarrow> ptr \<times> store" where
  \<comment> \<open>freed by \<open>de_init\<close> only\<close>
  "PackageSegmentList_alloc capacity st = new_array (8 * capacity) st"

definition PackageSegmentList_de_init :: "ptr \<Rightarrow> store \<Rightarrow> store outcome" where
  "PackageSegmentList_de_init l st = delete_array l st"

definition SegmentParser_alloc :: "store \<Rightarrow> ptr \<times> store" where
  "SegmentParser_alloc st = new_array 1600 st"

definition SegmentParser_delete :: "ptr \<Rightarrow> store \<Rightarrow> store outcome" where
  "SegmentParser_delete p st = delete_array p st"

section \<open>A socket\<close>

record rsock_mem =
  rm_remote_addr :: ptr
  rm_connected_addr :: ptr
  rm_local_addr :: ptr
  rm_segment_list :: ptr
  rm_segment_recv :: ptr
  rm_send_pool :: qm_mem
  rm_ack_pool :: "ptr \<times> ptr"
  rm_ack_send_queue :: aq_mem
  rm_ack_recv_pool :: ptr
  rm_recv_pool :: "ptr \<times> ptr"
  rm_crypto :: ptr

text \<open>The member initialisers in their order, and the \<open>SharpCrypto\<close> of the constructor with its size.\<close>

definition rsock_alloc :: "nat \<Rightarrow> nat \<Rightarrow> store \<Rightarrow> rsock_mem \<times> store" where
  "rsock_alloc capacity sizeof_crypto st =
     (let (remote, st) = new_array 16 st; (connected, st) = new_array 16 st; (local, st) = new_array 16 st;
          (sl, st) = PackageSegmentList_alloc capacity st; (sp, st) = SegmentParser_alloc st;
          (qm, st) = PackageQueueMap_alloc capacity st; (aw, st) = AckWaitList_alloc capacity st;
          (aq, st) = AckQueue_alloc capacity st; (ids, st) = IdSet_alloc capacity st;
          (pm, st) = PackageMap_alloc capacity st; (cr, st) = new_array sizeof_crypto st in
      (\<lparr>rm_remote_addr = remote, rm_connected_addr = connected, rm_local_addr = local, rm_segment_list = sl,
        rm_segment_recv = sp, rm_send_pool = qm, rm_ack_pool = aw, rm_ack_send_queue = aq, rm_ack_recv_pool = ids,
        rm_recv_pool = pm, rm_crypto = cr\<rparr>, st))"

definition connect_alloc :: "rsock_mem \<times> store \<Rightarrow> rsock_mem \<times> store" where
  \<comment> \<open>\<open>connect_addr\<close> replaces two addresses\<close>
  "connect_alloc mst =
     (let (m, st) = mst; (remote, st) = new_array 16 st; (connected, st) = new_array 16 st in
      (m\<lparr>rm_remote_addr := remote, rm_connected_addr := connected\<rparr>, st))"

definition rsock_delete :: "rsock_mem \<times> store \<Rightarrow> store outcome" where
  \<comment> \<open>the body of the destructor, then the members in reverse order\<close>
  "rsock_delete mst =
     (let (m, st) = mst in
      bind_out (delete_arrays [rm_remote_addr m, rm_connected_addr m] st) (\<lambda>st.
      bind_out (IdSet_delete (rm_ack_recv_pool m) st) (\<lambda>st.
      bind_out (AckQueue_delete (rm_ack_send_queue m) st) (\<lambda>st.
      bind_out (AckWaitList_delete (rm_ack_pool m) st) (\<lambda>st.
      bind_out (PackageQueueMap_free (rm_send_pool m) st) (\<lambda>st.
      SegmentParser_delete (rm_segment_recv m) st))))))"

section \<open>What is freed\<close>

lemma live_bytes_append [simp]: "live_bytes (st @ ys) = live_bytes st + live_bytes ys"
  by (simp add: live_bytes_def)

lemma delete_array_at:
  "a = length st + k \<Longrightarrow> k < length xs \<Longrightarrow> xs ! k \<noteq> None \<Longrightarrow> delete_array (Array a) (st @ xs) = Inr (st @ xs[k := None])"
  by (simp add: delete_array_def nth_append list_update_append)

text \<open>A buffer that is loaded any number of times is freed exactly once.\<close>

fun view_loads :: "(ptr \<times> int) list \<Rightarrow> view \<times> store \<Rightarrow> (view \<times> store) outcome" where
  "view_loads [] vst = Inr vst"
| "view_loads ((p, n) # ps) vst = bind_out (view_load p n vst) (view_loads ps)"

lemma view_loads_loaded:
  "\<not> vw_init v \<Longrightarrow> \<exists>v'. view_loads ps (v, st) = Inr (v', st) \<and> \<not> vw_init v'"
  by (induction ps arbitrary: v) (auto simp: view_load_def)

lemma view_life:
  assumes "vst = PackageAck_alloc junk max_ack st \<or> vst = PackagePing_alloc st"
  shows "bind_out (view_loads ps vst) view_delete = Inr (st @ [None])"
proof -
  obtain v n where v: "vst = (v, st @ [Some n])" "vw_init v" "vw_bytes v = Array (length st)"
    using assms by (auto simp: PackageAck_alloc_def PackagePing_alloc_def new_array_def)
  have d: "delete_array (vw_bytes v) (st @ [Some n]) = Inr (st @ [None])"
    using delete_array_at [of "length st" st 0 "[Some n]"] by (simp add: v(3))
  show ?thesis
  proof (cases ps)
    case Nil
    then show ?thesis using v d by (simp add: view_delete_def)
  next
    case (Cons p qs)
    obtain q m where p: "p = (q, m)" by fastforce
    obtain v' where "view_loads qs (\<lparr>vw_bytes = q, vw_len = m, vw_init = False\<rparr>, st @ [None]) = Inr (v', st @ [None])" "\<not> vw_init v'"
      using view_loads_loaded [of "\<lparr>vw_bytes = q, vw_len = m, vw_init = False\<rparr>" qs "st @ [None]"] by auto
    then show ?thesis using v d Cons p by (simp add: view_load_def view_delete_def)
  qed
qed

text \<open>The same on a package that must not be loaded: the destructor frees the foreign buffer.\<close>

lemma owner_load_faults: "owner_delete (owner_load Foreign n w) st = Inl UseAfterFree"
  by (simp add: owner_delete_def owner_load_def delete_array_def)

lemma owner_life: "case PackageConnectionCreate_new st of (w, st') \<Rightarrow> owner_delete w st' = Inr (st @ [None])"
  using delete_array_at [of "length st" st 0 "[Some 8]"]
  by (simp add: PackageConnectionCreate_new_def new_array_def owner_delete_def)

text \<open>The snapshots of the acknowledgement sender free nothing, whatever their number; \<open>de_init\<close> must not be combined with the destructor.\<close>

lemma snapshot_life: "AckQueue_delete (AckQueue_share q) st = Inr st"
  by (simp add: AckQueue_delete_def AckQueue_share_def)

lemma de_init_twice:
  "case AckQueue_alloc capacity st of (q, st') \<Rightarrow> bind_out (AckQueue_de_init q st') (AckQueue_delete q) = Inl UseAfterFree"
  using delete_array_at [of "length st" st 0 "[Some (8 * capacity)]"]
  by (simp add: AckQueue_alloc_def new_array_def AckQueue_de_init_def AckQueue_delete_def delete_array_def nth_append)

text \<open>
  A connection that is opened and deleted leaves behind the queue of resent packages, both arrays of the received
  packages, the segment list, its local address and its key object: with the capacity of 100000 more than
  three megabytes. A connected client loses two addresses more.
\<close>

lemma connection_leaks:
  "\<exists>st1. rsock_delete (rsock_alloc capacity n st) = Inr st1 \<and> live_bytes st1 = live_bytes st + 32 * capacity + 16 + n"
  "\<exists>st2. rsock_delete (connect_alloc (rsock_alloc capacity n st)) = Inr st2 \<and> live_bytes st2 = live_bytes st + 32 * capacity + 48 + n"
  by (simp_all add: rsock_delete_def rsock_alloc_def connect_alloc_def new_array_def Let_def PackageSegmentList_alloc_def SegmentParser_alloc_def
      PackageQueueMap_alloc_def AckWaitList_alloc_def AckQueue_alloc_def IdSet_alloc_def PackageMap_alloc_def
      IdSet_delete_def AckQueue_delete_def AckWaitList_delete_def PackageQueueMap_free_def SegmentParser_delete_def
      delete_array_def nth_append list_update_append live_bytes_def numeral_eq_Suc)

end
