(* ===== verification/NsParser.thy ===== *)
theory NsParser
  imports Prelude
begin

text \<open>
  Model of \<open>src/src/chinadns/local_ns_parser.c\<close>: the DNS message parser of the DNS relay. Pointers are
  offsets into the buffer the message was received to, \<open>eom\<close> is the offset after its last byte.
  \<open>Inr None\<close> is the return value -1; a read outside the buffer is the fault \<open>OutOfBounds\<close>. The
  function \<open>dn_expand\<close> of libresolv is an argument: \<open>Some (b, name)\<close> when it consumed \<open>b\<close> bytes at
  the pointer, \<open>None\<close> for -1.
\<close>

section \<open>Names\<close>

definition byte_at :: "nat \<Rightarrow> bytes \<Rightarrow> u8 outcome" where
  "byte_at i buf = (if i < length buf then Inr (buf ! i) else Inl OutOfBounds)"

definition NS_CMPRSFLGS :: u8 where "NS_CMPRSFLGS = 0xc0"
definition LOCAL_NS_TYPE_ELT :: u8 where "LOCAL_NS_TYPE_ELT = 0x40"
definition LOCAL_DNS_LABELTYPE_BITSTRING :: u8 where "LOCAL_DNS_LABELTYPE_BITSTRING = 0x41"

definition local_ns_labellen :: "bytes \<Rightarrow> nat \<Rightarrow> nat option outcome" where
  "local_ns_labellen buf lp =
     bind_out (byte_at lp buf) (\<lambda>l.
     if l AND NS_CMPRSFLGS = NS_CMPRSFLGS then Inr None
     else if l AND NS_CMPRSFLGS = LOCAL_NS_TYPE_ELT then
       (if l = LOCAL_DNS_LABELTYPE_BITSTRING then
          bind_out (byte_at (lp + 1) buf) (\<lambda>b.
          let bitlen = (if b = 0 then 256 else unat b) in Inr (Some ((bitlen + 7) div 8 + 1)))
        else Inr None)
     else Inr (Some (unat l)))"

function local_ns_name_skip :: "bytes \<Rightarrow> nat \<Rightarrow> nat \<Rightarrow> nat option outcome" where
  "local_ns_name_skip buf eom cp =
     (let finish = (\<lambda>cp. Inr (if cp > eom then None else Some cp)) in
      if cp < eom then
        (case byte_at cp buf of
           Inl e \<Rightarrow> Inl e
         | Inr n \<Rightarrow>
             if n = 0 then finish (cp + 1)
             else if n AND NS_CMPRSFLGS = 0 then local_ns_name_skip buf eom (cp + 1 + unat n)
             else if n AND NS_CMPRSFLGS = LOCAL_NS_TYPE_ELT then
               (case local_ns_labellen buf cp of
                  Inl e \<Rightarrow> Inl e
                | Inr None \<Rightarrow> Inr None
                | Inr (Some l) \<Rightarrow> local_ns_name_skip buf eom (cp + 1 + l))
             else if n AND NS_CMPRSFLGS = NS_CMPRSFLGS then finish (cp + 2)
             else Inr None)
      else finish cp)"
  by pat_completeness auto
termination
  by (relation "measure (\<lambda>(buf, eom, cp). eom - cp)") auto

declare local_ns_name_skip.simps [simp del]

definition local_ns_dn_skipname :: "bytes \<Rightarrow> nat \<Rightarrow> nat \<Rightarrow> nat option outcome" where
  "local_ns_dn_skipname buf eom ptr =
     bind_out (local_ns_name_skip buf eom ptr) (\<lambda>r.
       Inr (case r of None \<Rightarrow> None | Some cp \<Rightarrow> Some (cp - ptr)))"

section \<open>Records\<close>

text \<open>The sections in the order of \<open>ns_sect\<close>.\<close>

abbreviation (input) ns_s_qd :: nat where "ns_s_qd \<equiv> 0"
abbreviation (input) ns_s_an :: nat where "ns_s_an \<equiv> 1"
abbreviation (input) ns_s_max :: nat where "ns_s_max \<equiv> 4"

fun skiprr_loop :: "bytes \<Rightarrow> nat \<Rightarrow> nat \<Rightarrow> nat \<Rightarrow> nat \<Rightarrow> nat option outcome" where
  "skiprr_loop buf eom section 0 ptr = Inr (Some ptr)"
| "skiprr_loop buf eom section (Suc count) ptr =
     bind_out (local_ns_dn_skipname buf eom ptr) (\<lambda>r.
     case r of
       None \<Rightarrow> Inr None
     | Some b \<Rightarrow>
        (let ptr = ptr + b + 4 in
         if section \<noteq> ns_s_qd then
           (if ptr + 6 > eom then Inr None
            else bind_out (get_be 2 (ptr + 4) buf) (\<lambda>rdlength.
              skiprr_loop buf eom section count (ptr + 6 + rdlength)))
         else skiprr_loop buf eom section count ptr))"

definition local_ns_skiprr :: "bytes \<Rightarrow> nat \<Rightarrow> nat \<Rightarrow> nat \<Rightarrow> nat \<Rightarrow> nat option outcome" where
  "local_ns_skiprr buf eom section count ptr =
     bind_out (skiprr_loop buf eom section count ptr) (\<lambda>r.
       Inr (case r of None \<Rightarrow> None | Some p \<Rightarrow> if p > eom then None else Some (p - ptr)))"

record ns_msg =
  ns_eom :: nat
  ns_id :: nat
  ns_flags :: nat
  ns_counts :: "nat list"
  ns_sections :: "nat option list"
  ns_sect :: nat
  ns_rrnum :: int
  ns_ptr :: "nat option"

record ns_rr =
  rr_name :: string
  rr_type :: nat
  rr_class :: nat
  rr_ttl :: nat
  rr_rdlength :: nat
  rr_rdata :: "nat option"

definition local_ns_setsection :: "nat \<Rightarrow> ns_msg \<Rightarrow> ns_msg" where
  "local_ns_setsection sect msg =
     (if sect = ns_s_max then msg\<lparr>ns_sect := sect, ns_rrnum := -1, ns_ptr := None\<rparr>
      else msg\<lparr>ns_sect := sect, ns_rrnum := 0, ns_ptr := ns_sections msg ! sect\<rparr>)"

section \<open>Messages\<close>

fun init_get16s :: "nat \<Rightarrow> bytes \<Rightarrow> nat \<Rightarrow> nat \<Rightarrow> nat list option outcome" where
  "init_get16s 0 buf eom ptr = Inr (Some [])"
| "init_get16s (Suc n) buf eom ptr =
     (if ptr + 2 > eom then Inr None
      else bind_out (get_be 2 ptr buf) (\<lambda>v.
      bind_out (init_get16s n buf eom (ptr + 2)) (\<lambda>r.
        Inr (case r of None \<Rightarrow> None | Some vs \<Rightarrow> Some (v # vs)))))"

fun init_sections :: "bytes \<Rightarrow> nat \<Rightarrow> nat \<Rightarrow> nat list \<Rightarrow> nat \<Rightarrow> (nat option list \<times> nat) option outcome" where
  "init_sections buf eom i [] ptr = Inr (Some ([], ptr))"
| "init_sections buf eom i (c # cs) ptr =
     (if c = 0 then
        bind_out (init_sections buf eom (Suc i) cs ptr) (\<lambda>r.
          Inr (case r of None \<Rightarrow> None | Some (ss, p) \<Rightarrow> Some (None # ss, p)))
      else
        bind_out (local_ns_skiprr buf eom i c ptr) (\<lambda>b.
        case b of
          None \<Rightarrow> Inr None
        | Some b \<Rightarrow>
           bind_out (init_sections buf eom (Suc i) cs (ptr + b)) (\<lambda>r.
             Inr (case r of None \<Rightarrow> None | Some (ss, p) \<Rightarrow> Some (Some ptr # ss, p)))))"

definition local_ns_initparse :: "bytes \<Rightarrow> nat \<Rightarrow> ns_msg option outcome" where
  "local_ns_initparse buf msglen =
     bind_out (init_get16s 6 buf msglen 0) (\<lambda>r.
     case r of
       None \<Rightarrow> Inr None
     | Some vs \<Rightarrow>
        (let counts = drop 2 vs in
         bind_out (init_sections buf msglen 0 counts 12) (\<lambda>r.
         case r of
           None \<Rightarrow> Inr None
         | Some (sections, p) \<Rightarrow>
            if p \<noteq> msglen then Inr None
            else Inr (Some (local_ns_setsection ns_s_max
              \<lparr>ns_eom = msglen, ns_id = vs ! 0, ns_flags = vs ! 1, ns_counts = counts,
               ns_sections = sections, ns_sect = ns_s_max, ns_rrnum = -1, ns_ptr = None\<rparr>)))))"

type_synonym dn_expand = "bytes \<Rightarrow> nat \<Rightarrow> nat \<Rightarrow> (nat \<times> string) option"

text \<open>The end of \<open>local_ns_parserr\<close>: expand the name at \<open>p\<close> and read the fields behind it.\<close>

definition parserr_fields ::
  "dn_expand \<Rightarrow> bytes \<Rightarrow> nat \<Rightarrow> nat \<Rightarrow> nat \<Rightarrow> (ns_rr \<times> nat) option outcome" where
  "parserr_fields dn_expand buf eom section p =
     (case dn_expand buf eom p of
        None \<Rightarrow> Inr None
      | Some (b, name) \<Rightarrow>
         (let p = p + b in
          if p + 4 > eom then Inr None
          else
            bind_out (get_be 2 p buf) (\<lambda>ty.
            bind_out (get_be 2 (p + 2) buf) (\<lambda>cl.
            let rr = \<lparr>rr_name = name, rr_type = ty, rr_class = cl, rr_ttl = 0, rr_rdlength = 0,
                      rr_rdata = None\<rparr> in
            if section = ns_s_qd then Inr (Some (rr, p + 4))
            else if p + 10 > eom then Inr None
            else
              bind_out (get_be 4 (p + 4) buf) (\<lambda>ttl.
              bind_out (get_be 2 (p + 8) buf) (\<lambda>rdlength.
              if p + 10 + rdlength > eom then Inr None
              else Inr (Some (rr\<lparr>rr_ttl := ttl, rr_rdlength := rdlength, rr_rdata := Some (p + 10)\<rparr>,
                              p + 10 + rdlength))))))))"

text \<open>
  One record; the callers pass \<open>section < ns_s_max\<close> and drop the handle when the result is -1.
\<close>

definition local_ns_parserr ::
  "dn_expand \<Rightarrow> bytes \<Rightarrow> nat \<Rightarrow> int \<Rightarrow> ns_msg \<Rightarrow> (ns_rr \<times> ns_msg) option outcome" where
  "local_ns_parserr dn_expand buf section rrnum handle =
     (if section \<ge> ns_s_max then Inr None
      else
        let h = (if section \<noteq> ns_sect handle then local_ns_setsection section handle else handle);
            rrnum = (if rrnum = -1 then ns_rrnum h else rrnum) in
        if rrnum < 0 \<or> rrnum \<ge> int (ns_counts h ! section) then Inr None
        else
          let h = (if rrnum < ns_rrnum h then local_ns_setsection section h else h) in
          bind_out (of_option NullDeref (ns_ptr h)) (\<lambda>p.
          bind_out
            (if rrnum > ns_rrnum h
             then local_ns_skiprr buf (ns_eom h) section (nat (rrnum - ns_rrnum h)) p
             else Inr (Some 0)) (\<lambda>b.
          case b of
            None \<Rightarrow> Inr None
          | Some b \<Rightarrow>
             bind_out (parserr_fields dn_expand buf (ns_eom h) section (p + b)) (\<lambda>r.
             Inr (case r of
                None \<Rightarrow> None
              | Some (rr, p) \<Rightarrow>
                 (let h = h\<lparr>ns_rrnum := rrnum + 1, ns_ptr := Some p\<rparr> in
                  Some (rr, if ns_rrnum h > int (ns_counts h ! section)
                            then local_ns_setsection (section + 1) h else h)))))))"

section \<open>Memory safety\<close>

text \<open>
  The buffer must be longer than the message by at least one byte: \<open>local_ns_labellen\<close> reads the
  byte after a bit-string label without looking at \<open>eom\<close>.
\<close>

lemma byte_at_ok: "i < length buf \<Longrightarrow> byte_at i buf = Inr (buf ! i)"
  by (simp add: byte_at_def)

lemma get_be_ok: "off + n \<le> length buf \<Longrightarrow> \<exists>v. get_be n off buf = Inr v"
  by (simp add: get_be_def)

lemma labellen_ok: "lp + 1 < length buf \<Longrightarrow> \<exists>r. local_ns_labellen buf lp = Inr r"
  by (simp add: local_ns_labellen_def byte_at_def)

definition skip_result :: "nat \<Rightarrow> nat \<Rightarrow> nat option outcome \<Rightarrow> bool" where
  "skip_result eom cp r \<longleftrightarrow> (r = Inr None \<or> (\<exists>cp'. r = Inr (Some cp') \<and> cp' \<le> eom \<and> cp \<le> cp' \<and>
     (cp < eom \<longrightarrow> cp < cp')))"

lemma skip_result_step: "skip_result eom (cp + 1 + k) r \<Longrightarrow> skip_result eom cp r"
  by (auto simp: skip_result_def)

lemma name_skip_ok: "eom < length buf \<Longrightarrow> skip_result eom cp (local_ns_name_skip buf eom cp)"
proof (induction buf eom cp rule: local_ns_name_skip.induct)
  case (1 buf eom cp)
  show ?case
  proof (cases "cp < eom")
    case False
    then show ?thesis by (simp add: local_ns_name_skip.simps [of buf eom cp] skip_result_def)
  next
    case True
    define n where "n = buf ! cp"
    have b: "byte_at cp buf = Inr n" using True 1(3) by (simp add: byte_at_def n_def)
    obtain lr where lr: "local_ns_labellen buf cp = Inr lr"
      using labellen_ok [of cp buf] True 1(3) by auto
    note unf = local_ns_name_skip.simps [of buf eom cp]
    consider "n = 0" | "n \<noteq> 0" "n AND NS_CMPRSFLGS = 0"
      | l where "n \<noteq> 0" "n AND NS_CMPRSFLGS \<noteq> 0" "n AND NS_CMPRSFLGS = LOCAL_NS_TYPE_ELT" "lr = Some l"
      | "n \<noteq> 0" "n AND NS_CMPRSFLGS \<noteq> 0" "n AND NS_CMPRSFLGS = LOCAL_NS_TYPE_ELT" "lr = None"
      | "n \<noteq> 0" "n AND NS_CMPRSFLGS \<noteq> 0" "n AND NS_CMPRSFLGS \<noteq> LOCAL_NS_TYPE_ELT"
      by (cases lr) blast+
    then show ?thesis
    proof cases
      case 2
      with 1(1) [OF refl True b 2 1(3)] True b show ?thesis
        by (simp add: unf skip_result_step)
    next
      case 3
      with 1(2) [OF refl True b 3(1-3) _ _ 1(3)] lr True b show ?thesis
        by (simp add: unf skip_result_step)
    qed (use True b lr in \<open>auto simp: unf skip_result_def\<close>)
  qed
qed

lemma skipname_ok:
  assumes "eom < length buf"
  shows "\<exists>r. local_ns_dn_skipname buf eom ptr = Inr r \<and> (\<forall>b. r = Some b \<longrightarrow> ptr + b \<le> eom)"
  using name_skip_ok [OF assms, of ptr]
  by (auto simp: local_ns_dn_skipname_def skip_result_def)

lemma skiprr_loop_ok:
  assumes "eom < length buf"
  shows "\<exists>r. skiprr_loop buf eom section count ptr = Inr r \<and> (\<forall>p. r = Some p \<longrightarrow> ptr \<le> p)"
proof (induction count arbitrary: ptr)
  case (Suc count)
  obtain r where r: "local_ns_dn_skipname buf eom ptr = Inr r" using skipname_ok [OF assms] by blast
  show ?case
  proof (cases r)
    case None
    then show ?thesis using r by simp
  next
    case (Some b)
    let ?p = "ptr + b + 4"
    show ?thesis
    proof (cases "section \<noteq> ns_s_qd \<and> ?p + 6 > eom")
      case True
      then show ?thesis using r Some by (simp add: Let_def)
    next
      case False
      obtain k where k: "skiprr_loop buf eom section (Suc count) ptr = skiprr_loop buf eom section count (?p + k)"
      proof (cases "section = ns_s_qd")
        case True
        then show ?thesis using that [of 0] r Some by (simp add: Let_def)
      next
        case ns: False
        then obtain v where v: "get_be 2 (?p + 4) buf = Inr v"
          using get_be_ok [of "?p + 4" 2 buf] False assms by auto
        show ?thesis using that [of "6 + v"] ns v r Some False
          by (simp add: Let_def add.commute add.left_commute)
      qed
      then show ?thesis using Suc.IH [of "?p + k"] by fastforce
    qed
  qed
qed simp

lemma skiprr_ok:
  assumes "eom < length buf"
  shows "\<exists>r. local_ns_skiprr buf eom section count ptr = Inr r \<and> (\<forall>b. r = Some b \<longrightarrow> ptr + b \<le> eom)"
  using skiprr_loop_ok [OF assms, of "section" count ptr]
  by (auto simp: local_ns_skiprr_def split: option.splits)

lemma init_get16s_ok:
  assumes "eom < length buf"
  shows "\<exists>r. init_get16s n buf eom ptr = Inr r \<and> (\<forall>vs. r = Some vs \<longrightarrow> length vs = n \<and> (0 < n \<longrightarrow> ptr + 2 * n \<le> eom))"
proof (induction n arbitrary: ptr)
  case (Suc n)
  show ?case
  proof (cases "ptr + 2 > eom")
    case True
    then show ?thesis by simp
  next
    case False
    then obtain v where "get_be 2 ptr buf = Inr v" using get_be_ok [of ptr 2 buf] assms by auto
    moreover obtain r where "init_get16s n buf eom (ptr + 2) = Inr r"
        "\<forall>vs. r = Some vs \<longrightarrow> length vs = n \<and> (0 < n \<longrightarrow> ptr + 2 + 2 * n \<le> eom)"
      using Suc.IH [of "ptr + 2"] by blast
    ultimately show ?thesis using False by (cases r; cases n) auto
  qed
qed simp

lemma init_sections_ok:
  assumes "eom < length buf"
  shows "ptr \<le> eom \<Longrightarrow> \<exists>r. init_sections buf eom i cs ptr = Inr r \<and>
     (\<forall>ss p. r = Some (ss, p) \<longrightarrow> length ss = length cs \<and> p \<le> eom \<and>
        (\<forall>j < length cs. (ss ! j = None \<longleftrightarrow> cs ! j = 0) \<and> (\<forall>q. ss ! j = Some q \<longrightarrow> q \<le> eom)))"
proof (induction cs arbitrary: i ptr)
  case (Cons c cs)
  show ?case
  proof (cases "c = 0")
    case True
    obtain r where "init_sections buf eom (Suc i) cs ptr = Inr r"
        "\<forall>ss p. r = Some (ss, p) \<longrightarrow> length ss = length cs \<and> p \<le> eom \<and>
        (\<forall>j < length cs. (ss ! j = None \<longleftrightarrow> cs ! j = 0) \<and> (\<forall>q. ss ! j = Some q \<longrightarrow> q \<le> eom))"
      using Cons by blast
    then show ?thesis using True by (cases r) (auto simp: nth_Cons split: nat.splits)
  next
    case False
    obtain b where b: "local_ns_skiprr buf eom i c ptr = Inr b" "\<forall>n. b = Some n \<longrightarrow> ptr + n \<le> eom"
      using skiprr_ok [OF assms] by blast
    show ?thesis
    proof (cases b)
      case None
      then show ?thesis using b False by simp
    next
      case (Some n)
      then obtain r where "init_sections buf eom (Suc i) cs (ptr + n) = Inr r"
        "\<forall>ss p. r = Some (ss, p) \<longrightarrow> length ss = length cs \<and> p \<le> eom \<and>
        (\<forall>j < length cs. (ss ! j = None \<longleftrightarrow> cs ! j = 0) \<and> (\<forall>q. ss ! j = Some q \<longrightarrow> q \<le> eom))"
        using Cons.IH b(2) by blast
      then show ?thesis using b(1) Some False Cons.prems by (cases r) (auto simp: nth_Cons split: nat.splits)
    qed
  qed
qed simp

section \<open>Handles\<close>

definition ns_cursor_ok :: "ns_msg \<Rightarrow> bool" where
  "ns_cursor_ok h \<longleftrightarrow>
     ns_sect h = ns_s_max \<or>
     ns_sect h < ns_s_max \<and> 0 \<le> ns_rrnum h \<and> ns_rrnum h \<le> int (ns_counts h ! ns_sect h) \<and>
     (0 < ns_counts h ! ns_sect h \<longrightarrow> (\<exists>p. ns_ptr h = Some p \<and> p \<le> ns_eom h))"

definition ns_ok :: "ns_msg \<Rightarrow> bool" where
  "ns_ok h \<longleftrightarrow> length (ns_counts h) = 4 \<and> length (ns_sections h) = 4 \<and>
     (\<forall>j < 4. (ns_sections h ! j = None \<longleftrightarrow> ns_counts h ! j = 0) \<and>
        (\<forall>q. ns_sections h ! j = Some q \<longrightarrow> q \<le> ns_eom h)) \<and> ns_cursor_ok h"

lemma initparse_ok:
  assumes "eom < length buf"
  shows "\<exists>r. local_ns_initparse buf eom = Inr r \<and> (\<forall>h. r = Some h \<longrightarrow> ns_ok h \<and> ns_eom h = eom)"
proof -
  obtain r where r: "init_get16s 6 buf eom 0 = Inr r" "\<forall>vs. r = Some vs \<longrightarrow> length vs = 6 \<and> 12 \<le> eom"
    using init_get16s_ok [OF assms, of 6 0] by auto
  show ?thesis
  proof (cases r)
    case None
    then show ?thesis using r by (simp add: local_ns_initparse_def)
  next
    case (Some vs)
    then have l: "length (drop 2 vs) = 4" "12 \<le> eom" using r(2) by simp_all
    obtain q where q: "init_sections buf eom 0 (drop 2 vs) 12 = Inr q"
      "\<forall>ss p. q = Some (ss, p) \<longrightarrow> length ss = 4 \<and> p \<le> eom \<and>
        (\<forall>j < 4. (ss ! j = None \<longleftrightarrow> drop 2 vs ! j = 0) \<and> (\<forall>p. ss ! j = Some p \<longrightarrow> p \<le> eom))"
      using init_sections_ok [OF assms l(2), of 0 "drop 2 vs"] l(1) by auto
    show ?thesis
    proof (cases q)
      case q0: None
      then show ?thesis using r q Some by (simp add: local_ns_initparse_def Let_def)
    next
      case sp: (Some sp)
      obtain ss p where "sp = (ss, p)" by fastforce
      then show ?thesis using r q Some sp l
        by (auto simp: local_ns_initparse_def Let_def ns_ok_def ns_cursor_ok_def local_ns_setsection_def)
    qed
  qed
qed

lemma parserr_fields_ok:
  assumes len: "eom < length buf"
  shows "\<exists>r. parserr_fields dx buf eom sect p = Inr r \<and>
     (\<forall>rr p'. r = Some (rr, p') \<longrightarrow> p' \<le> eom \<and> (sect = ns_s_qd \<longleftrightarrow> rr_rdata rr = None) \<and>
        (\<forall>q. rr_rdata rr = Some q \<longrightarrow> q + rr_rdlength rr \<le> eom))"
proof (cases "dx buf eom p")
  case None
  then show ?thesis by (simp add: parserr_fields_def)
next
  case (Some bn)
  obtain b name where bn: "bn = (b, name)" by fastforce
  let ?p = "p + b"
  show ?thesis
  proof (cases "?p + 4 \<le> eom")
    case False
    then show ?thesis using Some bn by (simp add: parserr_fields_def Let_def)
  next
    case le: True
    obtain ty cl where g: "get_be 2 ?p buf = Inr ty" "get_be 2 (?p + 2) buf = Inr cl"
      using get_be_ok [of ?p 2 buf] get_be_ok [of "?p + 2" 2 buf] le len by auto
    show ?thesis
    proof (cases "sect = ns_s_qd \<or> eom < ?p + 10")
      case True
      then show ?thesis using Some bn le g by (auto simp: parserr_fields_def Let_def)
    next
      case False
      obtain ttl rl where "get_be 4 (?p + 4) buf = Inr ttl" "get_be 2 (?p + 8) buf = Inr rl"
        using get_be_ok [of "?p + 4" 4 buf] get_be_ok [of "?p + 8" 2 buf] False len by auto
      then show ?thesis using Some bn le g False by (auto simp: parserr_fields_def Let_def)
    qed
  qed
qed

lemma setsection_ok:
  assumes "ns_ok h" "sect \<le> ns_s_max"
  shows "ns_ok (local_ns_setsection sect h)"
proof (cases "sect = ns_s_max")
  case True
  then show ?thesis using assms(1) by (simp add: ns_ok_def ns_cursor_ok_def local_ns_setsection_def)
next
  case False
  then have lt: "sect < 4" using assms(2) by simp
  with assms have "ns_sections h ! sect = None \<longleftrightarrow> ns_counts h ! sect = 0"
    "\<forall>q. ns_sections h ! sect = Some q \<longrightarrow> q \<le> ns_eom h" by (auto simp: ns_ok_def)
  then show ?thesis using False lt assms(1)
    by (cases "ns_sections h ! sect") (auto simp: ns_ok_def ns_cursor_ok_def local_ns_setsection_def)
qed

lemma parserr_ok:
  assumes ok: "ns_ok h" and len: "ns_eom h < length buf" and sect: "sect < ns_s_max" and n: "0 \<le> rrnum"
  shows "\<exists>r. local_ns_parserr dx buf sect rrnum h = Inr r \<and>
     (\<forall>rr h'. r = Some (rr, h') \<longrightarrow> ns_ok h' \<and> ns_eom h' = ns_eom h \<and> ns_counts h' = ns_counts h \<and>
        (sect = ns_s_qd \<longleftrightarrow> rr_rdata rr = None) \<and>
        (\<forall>q. rr_rdata rr = Some q \<longrightarrow> q + rr_rdlength rr \<le> ns_eom h))"
proof -
  define h1 where "h1 = (if sect \<noteq> ns_sect h then local_ns_setsection sect h else h)"
  define h2 where "h2 = (if rrnum < ns_rrnum h1 then local_ns_setsection sect h1 else h1)"
  have fr: "ns_eom h2 = ns_eom h" "ns_counts h2 = ns_counts h" "ns_eom h1 = ns_eom h" "ns_counts h1 = ns_counts h"
    by (auto simp: h2_def h1_def local_ns_setsection_def)
  have ok1: "ns_ok h1" "ns_sect h1 = sect"
    using setsection_ok [OF ok, of sect] sect ok by (auto simp: h1_def local_ns_setsection_def)
  have ok2: "ns_ok h2" "ns_sect h2 = sect"
    using setsection_ok [OF ok1(1), of sect] ok1 sect by (auto simp: h2_def local_ns_setsection_def)
  show ?thesis
  proof (cases "rrnum \<ge> int (ns_counts h ! sect)")
    case True
    then show ?thesis using sect n fr by (simp add: local_ns_parserr_def Let_def h1_def [symmetric])
  next
    case False
    then have "0 < ns_counts h2 ! sect" using n fr by simp
    then obtain p where p: "ns_ptr h2 = Some p" using ok2 sect by (auto simp: ns_ok_def ns_cursor_ok_def)
    obtain b where b: "(if rrnum > ns_rrnum h2
             then local_ns_skiprr buf (ns_eom h) sect (nat (rrnum - ns_rrnum h2)) p else Inr (Some 0)) = Inr b"
      using skiprr_ok [OF len, of sect "nat (rrnum - ns_rrnum h2)" p] by fastforce
    have unf: "local_ns_parserr dx buf sect rrnum h =
        (case b of None \<Rightarrow> Inr None | Some b \<Rightarrow>
             bind_out (parserr_fields dx buf (ns_eom h) sect (p + b)) (\<lambda>r.
             Inr (case r of None \<Rightarrow> None
              | Some (rr, p) \<Rightarrow>
                 (let h = h2\<lparr>ns_rrnum := rrnum + 1, ns_ptr := Some p\<rparr> in
                  Some (rr, if ns_rrnum h > int (ns_counts h ! sect)
                            then local_ns_setsection (sect + 1) h else h)))))"
      using sect n False fr p b
      by (simp add: local_ns_parserr_def Let_def h1_def [symmetric] h2_def [symmetric] split del: if_split)
        (simp cong: if_cong split del: if_split)
    show ?thesis
    proof (cases b)
      case None
      then show ?thesis using unf by simp
    next
      case (Some b)
      obtain r where r: "parserr_fields dx buf (ns_eom h) sect (p + b) = Inr r"
        "\<forall>rr p'. r = Some (rr, p') \<longrightarrow> p' \<le> ns_eom h \<and> (sect = ns_s_qd \<longleftrightarrow> rr_rdata rr = None) \<and>
          (\<forall>q. rr_rdata rr = Some q \<longrightarrow> q + rr_rdlength rr \<le> ns_eom h)"
        using parserr_fields_ok [OF len] by blast
      show ?thesis
      proof (cases r)
        case None
        then show ?thesis using unf r(1) Some by simp
      next
        case rp: (Some rp)
        obtain rr p' where rp': "rp = (rr, p')" by fastforce
        have "\<not> rrnum + 1 > int (ns_counts h2 ! sect)" using False fr by simp
        moreover have "ns_ok (h2\<lparr>ns_rrnum := rrnum + 1, ns_ptr := Some p'\<rparr>)"
          using ok2 sect n False fr r(2) rp rp' by (auto simp: ns_ok_def ns_cursor_ok_def)
        ultimately show ?thesis using unf r rp rp' Some fr by (simp add: Let_def)
      qed
    qed
  qed
qed

section \<open>Properties\<close>

text \<open>
  The name skipper is safe and makes progress: on arbitrary bytes, with one readable byte behind
  the message, it never reads outside the buffer, it ends, and when it succeeds the new position is
  inside the message and, unless the name starts at the end, behind the old one.
\<close>

lemma name_skip_safe:
  assumes "eom < length buf"
  shows "local_ns_name_skip buf eom cp = Inr None \<or>
     (\<exists>cp'. local_ns_name_skip buf eom cp = Inr (Some cp') \<and> cp' \<le> eom \<and> cp \<le> cp' \<and> (cp < eom \<longrightarrow> cp < cp'))"
  using name_skip_ok [OF assms, of cp] by (auto simp: skip_result_def)

lemma name_skip_safe_witness:
  "\<exists>cp'. local_ns_name_skip [2, 97, 98, 0, 9] 4 0 = Inr (Some cp') \<and> cp' \<le> 4 \<and> 0 < cp'"
proof -
  have "local_ns_name_skip [2, 97, 98, 0, 9] 4 3 = Inr (Some 4)"
    by (simp add: local_ns_name_skip.simps [of _ _ 3] byte_at_def)
  then have "local_ns_name_skip [2, 97, 98, 0, 9] 4 0 = Inr (Some 4)"
    by (simp add: local_ns_name_skip.simps [of _ _ 0] byte_at_def NS_CMPRSFLGS_def numeral_3_eq_3)
  with name_skip_safe [of 4 "[2, 97, 98, 0, 9]" 0] show ?thesis by auto
qed

text \<open>
  C33: Parsing a DNS message is memory safe: on an arbitrary message, \<open>local_ns_initparse\<close> does not
  fault, and with the handle it gives, \<open>local_ns_parserr\<close> does not fault for any record number of
  any section; the data of every record it returns lies inside the message, and the handle it leaves
  is good for the next call.
\<close>

theorem dns_parse_safe:
  assumes "msglen < length buf" "sect < 4" "0 \<le> rrnum"
  shows "\<exists>r. local_ns_initparse buf msglen = Inr r \<and>
     (\<forall>h. r = Some h \<longrightarrow> (\<exists>q. local_ns_parserr dx buf sect rrnum h = Inr q \<and>
        (\<forall>rr h'. q = Some (rr, h') \<longrightarrow> ns_ok h' \<and>
           (\<forall>d. rr_rdata rr = Some d \<longrightarrow> d + rr_rdlength rr \<le> msglen))))"
proof -
  obtain r where r: "local_ns_initparse buf msglen = Inr r" "\<forall>h. r = Some h \<longrightarrow> ns_ok h \<and> ns_eom h = msglen"
    using initparse_ok [OF assms(1)] by blast
  have "\<exists>q. local_ns_parserr dx buf sect rrnum h = Inr q \<and>
        (\<forall>rr h'. q = Some (rr, h') \<longrightarrow> ns_ok h' \<and>
           (\<forall>d. rr_rdata rr = Some d \<longrightarrow> d + rr_rdlength rr \<le> msglen))" if "r = Some h" for h
  proof -
    have h: "ns_ok h" and e: "ns_eom h = msglen" using r(2) that by auto
    have "ns_eom h < length buf" using e assms(1) by simp
    from parserr_ok [OF h this assms(2,3), of dx] show ?thesis unfolding e by blast
  qed
  with r(1) show ?thesis by blast
qed

definition demo_query :: bytes where
  "demo_query = [0x12, 0x34, 1, 0, 0, 1, 0, 0, 0, 0, 0, 0, 1, 97, 0, 0, 1, 0, 1]"

theorem dns_parse_safe_witness:
  "\<exists>r. local_ns_initparse (demo_query @ [0]) 19 = Inr r \<and>
     (\<forall>h. r = Some h \<longrightarrow>
        (\<exists>q. local_ns_parserr (\<lambda>buf eom p. Some (3, ''a'')) (demo_query @ [0]) 0 0 h = Inr q))"
  using dns_parse_safe [of 19 "demo_query @ [0]" 0 0 "\<lambda>buf eom p. Some (3, ''a'')"]
  by (fastforce simp: demo_query_def)

text \<open>
  The one byte is needed: \<open>local_ns_labellen\<close> looks at the byte behind a bit-string label
  without comparing with \<open>eom\<close>, so a message that fills its buffer and ends in such a label makes
  the parser read outside the buffer.
\<close>

lemma labellen_over_read:
  "local_ns_name_skip (replicate n 1 @ [LOCAL_DNS_LABELTYPE_BITSTRING]) (Suc n) n = Inl OutOfBounds"
  by (simp add: local_ns_name_skip.simps [of _ _ n] byte_at_def NS_CMPRSFLGS_def LOCAL_NS_TYPE_ELT_def
      LOCAL_DNS_LABELTYPE_BITSTRING_def local_ns_labellen_def nth_append)

end
