(* ===== verification/ChnRoute.thy ===== *)
theory ChnRoute
  imports Prelude
begin

text \<open>
  Model of the address lists of \<open>src/src/chinadns/chinadns.c\<close>: the file of Chinese networks and the
  blacklist, how they are parsed and sorted, and the binary search \<open>test_ip_in_list\<close>. An address is
  the 32-bit value of \<open>s_addr\<close>, in network order; \<open>ntohl\<close> gives its numeric order. The function
  \<open>inet_aton\<close> is an argument (\<open>None\<close> when it returns 0); a file is the string of its contents.
\<close>

section \<open>Reading lines\<close>

text \<open>\<open>fgets\<close> with a buffer of 32 characters: at most 31, up to and including a newline.\<close>

fun fgets_take :: "nat \<Rightarrow> string \<Rightarrow> string \<times> string" where
  "fgets_take 0 s = ([], s)"
| "fgets_take (Suc n) [] = ([], [])"
| "fgets_take (Suc n) (c # s) =
     (if c = CHR 0x0A then ([c], s) else case fgets_take n s of (l, r) \<Rightarrow> (c # l, r))"

lemma fgets_take_append: "fgets_take n s = (l, r) \<Longrightarrow> s = l @ r"
  by (induction n s arbitrary: l rule: fgets_take.induct) (auto split: if_splits prod.splits)

lemma fgets_take_nonempty: "fgets_take (Suc n) (c # s) = (l, r) \<Longrightarrow> l \<noteq> []"
  by (auto split: if_splits prod.splits)

function fgets_lines :: "string \<Rightarrow> string list" where
  "fgets_lines s = (if s = [] then [] else case fgets_take 31 s of (l, r) \<Rightarrow> l # fgets_lines r)"
  by pat_completeness auto
termination
proof (relation "measure length")
  fix s l r assume s: "s \<noteq> ([] :: string)" "(l, r) = fgets_take 31 s"
  then obtain c t where "s = c # t" by (cases s) auto
  moreover have "31 = Suc 30" by simp
  ultimately have "l \<noteq> []" using s fgets_take_nonempty by metis
  moreover have "s = l @ r" using s fgets_take_append [of 31 s l r] by simp
  ultimately show "(r, s) \<in> measure length" by simp
qed simp

declare fgets_lines.simps [simp del]

definition cut_at :: "char \<Rightarrow> string \<Rightarrow> string" where
  \<comment> \<open>\<^verbatim>\<open>sp_pos = strchr(line, c); if (sp_pos) *sp_pos = 0;\<close>\<close>
  "cut_at c s = takeWhile (\<lambda>x. x \<noteq> c) s"

definition chomp :: "string \<Rightarrow> string" where
  "chomp line = cut_at (CHR 0x0A) (cut_at (CHR 0x0D) line)"

definition is_digit :: "char \<Rightarrow> bool" where
  "is_digit c \<longleftrightarrow> 48 \<le> (of_char c :: nat) \<and> (of_char c :: nat) \<le> 57"

definition is_space :: "char \<Rightarrow> bool" where
  "is_space c \<longleftrightarrow> c = CHR '' '' \<or> 9 \<le> (of_char c :: nat) \<and> (of_char c :: nat) \<le> 13"

fun digits_val :: "nat \<Rightarrow> string \<Rightarrow> nat" where
  "digits_val acc [] = acc"
| "digits_val acc (c # s) = (if is_digit c then digits_val (10 * acc + (of_char c - 48)) s else acc)"

definition atoi :: "string \<Rightarrow> int" where
  "atoi s =
     (let s = dropWhile is_space s in
      case s of
        [] \<Rightarrow> 0
      | c # t \<Rightarrow> (if c = CHR ''-'' then - int (digits_val 0 t)
                 else if c = CHR ''+'' then int (digits_val 0 t) else int (digits_val 0 s)))"

section \<open>Parsing and sorting\<close>

type_synonym inet_aton = "string \<Rightarrow> u32 option"

record net_mask =
  nm_net :: u32
  nm_mask :: u32

definition net_zero :: net_mask where
  "net_zero = \<lparr>nm_net = 0, nm_mask = 0\<rparr>"

definition net_key :: "net_mask \<Rightarrow> u32" where
  "net_key n = ntohl (nm_net n)"

definition cmp_in_addr :: "u32 \<Rightarrow> u32 \<Rightarrow> int" where
  "cmp_in_addr a b = (if a = b then 0 else if a > b then 1 else -1)"

definition cmp_net_mask :: "net_mask \<Rightarrow> net_mask \<Rightarrow> int" where
  "cmp_net_mask a b =
     (if nm_net a = nm_net b then 0
      else if ntohl (nm_net a) > ntohl (nm_net b) then 1 else -1)"

text \<open>\<open>qsort\<close>: a permutation sorted by the comparison; equal elements keep their order here.\<close>

definition qsort :: "('a \<Rightarrow> 'k :: linorder) \<Rightarrow> 'a list \<Rightarrow> 'a list" where
  "qsort key xs = sort_key key xs"

definition parse_ip_list :: "inet_aton \<Rightarrow> string \<Rightarrow> u32 list" where
  \<comment> \<open>a line that \<open>inet_aton\<close> rejects leaves the zero that \<open>calloc\<close> wrote\<close>
  "parse_ip_list aton contents =
     qsort id (map (\<lambda>l. case aton (chomp l) of Some a \<Rightarrow> a | None \<Rightarrow> 0) (fgets_lines contents))"

text \<open>\<^verbatim>\<open>(1 << (32 - atoi(sp_pos + 1))) - 1\<close> in \<open>int\<close>: undefined for counts outside 0..30.\<close>

definition chn_mask :: "int \<Rightarrow> u32 outcome" where
  "chn_mask bits =
     (let cnt = 32 - bits in
      if cnt < 0 \<or> 31 \<le> cnt then Inl ShiftRange else Inr (push_bit (nat cnt) 1 - 1))"

text \<open>A line gives the mask and, unless \<open>inet_aton\<close> rejects it, the network.\<close>

definition chn_line :: "inet_aton \<Rightarrow> string \<Rightarrow> (u32 \<times> u32 option) outcome" where
  "chn_line aton line =
     (let l = chomp line; a = cut_at (CHR ''/'') l in
      bind_out (if a \<noteq> l then chn_mask (atoi (drop (length a + 1) l)) else Inr (- 1)) (\<lambda>m.
        Inr (m, aton a)))"

fun chn_lines :: "inet_aton \<Rightarrow> string list \<Rightarrow> (net_mask list \<times> bool) outcome" where
  "chn_lines aton [] = Inr ([], True)"
| "chn_lines aton (l # ls) =
     bind_out (chn_line aton l) (\<lambda>(m, r).
     case r of
       None \<Rightarrow> Inr (\<lparr>nm_net = 0, nm_mask = m\<rparr> # map (\<lambda>_. net_zero) ls, False)
     | Some net \<Rightarrow>
        bind_out (chn_lines aton ls) (\<lambda>(ns, ok). Inr (\<lparr>nm_net = net, nm_mask = m\<rparr> # ns, ok)))"

text \<open>The return value 1, for an invalid address, leaves the array unsorted.\<close>

definition parse_chnroute :: "inet_aton \<Rightarrow> string \<Rightarrow> (int \<times> net_mask list) outcome" where
  "parse_chnroute aton contents =
     bind_out (chn_lines aton (fgets_lines contents)) (\<lambda>(nets, ok).
       Inr (if ok then (0, qsort net_key nets) else (1, nets)))"

section \<open>Binary search\<close>

function bs_loop :: "net_mask list \<Rightarrow> net_mask \<Rightarrow> nat \<Rightarrow> nat \<Rightarrow> nat" where
  "bs_loop nets ip_net l r =
     (if l = r then l
      else
        let m = (l + r) div 2 in
        if cmp_net_mask ip_net (nets ! m) = -1
        then (if r \<noteq> m then bs_loop nets ip_net l m else l)
        else (if l \<noteq> m then bs_loop nets ip_net m r else l))"
  by pat_completeness auto
termination
  by (relation "measure (\<lambda>(nets, ip, l, r). (r - l) + (l - r))") auto

declare bs_loop.simps [simp del]

definition in_net :: "net_mask \<Rightarrow> u32 \<Rightarrow> bool" where
  "in_net n ip \<longleftrightarrow> (ntohl (nm_net n) XOR ntohl ip) AND ((- 1) XOR nm_mask n) = 0"

definition test_ip_in_list :: "u32 \<Rightarrow> net_mask list \<Rightarrow> bool" where
  "test_ip_in_list ip nets =
     (if length nets = 0 then False
      else in_net (nets ! bs_loop nets \<lparr>nm_net = ip, nm_mask = 0\<rparr> 0 (length nets - 1)) ip)"

section \<open>What the search finds\<close>

abbreviation key_at :: "net_mask list \<Rightarrow> nat \<Rightarrow> u32" where
  "key_at nets i \<equiv> net_key (nets ! i)"

lemma cmp_less: "cmp_net_mask a b = -1 \<longleftrightarrow> net_key a < net_key b"
  by (auto simp: cmp_net_mask_def net_key_def not_less order.order_iff_strict)

lemma bs_loop_same: "bs_loop nets a l l = l"
  by (simp add: bs_loop.simps [of nets a l l])

lemma bs_loop_spec:
  "l < r \<Longrightarrow> l \<le> bs_loop nets a l r \<and> bs_loop nets a l r < r \<and>
     (bs_loop nets a l r = l \<or> key_at nets (bs_loop nets a l r) \<le> net_key a) \<and>
     (bs_loop nets a l r + 1 = r \<or> net_key a < key_at nets (bs_loop nets a l r + 1))"
proof (induction nets a l r rule: bs_loop.induct)
  case (1 nets a l r)
  let ?m = "(l + r) div 2"
  have m: "l \<le> ?m" "?m < r" using 1(3) by auto
  show ?case
  proof (cases "net_key a < net_key (nets ! ?m)")
    case True
    then have s: "bs_loop nets a l r = bs_loop nets a l ?m"
      using 1(3) m by (simp add: bs_loop.simps [of nets a l r] cmp_less Let_def)
    show ?thesis
    proof (cases "l = ?m")
      case e: True
      then have "bs_loop nets a l ?m = l" using bs_loop_same [of nets a l] by simp
      then show ?thesis using s e 1(3) by auto
    next
      case False
      then have "l < ?m" using m by simp
      with 1(1) [OF _ refl] 1(3) True m s show ?thesis by (auto simp: cmp_less)
    qed
  next
    case False
    show ?thesis
    proof (cases "l = ?m")
      case e: True
      then have "bs_loop nets a l r = l" "r = l + 1"
        using 1(3) False by (auto simp: bs_loop.simps [of nets a l r] cmp_less Let_def)
      then show ?thesis using 1(3) by simp
    next
      case ne: False
      then have s: "bs_loop nets a l r = bs_loop nets a ?m r"
        using 1(3) False by (simp add: bs_loop.simps [of nets a l r] cmp_less Let_def)
      with 1(2) [OF _ refl] 1(3) False ne m show ?thesis by (auto simp: cmp_less)
    qed
  qed
qed

text \<open>A CIDR block: \<open>b\<close> host bits, all zero in the network address.\<close>

definition net_block :: "nat \<Rightarrow> net_mask \<Rightarrow> bool" where
  "net_block b n \<longleftrightarrow> b < 32 \<and> nm_mask n = push_bit b 1 - 1 \<and> unat (net_key n) mod 2 ^ b = 0"

lemma and_not_mask_eq_0: "(a :: u32) AND NOT (mask b) = 0 \<longleftrightarrow> drop_bit b a = 0"
proof
  assume z: "a AND NOT (mask b) = 0"
  show "drop_bit b a = 0"
  proof (rule bit_word_eqI)
    fix n assume "n < LENGTH(32)"
    have "\<not> bit (a AND NOT (mask b)) (b + n)" using z by simp
    then have "\<not> bit a (b + n)"
      using bit_imp_le_length [of a "b + n"] by (auto simp: bit_and_iff bit_not_iff bit_mask_iff)
    then show "bit (drop_bit b a) n = bit (0 :: u32) n" by (simp add: bit_drop_bit_eq)
  qed
next
  assume z: "drop_bit b a = 0"
  show "a AND NOT (mask b) = 0"
  proof (rule bit_word_eqI)
    fix n assume n: "n < LENGTH(32)"
    have "\<not> bit (drop_bit b a) (n - b)" using z by simp
    then have "n < b \<or> \<not> bit a n" by (auto simp: bit_drop_bit_eq not_less)
    then show "bit (a AND NOT (mask b)) n = bit (0 :: u32) n"
      using n by (auto simp: bit_and_iff bit_not_iff bit_mask_iff)
  qed
qed

lemma word_xor_eq_0: "(x :: u32) XOR y = 0 \<longleftrightarrow> x = y"
  by (metis xor.assoc xor.left_neutral xor_self_eq)

lemma in_net_block:
  assumes "net_block b n"
  shows "in_net n ip \<longleftrightarrow> unat (net_key n) div 2 ^ b = unat (ntohl ip) div 2 ^ b"
proof -
  have "in_net n ip \<longleftrightarrow> drop_bit b (net_key n XOR ntohl ip) = 0"
  proof -
    have "(- 1) XOR nm_mask n = NOT (mask b)"
      using assms by (simp add: net_block_def mask_eq_exp_minus_1 push_bit_eq_mult)
    then show ?thesis by (simp only: in_net_def net_key_def and_not_mask_eq_0)
  qed
  also have "\<dots> \<longleftrightarrow> drop_bit b (net_key n) = drop_bit b (ntohl ip)"
    by (simp add: drop_bit_xor word_xor_eq_0)
  also have "\<dots> \<longleftrightarrow> unat (drop_bit b (net_key n)) = unat (drop_bit b (ntohl ip))"
    using word_unat_eq_iff by blast
  also have "\<dots> \<longleftrightarrow> unat (net_key n) div 2 ^ b = unat (ntohl ip) div 2 ^ b"
    unfolding unat_drop_bit_eq by (simp add: drop_bit_eq_div)
  finally show ?thesis .
qed

lemma in_net_ge:
  assumes "net_block b n" "in_net n ip"
  shows "net_key n \<le> ntohl ip"
proof -
  have "unat (net_key n) = unat (net_key n) div 2 ^ b * 2 ^ b"
    using assms(1) by (simp add: net_block_def mod_0_imp_dvd)
  also have "\<dots> \<le> unat (ntohl ip)"
    using assms by (simp add: in_net_block)
  finally show ?thesis by (simp add: word_le_nat_alt)
qed

lemma in_net_between:
  assumes "net_block b n" "in_net n ip" "net_key n \<le> ntohl x" "ntohl x \<le> ntohl ip"
  shows "in_net n x"
proof -
  have "unat (net_key n) div 2 ^ b \<le> unat (ntohl x) div 2 ^ b"
    "unat (ntohl x) div 2 ^ b \<le> unat (ntohl ip) div 2 ^ b"
    using assms(3,4) by (simp_all add: div_le_mono word_le_nat_alt)
  then show ?thesis using assms(1,2) by (simp add: in_net_block)
qed

definition nets_ok :: "net_mask list \<Rightarrow> bool" where
  "nets_ok nets \<longleftrightarrow> (\<forall>n \<in> set nets. \<exists>b. net_block b n) \<and>
     (\<forall>j < length nets. \<forall>i < j. key_at nets i < key_at nets j \<and> \<not> in_net (nets ! i) (nm_net (nets ! j)))"

lemma only_predecessor:
  assumes ok: "nets_ok nets" and ij: "i < j" "j < length nets" and key: "key_at nets j \<le> ntohl ip"
  shows "\<not> in_net (nets ! i) ip"
proof
  assume "in_net (nets ! i) ip"
  moreover obtain b where "net_block b (nets ! i)"
    using ok ij unfolding nets_ok_def by (meson nth_mem order.strict_trans)
  moreover have "key_at nets i < key_at nets j" using ok ij by (simp add: nets_ok_def)
  ultimately have "in_net (nets ! i) (nm_net (nets ! j))"
    using key in_net_between by (metis less_imp_le net_key_def)
  then show False using ok ij by (simp add: nets_ok_def)
qed

lemma later_network:
  assumes ok: "nets_ok nets" and i: "i < length nets" and 2: "m < i" and net: "in_net (nets ! i) ip"
  shows "key_at nets (m + 1) \<le> ntohl ip"
proof -
  obtain b where "net_block b (nets ! i)" using ok i unfolding nets_ok_def by (meson nth_mem)
  then have "key_at nets i \<le> ntohl ip" using net by (rule in_net_ge)
  moreover have "key_at nets (m + 1) \<le> key_at nets i"
    using ok i 2 unfolding nets_ok_def by (metis Suc_eq_plus1 Suc_lessI less_imp_le order.refl)
  ultimately show ?thesis by (rule order.trans [rotated])
qed

section \<open>Properties\<close>

lemma search_result:
  assumes "2 \<le> length nets"
  shows "bs_loop nets \<lparr>nm_net = ip, nm_mask = 0\<rparr> 0 (length nets - 1) = i \<Longrightarrow>
     i < length nets - 1 \<and> (i = 0 \<or> key_at nets i \<le> ntohl ip) \<and>
     (i + 1 = length nets - 1 \<or> ntohl ip < key_at nets (i + 1))"
  using bs_loop_spec [of 0 "length nets - 1" nets "\<lparr>nm_net = ip, nm_mask = 0\<rparr>"] assms
  by (auto simp: net_key_def)

text \<open>
  C38: The search is right below the last network. For a list of disjoint CIDR blocks in ascending
  order and an address that is numerically below the start of the last block (or a list of one
  block), \<open>test_ip_in_list\<close> says exactly whether some block contains the address.
\<close>

theorem test_ip_in_list_correct:
  assumes ok: "nets_ok nets" and ne: "nets \<noteq> []"
    and below: "length nets = 1 \<or> ntohl ip < net_key (last nets)"
  shows "test_ip_in_list ip nets \<longleftrightarrow> (\<exists>n \<in> set nets. in_net n ip)"
proof (cases "length nets = 1")
  case True
  then obtain n where "nets = [n]" by (cases nets) auto
  then show ?thesis by (simp add: test_ip_in_list_def bs_loop_same)
next
  case False
  with ne have len: "2 \<le> length nets" by (cases nets) (auto simp: Suc_le_eq)
  define m where "m = bs_loop nets \<lparr>nm_net = ip, nm_mask = 0\<rparr> 0 (length nets - 1)"
  have m: "m < length nets - 1" "m = 0 \<or> key_at nets m \<le> ntohl ip"
      "m + 1 = length nets - 1 \<or> ntohl ip < key_at nets (m + 1)"
    using search_result [OF len m_def [symmetric]] by simp_all
  have next_gt: "ntohl ip < key_at nets (m + 1)"
  proof (cases "m + 1 = length nets - 1")
    case True
    then have "key_at nets (m + 1) = net_key (last nets)" using ne by (simp add: last_conv_nth)
    then show ?thesis using below False by simp
  next
    case ne: False
    then show ?thesis using m(3) by blast
  qed
  have "i = m" if i: "i < length nets" "in_net (nets ! i) ip" for i
  proof (rule ccontr)
    assume "i \<noteq> m"
    then consider "i < m" | "m < i" by linarith
    then show False
    proof cases
      case 1
      have "m < length nets" "key_at nets m \<le> ntohl ip" using m(1,2) 1 by linarith+
      then show ?thesis using only_predecessor [OF ok 1, of ip] i by blast
    next
      case 2
      then have "key_at nets (m + 1) \<le> ntohl ip" using later_network [OF ok i(1), of m] i(2) by blast
      then show ?thesis using next_gt by simp
    qed
  qed
  moreover have "test_ip_in_list ip nets \<longleftrightarrow> in_net (nets ! m) ip"
    using ne by (simp add: test_ip_in_list_def m_def)
  moreover have "m < length nets" using m(1) by linarith
  ultimately show ?thesis by (metis in_set_conv_nth)
qed

definition demo_nets :: "net_mask list" where
  \<comment> \<open>1.0.0.0/24, 2.0.0.0/8 and 8.0.0.0/8\<close>
  "demo_nets = [\<lparr>nm_net = 0x00000001, nm_mask = 0xff\<rparr>, \<lparr>nm_net = 0x00000002, nm_mask = 0xffffff\<rparr>,
     \<lparr>nm_net = 0x00000008, nm_mask = 0xffffff\<rparr>]"

lemma demo_keys: "htonl 1 = 0x01000000" "htonl 2 = 0x02000000" "htonl 8 = 0x08000000"
  "htonl 0x07060502 = 0x02050607" "htonl 0x07060508 = 0x08050607"
  by (simp_all add: htonl_def bswap_def le_enc_4)

lemma demo_nets_ok: "nets_ok demo_nets"
proof -
  have "net_block 8 \<lparr>nm_net = 1, nm_mask = 0xff\<rparr>" "net_block 24 \<lparr>nm_net = 2, nm_mask = 0xffffff\<rparr>"
      "net_block 24 \<lparr>nm_net = 8, nm_mask = 0xffffff\<rparr>"
    by (simp_all add: net_block_def net_key_def demo_keys push_bit_eq_mult)
  then show ?thesis
    by (auto simp: nets_ok_def demo_nets_def less_Suc_eq numeral_3_eq_3 net_key_def in_net_def demo_keys)
qed

theorem test_ip_in_list_correct_witness:
  "test_ip_in_list 0x07060502 demo_nets \<longleftrightarrow> (\<exists>n \<in> set demo_nets. in_net n 0x07060502)"
  by (rule test_ip_in_list_correct [OF demo_nets_ok])
    (simp_all add: demo_nets_def net_key_def demo_keys)

text \<open>
  The last network is never found. When the list holds at least two blocks, the search stops
  before its last index, so an address of the last block is reported as not in the list.
\<close>

lemma test_ip_in_list_misses_last:
  assumes ok: "nets_ok nets" and len: "2 \<le> length nets" and ip: "in_net (last nets) ip"
  shows "\<not> test_ip_in_list ip nets"
proof -
  have ne: "nets \<noteq> []" using len by auto
  define m where "m = bs_loop nets \<lparr>nm_net = ip, nm_mask = 0\<rparr> 0 (length nets - 1)"
  have m: "m < length nets - 1" using search_result [OF len m_def [symmetric]] by simp
  have l: "last nets = nets ! (length nets - 1)" using ne by (simp add: last_conv_nth)
  obtain b where "net_block b (last nets)" using ok ne unfolding nets_ok_def by (meson last_in_set)
  then have "key_at nets (length nets - 1) \<le> ntohl ip" using ip l in_net_ge by metis
  from only_predecessor [OF ok m _ this] ne show ?thesis
    by (simp add: test_ip_in_list_def m_def)
qed

lemma test_ip_in_list_misses_last_witness:
  "in_net (last demo_nets) 0x07060508 \<and> \<not> test_ip_in_list 0x07060508 demo_nets"
proof -
  have "in_net (last demo_nets) 0x07060508" by (simp add: demo_nets_def in_net_def demo_keys)
  with test_ip_in_list_misses_last [OF demo_nets_ok _ this] show ?thesis by (simp add: demo_nets_def)
qed

text \<open>
  A line without a prefix length stands for every address: its mask is \<open>UINT32_MAX\<close>, the bits
  that are compared are none, and the entry contains every address instead of one host.
\<close>

lemma chn_line_without_prefix:
  assumes "CHR ''/'' \<notin> set (chomp line)" "aton (chomp line) = Some net"
  shows "chn_line aton line = Inr (- 1, Some net) \<and> in_net \<lparr>nm_net = net, nm_mask = - 1\<rparr> ip"
proof -
  have "cut_at (CHR ''/'') (chomp line) = chomp line"
    using assms(1) by (auto simp: cut_at_def takeWhile_eq_all_conv)
  then show ?thesis using assms(2) by (simp add: chn_line_def in_net_def)
qed

lemma chn_line_without_prefix_witness:
  "chn_line (\<lambda>s. if s = ''1.2.3.4'' then Some 0x04030201 else None) ''1.2.3.4'' = Inr (- 1, Some 0x04030201)
     \<and> in_net \<lparr>nm_net = 0x04030201, nm_mask = - 1\<rparr> 0"
  by (rule chn_line_without_prefix) (simp_all add: chomp_def cut_at_def)

end
