(* ===== verification/ChinaDns.thy ===== *)
theory ChinaDns
  imports NsParser ChnRoute RingBuffer
begin

text \<open>
  Model of the DNS relay \<open>src/src/chinadns/chinadns.c\<close>: the table of forwarded queries, the filter that
  decides whether an answer passes, the queue of delayed answers, and the two handlers that the main
  loop calls. The record \<open>cdns\<close> holds the file's static variables. Datagrams handed to \<open>sendto\<close> are
  results. Clock readings are arguments, and so is the comparison \<open>expired\<close> of a time difference with
  the delay (the code computes it in \<open>float\<close>).
\<close>

section \<open>State\<close>

type_synonym timestamp = "int \<times> int"

record id_addr =
  ia_id :: u16
  ia_old_id :: u16
  ia_addr :: "sockaddr option"

text \<open>What a \<open>malloc\<close>ed pointer of a delay slot is: null, freed, or a live copy.\<close>

datatype 'a cell = CNull | CFreed | CLive 'a

record delay_buf =
  db_id :: u16
  db_ts :: timestamp
  db_buf :: "(bytes \<times> sockaddr) cell"   \<comment> \<open>\<open>buf\<close> and \<open>addr\<close>, allocated and freed together\<close>

record cdns =
  cd_ip_list :: "u32 list"
  cd_chnroute_file :: bool
  cd_nets :: "net_mask list"
  cd_servers :: "sockaddr option list"   \<comment> \<open>\<open>dns_server_addrs\<close>, as many slots as \<open>dns_servers_len\<close>\<close>
  cd_has_chn_dns :: nat
  cd_compression :: bool
  cd_bidirectional :: bool
  cd_queue :: "id_addr list"
  cd_pos :: nat
  cd_delay :: "delay_buf list"
  cd_first :: nat
  cd_last :: nat
  cd_buf :: bytes
  cd_cbuf :: bytes

definition BUF_SIZE :: nat where "BUF_SIZE = 512"
definition ID_ADDR_QUEUE_LEN :: nat where "ID_ADDR_QUEUE_LEN = 128"
definition DELAY_QUEUE_LEN :: nat where "DELAY_QUEUE_LEN = 128"

lemmas cdns_sizes = BUF_SIZE_def ID_ADDR_QUEUE_LEN_def DELAY_QUEUE_LEN_def

definition cdns_init :: "net_mask list \<Rightarrow> sockaddr option list \<Rightarrow> cdns" where
  "cdns_init nets servers =
     \<lparr>cd_ip_list = [], cd_chnroute_file = True, cd_nets = nets, cd_servers = servers,
      cd_has_chn_dns = 0, cd_compression = False, cd_bidirectional = False,
      cd_queue = replicate ID_ADDR_QUEUE_LEN \<lparr>ia_id = 0, ia_old_id = 0, ia_addr = None\<rparr>, cd_pos = 0,
      cd_delay = replicate DELAY_QUEUE_LEN \<lparr>db_id = 0, db_ts = (0, 0), db_buf = CNull\<rparr>,
      cd_first = 0, cd_last = 0,
      cd_buf = replicate BUF_SIZE 0, cd_cbuf = replicate BUF_SIZE 0\<rparr>"

section \<open>DNS servers\<close>

text \<open>
  \<open>resolve_dns_servers\<close> walks over the comma-separated list of servers. \<open>getaddrinfo\<close> is an argument
  that maps a host and a port to an address or to an error. A slot that no token fills stays null.
\<close>

type_synonym getaddrinfo = "string \<Rightarrow> string \<Rightarrow> sockaddr option"

fun split_at :: "char \<Rightarrow> string \<Rightarrow> string list" where
  "split_at c [] = [[]]"
| "split_at c (x # xs) =
     (if x = c then [] # split_at c xs
      else case split_at c xs of [] \<Rightarrow> [[x]] | t # ts \<Rightarrow> (x # t) # ts)"

definition strtok_all :: "string \<Rightarrow> string list" where
  \<comment> \<open>\<open>strtok\<close> skips empty tokens\<close>
  "strtok_all names = filter (\<lambda>t. t \<noteq> []) (split_at CHR '','' names)"

definition split_port :: "string \<Rightarrow> string \<times> string" where
  "split_port t =
     (if CHR '':'' \<in> set t
      then (rev (tl (dropWhile (\<lambda>c. c \<noteq> CHR '':'') (rev t))), rev (takeWhile (\<lambda>c. c \<noteq> CHR '':'') (rev t)))
      else (t, ''53''))"

definition token_buf :: "string \<Rightarrow> bytes" where
  \<comment> \<open>\<open>global_buf\<close> after \<open>memset\<close>, \<open>strncpy\<close> and \<^verbatim>\<open>*port = 0\<close>\<close>
  "token_buf token =
     (let t = take (BUF_SIZE - 1) token; b = map of_char t @ replicate (BUF_SIZE - length t) 0 in
      if CHR '':'' \<in> set t then b[length (fst (split_port t)) := 0] else b)"

fun resolve_loop :: "getaddrinfo \<Rightarrow> string list \<Rightarrow> nat \<Rightarrow> nat \<Rightarrow> cdns \<Rightarrow> nat option \<times> cdns" where
  "resolve_loop gai [] i foreign s = (Some foreign, s)"
| "resolve_loop gai (token # tokens) i foreign s =
     (let s = s\<lparr>cd_buf := token_buf token\<rparr>; (host, port) = split_port (take (BUF_SIZE - 1) token) in
      case gai host port of
        None \<Rightarrow> (None, s)
      | Some a \<Rightarrow>
          let inside = test_ip_in_list (fst a) (cd_nets s) in
          if cd_compression s then
            (if inside then
               resolve_loop gai tokens i foreign
                 (s\<lparr>cd_servers := (cd_servers s)[cd_has_chn_dns s := Some a], cd_has_chn_dns := cd_has_chn_dns s + 1\<rparr>)
             else
               resolve_loop gai tokens i (foreign + 1)
                 (s\<lparr>cd_servers := (cd_servers s)[length (cd_servers s) - (foreign + 1) := Some a]\<rparr>))
          else
            resolve_loop gai tokens (i + 1) (if cd_chnroute_file s \<and> \<not> inside then 1 else foreign)
              (s\<lparr>cd_servers := (cd_servers s)[i := Some a],
                 cd_has_chn_dns := (if cd_chnroute_file s \<and> inside then 1 else cd_has_chn_dns s)\<rparr>))"

definition resolve_dns_servers :: "getaddrinfo \<Rightarrow> string \<Rightarrow> cdns \<Rightarrow> int \<times> cdns" where
  "resolve_dns_servers gai names s =
     (let s = s\<lparr>cd_has_chn_dns := 0\<rparr> in
      if cd_compression s \<and> \<not> cd_chnroute_file s then (-1, s)
      else
        let s = s\<lparr>cd_servers := replicate (length (split_at CHR '','' names)) None\<rparr> in
        case resolve_loop gai (strtok_all names) 0 0 s of
          (None, s) \<Rightarrow> (-1, s)
        | (Some foreign, s) \<Rightarrow>
            if cd_chnroute_file s \<and> \<not> (cd_has_chn_dns s \<noteq> 0 \<and> foreign \<noteq> 0) \<and> cd_compression s then (-1, s)
            else (0, s))"

section \<open>Forwarded queries\<close>

definition queue_add :: "id_addr \<Rightarrow> cdns \<Rightarrow> cdns" where
  "queue_add e s =
     (let pos = (cd_pos s + 1) mod ID_ADDR_QUEUE_LEN in
      s\<lparr>cd_pos := pos, cd_queue := (cd_queue s)[pos := e]\<rparr>)"

definition queue_lookup :: "u16 \<Rightarrow> cdns \<Rightarrow> id_addr option" where
  "queue_lookup i s = find (\<lambda>e. ia_id e = i) (cd_queue s)"

section \<open>The filter\<close>

definition hostname_from_question :: "dn_expand \<Rightarrow> bytes \<Rightarrow> ns_msg \<Rightarrow> string option outcome" where
  "hostname_from_question dx buf msg =
     (if ns_counts msg ! ns_s_qd = 0 then Inr None
      else bind_out (local_ns_parserr dx buf ns_s_qd 0 msg) (\<lambda>r.
        Inr (case r of None \<Rightarrow> None | Some (rr, _) \<Rightarrow> Some (rr_name rr))))"

definition ns_t_a :: nat where "ns_t_a = 1"
definition ns_t_ptr :: nat where "ns_t_ptr = 12"
definition ns_t_aaaa :: nat where "ns_t_aaaa = 28"

text \<open>The loop over the answers; \<open>k\<close> are left, \<open>n\<close> is the number of the next one.\<close>

fun filter_loop :: "dn_expand \<Rightarrow> cdns \<Rightarrow> bool \<Rightarrow> bool \<Rightarrow> nat \<Rightarrow> nat \<Rightarrow> ns_msg \<Rightarrow> int option outcome" where
  "filter_loop dx s chn foreign 0 n msg = Inr None"
| "filter_loop dx s chn foreign (Suc k) n msg =
     bind_out (local_ns_parserr dx (cd_buf s) ns_s_an (int n) msg) (\<lambda>r.
     case r of
       None \<Rightarrow> Inr (Some 0)
     | Some (rr, msg) \<Rightarrow>
        (if rr_type rr = ns_t_a then
           bind_out (of_option NullDeref (rr_rdata rr)) (\<lambda>rd.
           bind_out (get_le 4 rd (cd_buf s)) (\<lambda>v.
           let ip = of_nat v in
           if \<not> cd_compression s \<and> ip \<in> set (cd_ip_list s) then Inr (Some 1)
           else if test_ip_in_list ip (cd_nets s) then
             (if foreign \<and> cd_bidirectional s then Inr (Some 1)
              else filter_loop dx s chn foreign k (n + 1) msg)
           else if chn then Inr (Some 1)
           else filter_loop dx s chn foreign k (n + 1) msg))
         else if rr_type rr = ns_t_aaaa \<or> rr_type rr = ns_t_ptr then Inr (Some 0)
         else filter_loop dx s chn foreign k (n + 1) msg))"

definition should_filter_query :: "dn_expand \<Rightarrow> cdns \<Rightarrow> ns_msg \<Rightarrow> u32 \<Rightarrow> int outcome" where
  "should_filter_query dx s msg dns_addr =
     (let look = (cd_chnroute_file s \<and> length (cd_servers s) > 1);
          chn = (look \<and> test_ip_in_list dns_addr (cd_nets s));
          foreign = (look \<and> \<not> chn);
          rrmax = ns_counts msg ! ns_s_an in
      if rrmax = 0 then
        Inr (if cd_compression s then (if chn then 1 else 0) else -1)
      else
        bind_out (filter_loop dx s chn foreign rrmax 0 msg) (\<lambda>r.
        Inr (case r of
          Some v \<Rightarrow> v
        | None \<Rightarrow> if rrmax = 1 then (if cd_compression s then 0 else -1) else 0)))"

section \<open>Delayed answers\<close>

definition free_delay :: "nat \<Rightarrow> delay_buf list \<Rightarrow> delay_buf list outcome" where
  "free_delay pos q =
     (case db_buf (q ! pos) of
        CNull \<Rightarrow> Inr q
      | CFreed \<Rightarrow> Inl UseAfterFree
      | CLive _ \<Rightarrow> Inr (q[pos := (q ! pos)\<lparr>db_buf := CFreed\<rparr>]))"

text \<open>The search of \<open>schedule_delay\<close>, over the \<open>n\<close> slots from \<open>i\<close>.\<close>

fun delay_find :: "u16 \<Rightarrow> nat \<Rightarrow> nat \<Rightarrow> delay_buf list \<Rightarrow> nat option \<Rightarrow> (nat option \<times> delay_buf list) outcome" where
  "delay_find query_id 0 i q found = Inr (found, q)"
| "delay_find query_id (Suc n) i q found =
     (if db_id (q ! i) = query_id then
        bind_out (free_delay i q) (\<lambda>q. delay_find query_id n ((i + 1) mod DELAY_QUEUE_LEN) q (Some i))
      else delay_find query_id n ((i + 1) mod DELAY_QUEUE_LEN) q found)"

definition pending_count :: "cdns \<Rightarrow> nat" where
  \<comment> \<open>the turns of \<^verbatim>\<open>for (i = first; i != last; i = (i + 1) % LEN)\<close>\<close>
  "pending_count s = (cd_last s + DELAY_QUEUE_LEN - cd_first s) mod DELAY_QUEUE_LEN"

definition schedule_delay :: "timestamp \<Rightarrow> u16 \<Rightarrow> bytes \<Rightarrow> sockaddr \<Rightarrow> cdns \<Rightarrow> cdns outcome" where
  "schedule_delay now query_id buf addr s =
     bind_out (delay_find query_id (pending_count s) (cd_first s) (cd_delay s) None) (\<lambda>(found, q).
     let pos = (case found of Some i \<Rightarrow> i | None \<Rightarrow> cd_last s);
         q = q[pos := \<lparr>db_id = query_id, db_ts = now, db_buf = CLive (buf, addr)\<rparr>] in
     if found \<noteq> None then Inr (s\<lparr>cd_delay := q\<rparr>)
     else
       let lst = (cd_last s + 1) mod DELAY_QUEUE_LEN in
       if lst = cd_first s then
         bind_out (free_delay (cd_first s) q) (\<lambda>q.
           Inr (s\<lparr>cd_delay := q, cd_last := lst, cd_first := (cd_first s + 1) mod DELAY_QUEUE_LEN\<rparr>))
       else Inr (s\<lparr>cd_delay := q, cd_last := lst\<rparr>))"

fun send_delayed ::
  "(timestamp \<Rightarrow> timestamp \<Rightarrow> bool) \<Rightarrow> timestamp \<Rightarrow> nat \<Rightarrow> cdns \<Rightarrow> (cdns \<times> (bytes \<times> sockaddr) list) outcome" where
  "send_delayed expired now 0 s = Inr (s, [])"
| "send_delayed expired now (Suc n) s =
     (let i = cd_first s; d = cd_delay s ! i in
      if expired (db_ts d) now then
        (case db_buf d of
           CLive m \<Rightarrow>
             bind_out (free_delay i (cd_delay s)) (\<lambda>q.
             bind_out (send_delayed expired now n
               (s\<lparr>cd_delay := q, cd_first := (cd_first s + 1) mod DELAY_QUEUE_LEN\<rparr>)) (\<lambda>(s, out).
               Inr (s, m # out)))
         | _ \<Rightarrow> Inl UseAfterFree)
      else Inr (s, []))"

definition check_and_send_delay ::
  "(timestamp \<Rightarrow> timestamp \<Rightarrow> bool) \<Rightarrow> timestamp \<Rightarrow> cdns \<Rightarrow> (cdns \<times> (bytes \<times> sockaddr) list) outcome" where
  "check_and_send_delay expired now s = send_delayed expired now (pending_count s) s"

section \<open>Handlers\<close>

definition be16 :: "u16 \<Rightarrow> bytes" where
  \<comment> \<open>\<^verbatim>\<open>uint16_t n = htons(x); memcpy(buf, &n, 2);\<close>\<close>
  "be16 x = [ucast (drop_bit 8 x), ucast x]"

definition new_query_id :: "timestamp \<Rightarrow> u16" where
  \<comment> \<open>\<^verbatim>\<open>(tv.tv_sec << 8) ^ tv.tv_usec\<close>, the low 16 bits\<close>
  "new_query_id tv = ucast ((push_bit 8 (of_int (fst tv)) XOR of_int (snd tv)) :: u64)"

text \<open>The \<open>do\<close> loop reads the clock until the identifier is free; the readings are given.\<close>

fun fresh_id :: "timestamp list \<Rightarrow> cdns \<Rightarrow> u16 outcome" where
  "fresh_id [] s = Inl Diverges"
| "fresh_id (tv # tvs) s =
     (if queue_lookup (new_query_id tv) s = None then Inr (new_query_id tv) else fresh_id tvs s)"

text \<open>The scan of the question name for compression pointer mutation: the offset behind its end.\<close>

function compress_scan :: "bytes \<Rightarrow> nat \<Rightarrow> nat \<Rightarrow> nat option" where
  "compress_scan buf len off =
     (if off < len - 4 then
        (if buf ! off AND 0xc0 \<noteq> 0 then None
         else if buf ! off = 0 then Some (off + 1)
         else compress_scan buf len (off + 1 + unat (buf ! off)))
      else None)"
  by pat_completeness auto
termination
  by (relation "measure (\<lambda>(buf, len, off). len - off)") auto

declare compress_scan.simps [simp del]

text \<open>\<open>sendto\<close> the same bytes to the servers of some slots; it fails on a null address.\<close>

definition send_each :: "bytes \<Rightarrow> sockaddr option list \<Rightarrow> (bytes \<times> sockaddr) list" where
  "send_each m slots = map (Pair m) (List.map_filter id slots)"

definition send_queries :: "nat \<Rightarrow> cdns \<Rightarrow> (cdns \<times> (bytes \<times> sockaddr) list) outcome" where
  "send_queries len s =
     (let q = take len (cd_buf s);
          all = send_each q (cd_servers s) in
      if cd_compression s \<and> len > 16 then
        (case compress_scan (cd_buf s) len 12 of
           None \<Rightarrow> Inr (s, all)
         | Some off \<Rightarrow>
            if len + 1 > BUF_SIZE then Inl OutOfBounds
            else
              let c = take (off - 1) (cd_buf s) @ [0xc0, 0x04] @ take (len - off) (drop off (cd_buf s));
                  n = cd_has_chn_dns s;
                  first = send_each q (take n (cd_servers s)) @ send_each c (drop n (cd_servers s)) in
              Inr (s\<lparr>cd_cbuf := overlay c (cd_cbuf s)\<rparr>,
                   if drop n (cd_servers s) = [] then first @ all else first))
      else Inr (s, all))"

definition dns_handle_local ::
  "dn_expand \<Rightarrow> timestamp list \<Rightarrow> bytes \<Rightarrow> sockaddr \<Rightarrow> cdns \<Rightarrow> (cdns \<times> (bytes \<times> sockaddr) list) outcome" where
  "dns_handle_local dx clock dgram src s =
     (let dg = take BUF_SIZE dgram; len = length dg; s = s\<lparr>cd_buf := overlay dg (cd_buf s)\<rparr> in
      if len = 0 then Inr (s, [])
      else
        bind_out (local_ns_initparse (cd_buf s) len) (\<lambda>r.
        case r of
          None \<Rightarrow> Inr (s, [])
        | Some msg \<Rightarrow>
           bind_out (hostname_from_question dx (cd_buf s) msg) (\<lambda>_.
           bind_out (fresh_id clock s) (\<lambda>new_id.
           send_queries len
             (queue_add \<lparr>ia_id = new_id, ia_old_id = of_nat (ns_id msg), ia_addr = Some src\<rparr>
               (s\<lparr>cd_buf := overlay (be16 new_id) (cd_buf s)\<rparr>))))))"

definition dns_handle_remote ::
  "dn_expand \<Rightarrow> timestamp \<Rightarrow> bytes \<Rightarrow> sockaddr \<Rightarrow> cdns \<Rightarrow> (cdns \<times> (bytes \<times> sockaddr) list) outcome" where
  "dns_handle_remote dx now dgram src s =
     (let dg = take BUF_SIZE dgram; len = length dg; s = s\<lparr>cd_buf := overlay dg (cd_buf s)\<rparr> in
      if len = 0 then Inr (s, [])
      else
        bind_out (local_ns_initparse (cd_buf s) len) (\<lambda>r.
        case r of
          None \<Rightarrow> Inr (s, [])
        | Some msg \<Rightarrow>
           bind_out (hostname_from_question dx (cd_buf s) msg) (\<lambda>_.
           let query_id = of_nat (ns_id msg) in
           case queue_lookup query_id s of
             None \<Rightarrow> Inr (s, [])
           | Some e \<Rightarrow>
              bind_out (of_option NullDeref (ia_addr e)) (\<lambda>addr.
              let s = s\<lparr>cd_buf := overlay (be16 (ia_old_id e)) (cd_buf s)\<rparr> in
              bind_out (should_filter_query dx s msg (fst src)) (\<lambda>r.
              if r = 0 then Inr (s, [(take len (cd_buf s), addr)])
              else if r = -1 then
                bind_out (schedule_delay now query_id (take len (cd_buf s)) addr s) (\<lambda>s. Inr (s, []))
              else Inr (s, []))))))"

text \<open>One turn of the main loop: the delayed answers first, then the readable sockets.\<close>

definition chinadns_turn ::
  "dn_expand \<Rightarrow> (timestamp \<Rightarrow> timestamp \<Rightarrow> bool) \<Rightarrow> timestamp \<Rightarrow> timestamp list \<Rightarrow>
   (bytes \<times> sockaddr) option \<Rightarrow> (bytes \<times> sockaddr) option \<Rightarrow> cdns \<Rightarrow> (cdns \<times> (bytes \<times> sockaddr) list) outcome" where
  "chinadns_turn dx expired now clock local remote s =
     bind_out (check_and_send_delay expired now s) (\<lambda>(s, out1).
     bind_out (case local of None \<Rightarrow> Inr (s, []) | Some (dg, src) \<Rightarrow> dns_handle_local dx clock dg src s)
       (\<lambda>(s, out2).
     bind_out (case remote of None \<Rightarrow> Inr (s, []) | Some (dg, src) \<Rightarrow> dns_handle_remote dx now dg src s)
       (\<lambda>(s, out3). Inr (s, out1 @ out2 @ out3))))"

text \<open>
  The loop \<^verbatim>\<open>while (*running)\<close>: what each turn reads from the clock and the two sockets, in order;
  the list ends when \<open>running\<close> is cleared.
\<close>

record turn_input =
  ti_now :: timestamp
  ti_clock :: "timestamp list"
  ti_local :: "(bytes \<times> sockaddr) option"
  ti_remote :: "(bytes \<times> sockaddr) option"

fun chinadns_loop ::
  "dn_expand \<Rightarrow> (timestamp \<Rightarrow> timestamp \<Rightarrow> bool) \<Rightarrow> turn_input list \<Rightarrow> cdns \<Rightarrow> (cdns \<times> (bytes \<times> sockaddr) list) outcome" where
  "chinadns_loop dx expired [] s = Inr (s, [])"
| "chinadns_loop dx expired (t # ts) s =
     bind_out (chinadns_turn dx expired (ti_now t) (ti_clock t) (ti_local t) (ti_remote t) s) (\<lambda>(s, out).
     bind_out (chinadns_loop dx expired ts s) (\<lambda>(s, outs). Inr (s, out @ outs)))"

section \<open>The table of queries\<close>

definition queue_ok :: "cdns \<Rightarrow> bool" where
  "queue_ok s \<longleftrightarrow> length (cd_queue s) = ID_ADDR_QUEUE_LEN \<and> cd_pos s < ID_ADDR_QUEUE_LEN"

lemma queue_add_ok: "queue_ok s \<Longrightarrow> queue_ok (queue_add e s)"
  by (simp add: queue_ok_def queue_add_def Let_def ID_ADDR_QUEUE_LEN_def)

lemma queue_lookup_None: "queue_lookup i s = None \<longleftrightarrow> (\<forall>e \<in> set (cd_queue s). ia_id e \<noteq> i)"
  by (auto simp: queue_lookup_def find_None_iff)

text \<open>The only entry with an identifier is found wherever it stands.\<close>

lemma queue_lookup_unique:
  assumes "k < length (cd_queue s)" "ia_id (cd_queue s ! k) = i"
    and "\<And>j. j < length (cd_queue s) \<Longrightarrow> ia_id (cd_queue s ! j) = i \<Longrightarrow> j = k"
  shows "queue_lookup i s = Some (cd_queue s ! k)"
proof -
  have "\<forall>j < k. ia_id (cd_queue s ! j) \<noteq> i"
  proof (intro allI impI notI)
    fix j assume j: "j < k" "ia_id (cd_queue s ! j) = i"
    then have "j < length (cd_queue s)" using assms(1) by simp
    from assms(3) [OF this j(2)] j(1) show False by simp
  qed
  with assms(1,2) show ?thesis unfolding queue_lookup_def find_Some_iff by blast
qed

definition queue_at :: "nat \<Rightarrow> id_addr \<Rightarrow> cdns \<Rightarrow> bool" where
  \<comment> \<open>the entry stands \<open>d\<close> positions behind the newest and is the only one with its identifier\<close>
  "queue_at d e s \<longleftrightarrow> queue_ok s \<and> d < ID_ADDR_QUEUE_LEN \<and>
     (\<exists>k. k < ID_ADDR_QUEUE_LEN \<and> cd_pos s = (k + d) mod ID_ADDR_QUEUE_LEN \<and> cd_queue s ! k = e \<and>
        (\<forall>j < ID_ADDR_QUEUE_LEN. ia_id (cd_queue s ! j) = ia_id e \<longrightarrow> j = k))"

lemma queue_at_lookup: "queue_at d e s \<Longrightarrow> queue_lookup (ia_id e) s = Some e"
proof -
  assume "queue_at d e s"
  then obtain k where "k < length (cd_queue s)" "cd_queue s ! k = e"
      "\<And>j. j < length (cd_queue s) \<Longrightarrow> ia_id (cd_queue s ! j) = ia_id e \<Longrightarrow> j = k"
    unfolding queue_at_def queue_ok_def by metis
  then show ?thesis using queue_lookup_unique [of k s "ia_id e"] by blast
qed

lemma queue_at_new:
  assumes ok: "queue_ok s" and fresh: "queue_lookup (ia_id e) s = None"
  shows "queue_at 0 e (queue_add e s)"
proof -
  let ?p = "(cd_pos s + 1) mod ID_ADDR_QUEUE_LEN"
  have p: "?p < ID_ADDR_QUEUE_LEN" "length (cd_queue s) = ID_ADDR_QUEUE_LEN"
    using ok by (simp_all add: queue_ok_def ID_ADDR_QUEUE_LEN_def)
  have "j = ?p" if "j < ID_ADDR_QUEUE_LEN" "ia_id (cd_queue (queue_add e s) ! j) = ia_id e" for j
  proof (rule ccontr)
    assume "j \<noteq> ?p"
    then have "cd_queue (queue_add e s) ! j = cd_queue s ! j" by (simp add: queue_add_def Let_def)
    moreover have "cd_queue s ! j \<in> set (cd_queue s)" using that p by simp
    ultimately show False using fresh that by (auto simp: queue_lookup_None)
  qed
  moreover have "cd_pos (queue_add e s) = (?p + 0) mod ID_ADDR_QUEUE_LEN" "cd_queue (queue_add e s) ! ?p = e"
    using p by (simp_all add: queue_add_def Let_def)
  moreover have "0 < ID_ADDR_QUEUE_LEN" by (simp add: ID_ADDR_QUEUE_LEN_def)
  ultimately show ?thesis using p(1) queue_add_ok [OF ok, of e] unfolding queue_at_def by blast
qed

lemma queue_at_add:
  assumes at: "queue_at d e s" and d: "d + 1 < ID_ADDR_QUEUE_LEN" and ne: "ia_id x \<noteq> ia_id e"
  shows "queue_at (d + 1) e (queue_add x s)"
proof -
  obtain k where k: "k < ID_ADDR_QUEUE_LEN" "cd_pos s = (k + d) mod ID_ADDR_QUEUE_LEN"
    "cd_queue s ! k = e" "\<forall>j < ID_ADDR_QUEUE_LEN. ia_id (cd_queue s ! j) = ia_id e \<longrightarrow> j = k"
    "queue_ok s" using at unfolding queue_at_def by blast
  let ?p = "(cd_pos s + 1) mod ID_ADDR_QUEUE_LEN"
  have p: "?p = (k + (d + 1)) mod ID_ADDR_QUEUE_LEN" using k(2) by (simp add: mod_simps)
  have "(k + 0) mod ID_ADDR_QUEUE_LEN \<noteq> ?p"
    unfolding p using mod_add_distinct [of 0 ID_ADDR_QUEUE_LEN "d + 1" k] d by linarith
  then have pk: "?p \<noteq> k" using k(1) by simp
  have len: "length (cd_queue s) = ID_ADDR_QUEUE_LEN" using k(5) by (simp add: queue_ok_def)
  have "\<And>j. j < ID_ADDR_QUEUE_LEN \<Longrightarrow> ia_id (cd_queue (queue_add x s) ! j) = ia_id e \<Longrightarrow> j = k"
  proof -
    fix j assume that: "j < ID_ADDR_QUEUE_LEN" "ia_id (cd_queue (queue_add x s) ! j) = ia_id e"
    show "j = k"
    proof (cases "j = ?p")
      case True
      then have "cd_queue (queue_add x s) ! j = x" using len that(1) by (simp add: queue_add_def Let_def)
      then show ?thesis using that(2) ne by simp
    next
      case False
      then have "cd_queue (queue_add x s) ! j = cd_queue s ! j" by (simp add: queue_add_def Let_def)
      then show ?thesis using that k(4) by metis
    qed
  qed
  moreover have "cd_queue (queue_add x s) ! k = e" using pk k(3) by (simp add: queue_add_def Let_def)
  moreover have "cd_pos (queue_add x s) = (k + (d + 1)) mod ID_ADDR_QUEUE_LEN"
    using p by (simp add: queue_add_def Let_def)
  ultimately show ?thesis using queue_add_ok [OF k(5), of x] k(1) d unfolding queue_at_def
    by (intro conjI exI [of _ k] allI impI) assumption+
qed

lemma queue_at_adds:
  "queue_at d e s \<Longrightarrow> d + length xs < ID_ADDR_QUEUE_LEN \<Longrightarrow> \<forall>x \<in> set xs. ia_id x \<noteq> ia_id e \<Longrightarrow>
     queue_at (d + length xs) e (fold queue_add xs s)"
proof (induction xs arbitrary: d s)
  case (Cons x xs)
  have "queue_at (d + 1) e (queue_add x s)" using Cons.prems by (intro queue_at_add) auto
  from Cons.IH [OF this] Cons.prems show ?case by simp
qed simp

section \<open>The queue of delayed answers\<close>

definition delayed :: "cdns \<Rightarrow> delay_buf list" where
  "delayed s = ring_list (cd_delay s) DELAY_QUEUE_LEN (cd_first s) (pending_count s)"

definition is_live :: "delay_buf \<Rightarrow> bool" where
  "is_live d \<longleftrightarrow> (\<exists>m. db_buf d = CLive m)"

definition delay_ok :: "cdns \<Rightarrow> bool" where
  "delay_ok s \<longleftrightarrow> length (cd_delay s) = DELAY_QUEUE_LEN \<and> cd_first s < DELAY_QUEUE_LEN \<and>
     cd_last s < DELAY_QUEUE_LEN \<and> list_all is_live (delayed s) \<and> distinct (map db_id (delayed s))"

text \<open>The specification on the list of pending answers.\<close>

definition delay_spec :: "delay_buf \<Rightarrow> delay_buf list \<Rightarrow> delay_buf list" where
  "delay_spec d ds =
     (if db_id d \<in> set (map db_id ds) then map (\<lambda>x. if db_id x = db_id d then d else x) ds
      else if length ds + 1 = DELAY_QUEUE_LEN then tl (ds @ [d]) else ds @ [d])"

lemma pending_last:
  assumes "cd_first s < DELAY_QUEUE_LEN" "cd_last s < DELAY_QUEUE_LEN"
  shows "cd_last s = (cd_first s + pending_count s) mod DELAY_QUEUE_LEN"
    and "pending_count s < DELAY_QUEUE_LEN"
proof -
  let ?L = DELAY_QUEUE_LEN
  have "(cd_first s + pending_count s) mod ?L = (cd_first s + (cd_last s + ?L - cd_first s)) mod ?L"
    by (simp add: pending_count_def mod_simps)
  also have "\<dots> = (cd_last s + ?L) mod ?L" using assms(1) by simp
  finally show "cd_last s = (cd_first s + pending_count s) mod ?L" using assms(2) by simp
  show "pending_count s < ?L" by (simp add: pending_count_def DELAY_QUEUE_LEN_def)
qed

lemma pending_count_eqI:
  assumes "cd_first s < DELAY_QUEUE_LEN" "cd_last s = (cd_first s + n) mod DELAY_QUEUE_LEN" "n < DELAY_QUEUE_LEN"
  shows "pending_count s = n"
proof -
  have "cd_last s < DELAY_QUEUE_LEN" using assms by simp
  then have "(cd_first s + pending_count s) mod DELAY_QUEUE_LEN = (cd_first s + n) mod DELAY_QUEUE_LEN"
      "pending_count s < DELAY_QUEUE_LEN"
    using pending_last [OF assms(1)] assms(2) by auto
  then show ?thesis using mod_add_distinct assms(3) by blast
qed

lemma delay_find_none:
  "\<forall>k < n. db_id (q ! ((i + k) mod DELAY_QUEUE_LEN)) \<noteq> d \<Longrightarrow> i < DELAY_QUEUE_LEN \<Longrightarrow>
     delay_find d n i q found = Inr (found, q)"
proof (induction n arbitrary: i)
  case (Suc n)
  have "db_id (q ! i) \<noteq> d" using Suc.prems by (auto dest: spec [of _ 0])
  moreover have "\<forall>k < n. db_id (q ! (((i + 1) mod DELAY_QUEUE_LEN + k) mod DELAY_QUEUE_LEN)) \<noteq> d"
  proof (intro allI impI)
    fix k assume "k < n"
    with Suc.prems(1) have "db_id (q ! ((i + Suc k) mod DELAY_QUEUE_LEN)) \<noteq> d" by blast
    then show "db_id (q ! (((i + 1) mod DELAY_QUEUE_LEN + k) mod DELAY_QUEUE_LEN)) \<noteq> d"
      by (simp add: mod_simps)
  qed
  ultimately show ?case using Suc.IH [of "(i + 1) mod DELAY_QUEUE_LEN"] by (simp add: DELAY_QUEUE_LEN_def)
qed simp

lemma delay_find_one:
  assumes "length q = DELAY_QUEUE_LEN"
  shows "k < n \<Longrightarrow> n < DELAY_QUEUE_LEN \<Longrightarrow> i < DELAY_QUEUE_LEN \<Longrightarrow> db_id (q ! ((i + k) mod DELAY_QUEUE_LEN)) = d \<Longrightarrow>
     is_live (q ! ((i + k) mod DELAY_QUEUE_LEN)) \<Longrightarrow>
     \<forall>j < n. j \<noteq> k \<longrightarrow> db_id (q ! ((i + j) mod DELAY_QUEUE_LEN)) \<noteq> d \<Longrightarrow>
     \<exists>x. delay_find d n i q found = Inr (Some ((i + k) mod DELAY_QUEUE_LEN), q[(i + k) mod DELAY_QUEUE_LEN := x])"
proof (induction n arbitrary: i k found)
  case (Suc n)
  let ?L = DELAY_QUEUE_LEN
  have shift: "((i + 1) mod ?L + j) mod ?L = (i + Suc j) mod ?L" for j by (simp add: mod_simps)
  have i1: "(i + 1) mod ?L < ?L" by (simp add: DELAY_QUEUE_LEN_def)
  show ?case
  proof (cases k)
    case 0
    then have id: "db_id (q ! i) = d" "is_live (q ! i)" using Suc.prems(3,4,5) by simp_all
    define q' where "q' = q[i := (q ! i)\<lparr>db_buf := CFreed\<rparr>]"
    have f: "free_delay i q = Inr q'" using id(2) by (auto simp: free_delay_def is_live_def q'_def)
    have "\<forall>j < n. db_id (q' ! (((i + 1) mod ?L + j) mod ?L)) \<noteq> d"
    proof (intro allI impI)
      fix j assume j: "j < n"
      have "(i + Suc j) mod ?L \<noteq> (i + 0) mod ?L"
        using mod_add_distinct [of "Suc j" ?L 0 i] j Suc.prems(2) by auto
      then have "q' ! ((i + Suc j) mod ?L) = q ! ((i + Suc j) mod ?L)"
        using Suc.prems(3) by (simp add: q'_def)
      then show "db_id (q' ! (((i + 1) mod ?L + j) mod ?L)) \<noteq> d"
        unfolding shift using Suc.prems(6) 0 j by auto
    qed
    from delay_find_none [OF this i1, of "Some i"] f id(1) show ?thesis
      using 0 Suc.prems(3) by (auto simp: q'_def)
  next
    case (Suc k')
    have "db_id (q ! i) \<noteq> d" using Suc.prems(3,6) Suc by (auto dest: spec [of _ 0])
    moreover have "\<exists>x. delay_find d n ((i + 1) mod ?L) q found =
        Inr (Some (((i + 1) mod ?L + k') mod ?L), q[((i + 1) mod ?L + k') mod ?L := x])"
    proof (rule Suc.IH)
      show "\<forall>j < n. j \<noteq> k' \<longrightarrow> db_id (q ! (((i + 1) mod ?L + j) mod ?L)) \<noteq> d"
        unfolding shift using Suc.prems(6) Suc by auto
    qed (use Suc.prems Suc i1 in \<open>auto simp: shift mod_simps\<close>)
    ultimately show ?thesis using Suc by (simp add: shift mod_simps)
  qed
qed simp

lemma delay_ring:
  assumes "delay_ok s"
  shows "ring_ok (cd_delay s) DELAY_QUEUE_LEN (cd_first s) (cd_last s) (pending_count s)"
    and "pending_count s < DELAY_QUEUE_LEN" "length (delayed s) = pending_count s"
    and "k < pending_count s \<Longrightarrow> delayed s ! k = cd_delay s ! ((cd_first s + k) mod DELAY_QUEUE_LEN)"
  using assms pending_last [of s] by (auto simp: delay_ok_def ring_ok_def delayed_def ring_list_nth)

lemma map_replace_unique:
  assumes "distinct (map f ds)" "k < length ds" "f (ds ! k) = f d"
  shows "map (\<lambda>x. if f x = f d then d else x) ds = ds[k := d]"
proof (rule nth_equalityI)
  fix i assume i: "i < length (map (\<lambda>x. if f x = f d then d else x) ds)"
  then have "f (ds ! i) = f d \<longleftrightarrow> i = k"
    using assms nth_eq_iff_index_eq [OF assms(1), of i k] by auto
  then show "map (\<lambda>x. if f x = f d then d else x) ds ! i = ds[k := d] ! i" using i by auto
qed simp

lemma schedule_replaces:
  assumes ok: "delay_ok s" and d: "d = \<lparr>db_id = i, db_ts = now, db_buf = CLive (buf, addr)\<rparr>"
    and inside: "i \<in> set (map db_id (delayed s))"
  shows "\<exists>s'. schedule_delay now i buf addr s = Inr s' \<and> delay_ok s' \<and> delayed s' = delay_spec d (delayed s)"
proof -
  let ?L = DELAY_QUEUE_LEN and ?f = "cd_first s" and ?n = "pending_count s"
  note R = delay_ring [OF ok]
  have dist: "distinct (map db_id (delayed s))" using ok by (simp add: delay_ok_def)
  obtain k where k: "k < ?n" "db_id (delayed s ! k) = i" using inside R(3) by (auto simp: in_set_conv_nth)
  let ?p = "(?f + k) mod ?L"
  have other: "\<forall>j < ?n. j \<noteq> k \<longrightarrow> db_id (cd_delay s ! ((?f + j) mod ?L)) \<noteq> i"
    using k dist R(3,4) nth_eq_iff_index_eq [OF dist] by fastforce
  have live: "is_live (cd_delay s ! ?p)" using ok k(1) R(3,4) by (simp add: delay_ok_def list_all_length)
  have len: "length (cd_delay s) = ?L" "?f < ?L" using ok by (simp_all add: delay_ok_def)
  obtain x where f: "delay_find i ?n ?f (cd_delay s) None = Inr (Some ?p, (cd_delay s)[?p := x])"
    using delay_find_one [OF len(1) k(1) R(2) len(2) _ live other] k R(4) by auto
  define s' where "s' = s\<lparr>cd_delay := (cd_delay s)[?p := d]\<rparr>"
  have sch: "schedule_delay now i buf addr s = Inr s'"
    using f d by (simp add: schedule_delay_def s'_def)
  have pc: "pending_count s' = ?n" by (simp add: pending_count_def s'_def)
  have del: "delayed s' = (delayed s)[k := d]"
    using ring_list_update_inside [OF k(1) _ len(1), of ?f d] R(2) pc by (simp add: delayed_def s'_def)
  have "db_id (delayed s ! k) = db_id d" using k d by simp
  moreover have idd: "db_id d = i" using d by simp
  ultimately have spec: "delay_spec d (delayed s) = (delayed s)[k := d]"
    using map_replace_unique [OF dist, of k d] k R(3) inside by (simp add: delay_spec_def)
  have "map db_id ((delayed s)[k := d]) = map db_id (delayed s)"
    using k idd R(3) by (metis list_update_id map_update nth_map)
  moreover have "list_all is_live ((delayed s)[k := d])"
  proof -
    have "is_live d" using d by (auto simp: is_live_def)
    then show ?thesis
      using ok set_update_subset_insert [of "delayed s" k d] by (auto simp: delay_ok_def list_all_iff)
  qed
  ultimately have "delay_ok s'" using ok del unfolding delay_ok_def by (simp add: s'_def)
  with sch del spec show ?thesis by metis
qed

lemma schedule_appends:
  assumes ok: "delay_ok s" and d: "d = \<lparr>db_id = i, db_ts = now, db_buf = CLive (buf, addr)\<rparr>"
    and outside: "i \<notin> set (map db_id (delayed s))"
  shows "\<exists>s'. schedule_delay now i buf addr s = Inr s' \<and> delay_ok s' \<and> delayed s' = delay_spec d (delayed s)"
proof -
  let ?L = DELAY_QUEUE_LEN and ?f = "cd_first s" and ?n = "pending_count s" and ?l = "cd_last s"
  note R = delay_ring [OF ok]
  have len: "length (cd_delay s) = ?L" "?f < ?L" and L: "0 < ?L"
    using ok by (simp_all add: delay_ok_def DELAY_QUEUE_LEN_def)
  have "\<forall>k < ?n. db_id (cd_delay s ! ((?f + k) mod ?L)) \<noteq> i"
    using outside R(3,4) by (metis in_set_conv_nth length_map nth_map)
  then have f: "delay_find i ?n ?f (cd_delay s) None = Inr (None, cd_delay s)"
    using len(2) by (rule delay_find_none)
  define q where "q = (cd_delay s)[?l := d]"
  have rq: "ring_ok q ?L ?f ((?l + 1) mod ?L) (Suc ?n)" "ring_list q ?L ?f (Suc ?n) = delayed s @ [d]"
    using ring_ok_snoc [OF R(1,2)] ring_list_snoc [OF R(1,2)] by (simp_all add: q_def delayed_def)
  have good: "list_all is_live (delayed s @ [d])" "distinct (map db_id (delayed s @ [d]))"
    using ok d outside by (auto simp: delay_ok_def is_live_def)
  have lst: "(?l + 1) mod ?L = (?f + Suc ?n) mod ?L" using rq(1) by (simp add: ring_ok_def)
  show ?thesis
  proof (cases "Suc ?n = ?L")
    case False
    then have n: "Suc ?n < ?L" using R(2) by simp
    have ne: "(?l + 1) mod ?L \<noteq> ?f"
      using mod_add_distinct [of "Suc ?n" ?L 0 ?f] n lst len(2) L by auto
    define s' where "s' = s\<lparr>cd_delay := q, cd_last := (?l + 1) mod ?L\<rparr>"
    have "schedule_delay now i buf addr s = Inr s'"
      using f ne d by (simp add: schedule_delay_def Let_def s'_def q_def)
    moreover have "pending_count s' = Suc ?n"
      using lst n len(2) by (intro pending_count_eqI) (simp_all add: s'_def)
    then have del: "delayed s' = delayed s @ [d]" using rq(2) by (simp add: delayed_def s'_def)
    moreover have "delay_ok s'"
      using good len L unfolding delay_ok_def del by (simp add: s'_def q_def)
    moreover have "delay_spec d (delayed s) = delayed s @ [d]"
      using outside d False R(3) by (simp add: delay_spec_def)
    ultimately show ?thesis by metis
  next
    case True
    have eq: "(?l + 1) mod ?L = ?f" using lst True len(2) by simp
    have n0: "0 < ?n" using True by (simp add: DELAY_QUEUE_LEN_def)
    have h: "ring_list q ?L ?f (Suc ?n) = q ! ?f # ring_list q ?L ((?f + 1) mod ?L) ?n"
      using rq(1) by (rule ring_list_Cons)
    have "q ! ?f = (delayed s @ [d]) ! 0" using h rq(2) by simp
    also have "is_live \<dots>" using good(1) by (simp add: list_all_length)
    finally have lv: "is_live (q ! ?f)" .
    define q' where "q' = q[?f := (q ! ?f)\<lparr>db_buf := CFreed\<rparr>]"
    have fr: "free_delay ?f q = Inr q'" using lv by (auto simp: free_delay_def is_live_def q'_def)
    define s' where "s' = s\<lparr>cd_delay := q', cd_last := ?f, cd_first := (?f + 1) mod ?L\<rparr>"
    have fe: "?f = ((?f + 1) mod ?L + ?n) mod ?L" 
    proof -
      have "((?f + 1) mod ?L + ?n) mod ?L = (?f + Suc ?n) mod ?L" by (simp add: mod_simps)
      then show ?thesis using True len(2) by simp
    qed
    have "schedule_delay now i buf addr s = Inr s'"
      using f eq fr d by (simp add: schedule_delay_def Let_def s'_def q_def)
    moreover have pc: "pending_count s' = ?n"
      using fe R(2) L by (intro pending_count_eqI) (simp_all add: s'_def)
    have "ring_list q' ?L ((?f + 1) mod ?L) ?n = ring_list q ?L ((?f + 1) mod ?L) ?n"
      unfolding q'_def by (subst (1) fe) (rule ring_list_update_outside [OF le_refl R(2)])
    then have del: "delayed s' = tl (delayed s @ [d])"
      using h rq(2) pc by (simp add: delayed_def s'_def)
    moreover have "delay_ok s'"
    proof -
      have "list_all is_live (tl (delayed s @ [d]))" "distinct (map db_id (tl (delayed s @ [d])))"
        using good by (cases "delayed s"; simp)+
      then show ?thesis using len L unfolding delay_ok_def del by (simp add: s'_def q'_def q_def)
    qed
    moreover have "delay_spec d (delayed s) = tl (delayed s @ [d])"
      using outside d True R(3) by (simp add: delay_spec_def)
    ultimately show ?thesis by metis
  qed
qed

definition message_of :: "delay_buf \<Rightarrow> bytes \<times> sockaddr" where
  "message_of d = (case db_buf d of CLive m \<Rightarrow> m | _ \<Rightarrow> ([], 0, 0))"

lemma delay_drop_first:
  assumes ok: "delay_ok s" and n: "pending_count s = Suc n"
    and s'_def: "s' = s\<lparr>cd_delay := (cd_delay s)[cd_first s := x], cd_first := (cd_first s + 1) mod DELAY_QUEUE_LEN\<rparr>"
  shows "delayed s = cd_delay s ! cd_first s # delayed s'" "delay_ok s'" "pending_count s' = n"
proof -
  let ?L = DELAY_QUEUE_LEN and ?f = "cd_first s"
  note R = delay_ring [OF ok]
  have len: "length (cd_delay s) = ?L" "?f < ?L" "cd_last s < ?L" using ok by (simp_all add: delay_ok_def)
  have tl: "ring_ok (cd_delay s) ?L ((?f + 1) mod ?L) (cd_last s) n"
    using R(1) n by (simp add: ring_ok_tl [simplified])
  then show pc: "pending_count s' = n"
    using R(2) n by (intro pending_count_eqI) (auto simp: s'_def ring_ok_def)
  have "ring_list ((cd_delay s)[?f := x]) ?L ((?f + 1) mod ?L) n = ring_list (cd_delay s) ?L ((?f + 1) mod ?L) n"
  proof -
    have "((?f + 1) mod ?L + (?L - 1)) mod ?L = (?f + 1 + (?L - 1)) mod ?L" by (rule mod_add_left_eq)
    then have "?f = ((?f + 1) mod ?L + (?L - 1)) mod ?L" using len(2) by simp
    then show ?thesis
      using ring_list_update_outside [of n "?L - 1" ?L "cd_delay s" "(?f + 1) mod ?L" x] R(2) n by simp
  qed
  moreover have "delayed s = cd_delay s ! ?f # ring_list (cd_delay s) ?L ((?f + 1) mod ?L) n"
    using ring_list_Cons R(1) n unfolding delayed_def by metis
  ultimately show c: "delayed s = cd_delay s ! ?f # delayed s'"
    using pc by (simp add: delayed_def s'_def)
  then have "list_all is_live (delayed s')" "distinct (map db_id (delayed s'))"
    using ok by (simp_all add: delay_ok_def)
  then show "delay_ok s'" using len tl unfolding delay_ok_def by (simp add: s'_def ring_ok_def)
qed

lemma send_delayed_ok:
  "delay_ok s \<Longrightarrow> pending_count s = n \<Longrightarrow>
   \<exists>s'. send_delayed expired now n s =
       Inr (s', map message_of (takeWhile (\<lambda>d. expired (db_ts d) now) (delayed s))) \<and>
     delay_ok s' \<and> delayed s' = dropWhile (\<lambda>d. expired (db_ts d) now) (delayed s)"
proof (induction n arbitrary: s)
  case 0
  then have "delayed s = []" using delay_ring(3) by fastforce
  then show ?case using 0 by simp
next
  case (Suc n)
  let ?d = "cd_delay s ! cd_first s"
  obtain ds where "delayed s = ?d # ds" using delay_drop_first(1) [OF Suc.prems refl] by blast
  then have lv: "is_live ?d" using Suc.prems(1) by (simp add: delay_ok_def)
  then obtain m where m: "db_buf ?d = CLive m" by (auto simp: is_live_def)
  define s1 where "s1 = s\<lparr>cd_delay := (cd_delay s)[cd_first s := ?d\<lparr>db_buf := CFreed\<rparr>],
      cd_first := (cd_first s + 1) mod DELAY_QUEUE_LEN\<rparr>"
  note D = delay_drop_first [OF Suc.prems s1_def]
  show ?case
  proof (cases "expired (db_ts ?d) now")
    case False
    then show ?thesis using D(1) Suc.prems by (simp add: Let_def)
  next
    case True
    obtain s' where s': "send_delayed expired now n s1 =
       Inr (s', map message_of (takeWhile (\<lambda>d. expired (db_ts d) now) (delayed s1)))" "delay_ok s'"
       "delayed s' = dropWhile (\<lambda>d. expired (db_ts d) now) (delayed s1)"
      using Suc.IH [OF D(2,3)] by blast
    have "message_of ?d = m" using m by (simp add: message_of_def)
    moreover have "free_delay (cd_first s) (cd_delay s) = Inr ((cd_delay s)[cd_first s := ?d\<lparr>db_buf := CFreed\<rparr>])"
      using m by (simp add: free_delay_def)
    ultimately show ?thesis using True m s' D(1) by (simp add: Let_def s1_def)
  qed
qed

lemma schedule_delay_ok:
  assumes "delay_ok s"
  shows "\<exists>s'. schedule_delay now i buf addr s = Inr s' \<and> delay_ok s' \<and>
     delayed s' = delay_spec \<lparr>db_id = i, db_ts = now, db_buf = CLive (buf, addr)\<rparr> (delayed s)"
  using schedule_replaces [OF assms refl, of i] schedule_appends [OF assms refl, of i] by blast

section \<open>Properties of the two queues\<close>

lemma cdns_init_delay: "delay_ok (cdns_init nets servers)" "delayed (cdns_init nets servers) = []"
  by (simp_all add: delay_ok_def delayed_def pending_count_def cdns_init_def DELAY_QUEUE_LEN_def)

text \<open>
  C31: Delaying an answer. In a well-formed queue \<open>schedule_delay\<close> never frees a pointer twice, keeps the
  queue well formed, and acts on the pending answers as specified: an answer to the same query is
  replaced in place, otherwise the new one goes to the end, and when 127 are pending already the
  oldest is dropped.
\<close>

theorem schedule_delay_refines:
  assumes "delay_ok s"
  shows "\<exists>s'. schedule_delay now i buf addr s = Inr s' \<and> delay_ok s' \<and>
     delayed s' = delay_spec \<lparr>db_id = i, db_ts = now, db_buf = CLive (buf, addr)\<rparr> (delayed s)"
  using assms by (rule schedule_delay_ok)

theorem schedule_delay_refines_witness:
  "\<exists>s'. schedule_delay (7, 0) 5 [1, 2] (9, 53) (cdns_init [] []) = Inr s' \<and>
     delayed s' = [\<lparr>db_id = 5, db_ts = (7, 0), db_buf = CLive ([1, 2], (9, 53))\<rparr>]"
  using schedule_delay_refines [OF cdns_init_delay(1), of "(7, 0)" 5 "[1, 2]" "(9, 53)" "[]" "[]"]
  by (auto simp: cdns_init_delay(2) delay_spec_def DELAY_QUEUE_LEN_def)

text \<open>
  C32: Releasing delayed answers. \<open>check_and_send_delay\<close> sends exactly the answers at the front of the
  queue that have expired, in the order in which they wait, each with the bytes and the client it was
  stored with; it frees each of them once, and the others stay pending in order.
\<close>

theorem check_and_send_delay_refines:
  assumes "delay_ok s"
  shows "\<exists>s'. check_and_send_delay expired now s =
       Inr (s', map message_of (takeWhile (\<lambda>d. expired (db_ts d) now) (delayed s))) \<and>
     delay_ok s' \<and> delayed s' = dropWhile (\<lambda>d. expired (db_ts d) now) (delayed s)"
  using send_delayed_ok [OF assms refl, of expired now] by (simp add: check_and_send_delay_def)

theorem check_and_send_delay_refines_witness:
  "\<exists>s s'. schedule_delay (7, 0) 5 [1, 2] (9, 53) (cdns_init [] []) = Inr s \<and>
     check_and_send_delay (\<lambda>t now. fst t < fst now) (8, 0) s = Inr (s', [([1, 2], (9, 53))])"
proof -
  obtain s where s: "schedule_delay (7, 0) 5 [1, 2] (9, 53) (cdns_init [] []) = Inr s" "delay_ok s"
      "delayed s = [\<lparr>db_id = 5, db_ts = (7, 0), db_buf = CLive ([1, 2], (9, 53))\<rparr>]"
    using schedule_delay_ok [OF cdns_init_delay(1), of "(7, 0)" 5 "[1, 2]" "(9, 53)" "[]" "[]"]
    by (auto simp: cdns_init_delay(2) delay_spec_def DELAY_QUEUE_LEN_def)
  then show ?thesis
    using check_and_send_delay_refines [OF s(2), of "\<lambda>t now. fst t < fst now" "(8, 0)"]
    by (auto simp: message_of_def)
qed

section \<open>The order of the servers\<close>

definition lookup_token :: "getaddrinfo \<Rightarrow> string \<Rightarrow> sockaddr option" where
  "lookup_token gai t = (case split_port (take (BUF_SIZE - 1) t) of (host, port) \<Rightarrow> gai host port)"

abbreviation is_chn :: "net_mask list \<Rightarrow> sockaddr \<Rightarrow> bool" where
  "is_chn nets a \<equiv> test_ip_in_list (fst a) nets"

lemma slot_fill_front:
  "length C = n \<Longrightarrow> (C @ replicate (Suc k) None @ F)[n := Some a] = (C @ [Some a]) @ replicate k None @ F"
  by (simp add: list_update_append)

lemma slot_fill_back:
  "(C @ replicate (Suc k) None @ F)[length C + Suc k + length F - (length F + 1) := Some a] = C @ replicate k None @ Some a # F"
proof -
  have "(C @ replicate (Suc k) None @ F) = (C @ replicate k None) @ None # F" by (simp add: replicate_append_same)
  then show ?thesis by (simp add: list_update_append)
qed

lemma resolve_loop_split:
  assumes "map (lookup_token gai) tokens = map Some addrs"
  shows "cd_compression s \<Longrightarrow> cd_servers s = map Some C @ replicate k None @ map Some F \<Longrightarrow>
     cd_has_chn_dns s = length C \<Longrightarrow> length tokens \<le> k \<Longrightarrow>
     \<exists>b. resolve_loop gai tokens i (length F) s =
       (Some (length F + length (filter (\<lambda>a. \<not> is_chn (cd_nets s) a) addrs)),
        s\<lparr>cd_servers := map Some (C @ filter (is_chn (cd_nets s)) addrs) @ replicate (k - length tokens) None @
             map Some (rev (filter (\<lambda>a. \<not> is_chn (cd_nets s) a) addrs) @ F),
           cd_has_chn_dns := length C + length (filter (is_chn (cd_nets s)) addrs), cd_buf := b\<rparr>)"
  using assms
proof (induction tokens arbitrary: addrs C F k s i)
  case Nil
  then show ?case by (intro exI [of _ "cd_buf s"]) simp
next
  case (Cons t tokens)
  obtain a as where a: "addrs = a # as" "lookup_token gai t = Some a" "map (lookup_token gai) tokens = map Some as"
    using Cons.prems(5) by (cases addrs) auto
  obtain j where j: "k = Suc j" using Cons.prems(4) by (cases k) auto
  obtain host port where hp: "split_port (take (BUF_SIZE - 1) t) = (host, port)" by fastforce
  then have g: "gai host port = Some a" using a(2) by (simp add: lookup_token_def)
  show ?case
  proof (cases "is_chn (cd_nets s) a")
    case True
    define s1 where "s1 = s\<lparr>cd_buf := token_buf t, cd_servers := map Some (C @ [a]) @ replicate j None @ map Some F,
      cd_has_chn_dns := length C + 1\<rparr>"
    have "resolve_loop gai (t # tokens) i (length F) s = resolve_loop gai tokens i (length F) s1"
      using Cons.prems j hp g True slot_fill_front [of "map Some C" "length C" j "map Some F" a] by (simp add: s1_def)
    moreover have "cd_compression s1" "cd_servers s1 = map Some (C @ [a]) @ replicate j None @ map Some F"
      "cd_has_chn_dns s1 = length (C @ [a])" "length tokens \<le> j"
      using Cons.prems j by (simp_all add: s1_def)
    note Cons.IH [OF this a(3), of i]
    ultimately show ?thesis using True a(1) j by (auto simp: s1_def)
  next
    case False
    define s1 where "s1 = s\<lparr>cd_buf := token_buf t, cd_servers := map Some C @ replicate j None @ map Some (a # F)\<rparr>"
    have "resolve_loop gai (t # tokens) i (length F) s = resolve_loop gai tokens i (length (a # F)) s1"
      using Cons.prems j hp g False slot_fill_back [of "map Some C" j "map Some F" a] by (simp add: s1_def)
    moreover have "cd_compression s1" "cd_servers s1 = map Some C @ replicate j None @ map Some (a # F)"
      "cd_has_chn_dns s1 = length C" "length tokens \<le> j"
      using Cons.prems j by (simp_all add: s1_def)
    note Cons.IH [OF this a(3), of i]
    ultimately show ?thesis using False a(1) j by (auto simp: s1_def)
  qed
qed

text \<open>
  Order of the servers for compression pointer mutation. When every name of the list is non-empty
  and resolves, \<open>resolve_dns_servers\<close> fills every slot: first the servers inside the Chinese
  networks, in order, \<open>has_chn_dns\<close> of them, then the others. So the mutated query, sent to the slots
  from \<open>has_chn_dns\<close> on, goes to foreign servers only. It reports success exactly when there
  are servers of both kinds.
\<close>

lemma resolve_dns_servers_split:
  assumes "cd_compression s" "cd_chnroute_file s" "[] \<notin> set (split_at CHR '','' names)"
    and "map (lookup_token gai) (split_at CHR '','' names) = map Some addrs"
  shows "\<exists>b. resolve_dns_servers gai names s =
     (if list_ex (is_chn (cd_nets s)) addrs \<and> \<not> list_all (is_chn (cd_nets s)) addrs then 0 else -1,
      s\<lparr>cd_servers := map Some (filter (is_chn (cd_nets s)) addrs @ rev (filter (\<lambda>a. \<not> is_chn (cd_nets s) a) addrs)),
         cd_has_chn_dns := length (filter (is_chn (cd_nets s)) addrs), cd_buf := b\<rparr>)"
proof -
  let ?t = "split_at CHR '','' names"
  define s1 where "s1 = s\<lparr>cd_has_chn_dns := 0, cd_servers := replicate (length ?t) None\<rparr>"
  have tok: "strtok_all names = ?t" using assms(3) by (auto simp: strtok_all_def filter_id_conv)
  have s1: "cd_compression s1" "cd_chnroute_file s1" "cd_nets s1 = cd_nets s" using assms(1,2) by (simp_all add: s1_def)
  obtain b where b: "resolve_loop gai ?t 0 0 s1 =
       (Some (length (filter (\<lambda>a. \<not> is_chn (cd_nets s) a) addrs)),
        s1\<lparr>cd_servers := map Some (filter (is_chn (cd_nets s)) addrs @ rev (filter (\<lambda>a. \<not> is_chn (cd_nets s) a) addrs)),
           cd_has_chn_dns := length (filter (is_chn (cd_nets s)) addrs), cd_buf := b\<rparr>)"
    using resolve_loop_split [OF assms(4) s1(1), of "[]" "length ?t" "[]" 0] s1(3) by (auto simp: s1_def)
  have "list_ex (is_chn (cd_nets s)) addrs \<longleftrightarrow> filter (is_chn (cd_nets s)) addrs \<noteq> []"
    "list_all (is_chn (cd_nets s)) addrs \<longleftrightarrow> filter (\<lambda>a. \<not> is_chn (cd_nets s) a) addrs = []"
    by (auto simp: list_ex_iff list_all_iff filter_empty_conv)
  then show ?thesis
    using b s1 assms(1,2) unfolding resolve_dns_servers_def tok Let_def
    by (intro exI [of _ b]) (simp add: s1_def)
qed

lemma resolve_dns_servers_split_witness:
  "\<exists>s. resolve_dns_servers (\<lambda>host port. Some (if host = ''a'' then 7 else 0x0100000a, 53)) ''a,b''
       ((cdns_init [] [])\<lparr>cd_compression := True\<rparr>) = (-1, s) \<and>
     cd_servers s = [Some (0x0100000a, 53), Some (7, 53)]"
proof -
  let ?gai = "\<lambda>host port. Some (if host = ''a'' then 7 else 0x0100000a, 53) :: sockaddr option"
  have t: "split_at CHR '','' ''a,b'' = [''a'', ''b'']" by simp
  have "map (lookup_token ?gai) (split_at CHR '','' ''a,b'') = map Some [(7, 53), (0x0100000a, 53)]"
    by (simp add: t lookup_token_def split_port_def BUF_SIZE_def)
  moreover have "\<not> test_ip_in_list ip []" for ip by (simp add: test_ip_in_list_def)
  ultimately show ?thesis
    using resolve_dns_servers_split [of "(cdns_init [] [])\<lparr>cd_compression := True\<rparr>" "''a,b''" ?gai "[(7, 53), (0x0100000a, 53)]"]
    by (auto simp: t cdns_init_def)
qed

end
