(* ===== verification/DnsRelay.thy ===== *)
theory DnsRelay
  imports ChinaDns
begin

text \<open>
  What the handlers of \<open>src/src/chinadns/chinadns.c\<close> do together: the invariant of the relay's state,
  the safety of both handlers, and the way of an answer back to the client that asked.
\<close>

section \<open>Frames\<close>

definition same_table :: "cdns \<Rightarrow> cdns \<Rightarrow> bool" where
  "same_table s s' \<longleftrightarrow> cd_queue s' = cd_queue s \<and> cd_pos s' = cd_pos s"

definition same_delay :: "cdns \<Rightarrow> cdns \<Rightarrow> bool" where
  "same_delay s s' \<longleftrightarrow> cd_delay s' = cd_delay s \<and> cd_first s' = cd_first s \<and> cd_last s' = cd_last s"

definition same_config :: "cdns \<Rightarrow> cdns \<Rightarrow> bool" where
  "same_config s s' \<longleftrightarrow> cd_servers s' = cd_servers s \<and> cd_nets s' = cd_nets s \<and> cd_ip_list s' = cd_ip_list s \<and>
     cd_compression s' = cd_compression s \<and> cd_has_chn_dns s' = cd_has_chn_dns s"

lemmas same_defs = same_table_def same_delay_def same_config_def

lemma same_table_queue_at: "same_table s s' \<Longrightarrow> queue_at d e s' = queue_at d e s"
  by (simp add: same_table_def queue_at_def queue_ok_def)

lemma same_table_lookup: "same_table s s' \<Longrightarrow> queue_lookup i s' = queue_lookup i s"
  by (simp add: same_table_def queue_lookup_def)

lemma same_delay_delayed:
  assumes "same_delay s s'"
  shows "delayed s' = delayed s" "delay_ok s' = delay_ok s"
  using assms by (simp_all add: same_delay_def delay_ok_def delayed_def pending_count_def)

lemma schedule_delay_frame:
  assumes "schedule_delay now i buf addr s = Inr s'"
  shows "same_table s s' \<and> same_config s s' \<and> cd_buf s' = cd_buf s"
proof -
  obtain found q where "delay_find i (pending_count s) (cd_first s) (cd_delay s) None = Inr (found, q)"
    using assms by (auto simp: schedule_delay_def bind_out_eq_Inr_iff)
  then show ?thesis using assms
    by (cases found)
      (auto simp: schedule_delay_def Let_def same_defs bind_out_eq_Inr_iff split: if_split_asm)
qed

lemma send_delayed_frame:
  "send_delayed expired now n s = Inr (s', out) \<Longrightarrow> same_table s s' \<and> same_config s s' \<and> cd_buf s' = cd_buf s"
proof (induction n arbitrary: s out)
  case (Suc n)
  show ?case
  proof (cases "expired (db_ts (cd_delay s ! cd_first s)) now")
    case True
    with Suc.prems obtain q out' where
      "send_delayed expired now n (s\<lparr>cd_delay := q, cd_first := (cd_first s + 1) mod DELAY_QUEUE_LEN\<rparr>) = Inr (s', out')"
      by (auto simp: Let_def bind_out_eq_Inr_iff split: cell.splits)
    from Suc.IH [OF this] show ?thesis by (simp add: same_defs)
  qed (use Suc.prems in \<open>simp add: Let_def same_defs\<close>)
qed (simp add: same_defs)

lemma send_queries_frame:
  assumes "send_queries len s = Inr (s', out)"
  shows "same_table s s' \<and> same_config s s' \<and> same_delay s s' \<and> cd_buf s' = cd_buf s"
  using assms by (auto simp: send_queries_def Let_def same_defs split: if_splits option.splits)

section \<open>What the handlers do to the table\<close>

definition adds_entry :: "cdns \<Rightarrow> cdns \<Rightarrow> bool" where
  "adds_entry s s' \<longleftrightarrow> (\<exists>e. queue_lookup (ia_id e) s = None \<and> ia_addr e \<noteq> None \<and> same_table (queue_add e s) s')"

lemma fresh_id_fresh: "fresh_id clock s = Inr i \<Longrightarrow> queue_lookup i s = None"
  by (induction clock) (auto split: if_splits)

lemma fresh_id_cong: "same_table s s' \<Longrightarrow> fresh_id clock s' = fresh_id clock s"
  by (induction clock) (simp_all add: same_table_lookup)

text \<open>The state in which a handler has read its datagram, and the one in which it has stored an identifier.\<close>

definition received :: "bytes \<Rightarrow> cdns \<Rightarrow> cdns" where
  "received dg s = s\<lparr>cd_buf := overlay (take BUF_SIZE dg) (cd_buf s)\<rparr>"

definition with_id :: "u16 \<Rightarrow> cdns \<Rightarrow> cdns" where
  "with_id i s = s\<lparr>cd_buf := overlay (be16 i) (cd_buf s)\<rparr>"

lemma received_same [simp]: "same_table s (received dg s)" "same_delay s (received dg s)" "same_config s (received dg s)"
  by (simp_all add: received_def same_defs)

lemma with_id_same [simp]: "same_table s (with_id i s)" "same_delay s (with_id i s)" "same_config s (with_id i s)"
  by (simp_all add: with_id_def same_defs)

definition query_entry :: "u16 \<Rightarrow> ns_msg \<Rightarrow> sockaddr \<Rightarrow> id_addr" where
  "query_entry i msg src = \<lparr>ia_id = i, ia_old_id = of_nat (ns_id msg), ia_addr = Some src\<rparr>"

lemma dns_handle_local_alt:
  "dns_handle_local dx clock dg src s =
     (let len = length (take BUF_SIZE dg); r = received dg s in
      if len = 0 then Inr (r, [])
      else bind_out (local_ns_initparse (cd_buf r) len) (\<lambda>m. case m of
          None \<Rightarrow> Inr (r, [])
        | Some msg \<Rightarrow> bind_out (hostname_from_question dx (cd_buf r) msg) (\<lambda>_.
            bind_out (fresh_id clock r) (\<lambda>i. send_queries len (queue_add (query_entry i msg src) (with_id i r))))))"
  unfolding dns_handle_local_def Let_def received_def with_id_def query_entry_def by (rule refl)

lemma dns_handle_local_cases:
  assumes "dns_handle_local dx clock dg src s = Inr (s', out)"
  obtains (ignored) "s' = received dg s" "out = []"
  | (accepted) msg i where "local_ns_initparse (cd_buf (received dg s)) (length (take BUF_SIZE dg)) = Inr (Some msg)"
      "fresh_id clock (received dg s) = Inr i" "take BUF_SIZE dg \<noteq> []"
      "send_queries (length (take BUF_SIZE dg)) (queue_add (query_entry i msg src) (with_id i (received dg s))) = Inr (s', out)"
proof (cases "length (take BUF_SIZE dg) = 0")
  case True
  then show ?thesis using assms ignored by (simp add: dns_handle_local_alt Let_def del: length_take)
next
  case False
  with assms obtain m where m: "local_ns_initparse (cd_buf (received dg s)) (length (take BUF_SIZE dg)) = Inr m"
      "(case m of None \<Rightarrow> Inr (received dg s, [])
        | Some msg \<Rightarrow> bind_out (hostname_from_question dx (cd_buf (received dg s)) msg) (\<lambda>_.
            bind_out (fresh_id clock (received dg s)) (\<lambda>i. send_queries (length (take BUF_SIZE dg))
              (queue_add (query_entry i msg src) (with_id i (received dg s)))))) = Inr (s', out)"
    unfolding dns_handle_local_alt Let_def by (simp only: if_False bind_out_eq_Inr_iff) blast
  show ?thesis
  proof (cases m)
    case None
    then show ?thesis using m(2) ignored by simp
  next
    case (Some msg)
    then show ?thesis using m False accepted
      by (simp only: option.case bind_out_eq_Inr_iff length_0_conv) blast
  qed
qed

text \<open>The end of \<open>dns_handle_remote\<close>, once the query of the answer is known.\<close>

definition remote_verdict ::
  "dn_expand \<Rightarrow> timestamp \<Rightarrow> nat \<Rightarrow> sockaddr \<Rightarrow> ns_msg \<Rightarrow> sockaddr \<Rightarrow> cdns \<Rightarrow> (cdns \<times> (bytes \<times> sockaddr) list) outcome" where
  "remote_verdict dx now len src msg addr w =
     bind_out (should_filter_query dx w msg (fst src)) (\<lambda>v.
       if v = 0 then Inr (w, [(take len (cd_buf w), addr)])
       else if v = -1 then
         bind_out (schedule_delay now (of_nat (ns_id msg)) (take len (cd_buf w)) addr w) (\<lambda>s. Inr (s, []))
       else Inr (w, []))"

lemma dns_handle_remote_alt:
  "dns_handle_remote dx now dg src s =
     (let len = length (take BUF_SIZE dg); r = received dg s in
      if len = 0 then Inr (r, [])
      else bind_out (local_ns_initparse (cd_buf r) len) (\<lambda>m. case m of
          None \<Rightarrow> Inr (r, [])
        | Some msg \<Rightarrow> bind_out (hostname_from_question dx (cd_buf r) msg) (\<lambda>_.
            case queue_lookup (of_nat (ns_id msg)) r of
              None \<Rightarrow> Inr (r, [])
            | Some e \<Rightarrow> bind_out (of_option NullDeref (ia_addr e)) (\<lambda>addr.
                remote_verdict dx now len src msg addr (with_id (ia_old_id e) r)))))"
  unfolding dns_handle_remote_def remote_verdict_def Let_def received_def with_id_def by (rule refl)

lemma dns_handle_remote_cases:
  assumes "dns_handle_remote dx now dg src s = Inr (s', out)"
  obtains (ignored) "s' = received dg s" "out = []"
  | (dropped) i where "s' = with_id i (received dg s)"
  | (scheduled) i j buf addr where "schedule_delay now j buf addr (with_id i (received dg s)) = Inr s'" "out = []"
proof (cases "length (take BUF_SIZE dg) = 0")
  case True
  then show ?thesis using assms ignored by (simp add: dns_handle_remote_alt Let_def del: length_take)
next
  case False
  let ?r = "received dg s"
  from False assms obtain m where m: "(case m of None \<Rightarrow> Inr (?r, [])
        | Some msg \<Rightarrow> bind_out (hostname_from_question dx (cd_buf ?r) msg) (\<lambda>_.
            case queue_lookup (of_nat (ns_id msg)) ?r of
              None \<Rightarrow> Inr (?r, [])
            | Some e \<Rightarrow> bind_out (of_option NullDeref (ia_addr e)) (\<lambda>addr.
                remote_verdict dx now (length (take BUF_SIZE dg)) src msg addr (with_id (ia_old_id e) ?r)))) = Inr (s', out)"
    unfolding dns_handle_remote_alt Let_def by (simp only: if_False bind_out_eq_Inr_iff) blast
  show ?thesis
  proof (cases "\<exists>msg e. m = Some msg \<and> queue_lookup (of_nat (ns_id msg)) ?r = Some e")
    case False
    then show ?thesis using m ignored by (auto simp: bind_out_eq_Inr_iff split: option.splits)
  next
    case True
    then obtain e msg where me: "m = Some msg" "queue_lookup (of_nat (ns_id msg)) ?r = Some e" by blast
    obtain addr where
      "remote_verdict dx now (length (take BUF_SIZE dg)) src msg addr (with_id (ia_old_id e) ?r) = Inr (s', out)"
      using m unfolding me by (simp only: option.case me(2) bind_out_eq_Inr_iff) blast
    then show ?thesis using dropped [of "ia_old_id e"] scheduled [of _ _ addr "ia_old_id e"] unfolding remote_verdict_def
      by (auto simp: bind_out_eq_Inr_iff split: if_splits)
  qed
qed

lemma same_table_trans: "same_table a b \<Longrightarrow> same_table b c \<Longrightarrow> same_table a c"
  by (simp add: same_table_def)

lemma same_config_trans: "same_config a b \<Longrightarrow> same_config b c \<Longrightarrow> same_config a c"
  by (simp add: same_config_def)

lemma same_table_add: "same_table s r \<Longrightarrow> same_table (queue_add e s) (queue_add e r)"
  by (simp add: same_table_def queue_add_def Let_def)

lemma local_table:
  assumes "dns_handle_local dx clock dg src s = Inr (s', out)"
  shows "(same_table s s' \<or> adds_entry s s') \<and> same_delay s s' \<and> same_config s s'"
  using assms
proof (cases rule: dns_handle_local_cases)
  case ignored
  then show ?thesis by simp
next
  case (accepted msg i)
  let ?r = "received dg s"
  have f: "queue_lookup i s = None"
    using fresh_id_fresh [OF accepted(2)] same_table_lookup [of s ?r] by simp
  note fr = send_queries_frame [OF accepted(4)]
  have "same_table (queue_add (query_entry i msg src) s) (queue_add (query_entry i msg src) (with_id i ?r))"
    by (rule same_table_add) (metis same_table_trans received_same(1) with_id_same(1))
  with fr have "same_table (queue_add (query_entry i msg src) s) s'" by (metis same_table_trans)
  then have "adds_entry s s'"
    using f unfolding adds_entry_def by (metis query_entry_def id_addr.simps(1,3) option.simps(3))
  then show ?thesis
    using fr by (simp add: same_delay_def same_config_def queue_add_def Let_def received_def with_id_def)
qed

lemma remote_table:
  assumes "dns_handle_remote dx now dg src s = Inr (s', out)"
  shows "same_table s s' \<and> same_config s s'"
  using assms
proof (cases rule: dns_handle_remote_cases)
  case (scheduled i j buf addr)
  from schedule_delay_frame [OF scheduled(1)] show ?thesis
    by (simp add: same_defs with_id_def received_def)
qed (simp_all add: same_defs with_id_def received_def)

lemma adds_entry_queue_at:
  assumes "adds_entry s s'" "queue_at d e s" "d + 1 < ID_ADDR_QUEUE_LEN"
  shows "queue_at (d + 1) e s'"
proof -
  obtain x where x: "queue_lookup (ia_id x) s = None" "same_table (queue_add x s) s'"
    using assms(1) unfolding adds_entry_def by blast
  then have "ia_id x \<noteq> ia_id e" using queue_at_lookup [OF assms(2)] by auto
  with queue_at_add [OF assms(2,3)] x(2) show ?thesis by (simp add: same_table_queue_at)
qed

lemma turn_queue_at:
  assumes t: "chinadns_turn dx expired now clock local remote s = Inr (s', out)"
    and at: "queue_at d e s" and d: "d + (if local = None then 0 else 1) < ID_ADDR_QUEUE_LEN"
  shows "\<exists>d'. d' \<le> d + (if local = None then 0 else 1) \<and> queue_at d' e s' \<and> same_config s s'"
proof -
  obtain s1 o1 s2 o2 o3 where s1: "check_and_send_delay expired now s = Inr (s1, o1)"
    and s2: "(case local of None \<Rightarrow> Inr (s1, []) | Some (dg, src) \<Rightarrow> dns_handle_local dx clock dg src s1) = Inr (s2, o2)"
    and s3: "(case remote of None \<Rightarrow> Inr (s2, []) | Some (dg, src) \<Rightarrow> dns_handle_remote dx now dg src s2) = Inr (s', o3)"
    using t unfolding chinadns_turn_def by (auto simp: bind_out_eq_Inr_iff)
  have a1: "queue_at d e s1" "same_config s s1"
    using at send_delayed_frame s1 unfolding check_and_send_delay_def by (metis same_table_queue_at)+
  have a2: "\<exists>d'. d' \<le> d + (if local = None then 0 else 1) \<and> queue_at d' e s2 \<and> same_config s1 s2"
  proof (cases "local")
    case None
    then show ?thesis using s2 a1(1) by (auto simp: same_config_def)
  next
    case (Some l)
    then have "dns_handle_local dx clock (fst l) (snd l) s1 = Inr (s2, o2)" using s2 by (simp split: prod.splits)
    note lt = local_table [OF this]
    have "queue_at d e s2 \<or> queue_at (d + 1) e s2"
      using lt adds_entry_queue_at [OF _ a1(1)] same_table_queue_at a1(1) d Some by auto
    then show ?thesis
    proof
      assume "queue_at d e s2"
      then show ?thesis using lt by (intro exI [of _ d]) simp
    next
      assume "queue_at (d + 1) e s2"
      then show ?thesis using lt Some by (intro exI [of _ "d + 1"]) simp
    qed
  qed
  have "same_table s2 s' \<and> same_config s2 s'"
    using s3 remote_table by (cases remote) (auto simp: same_defs split: prod.splits)
  then show ?thesis using a1(2) a2 same_table_queue_at [of s2 s'] same_config_trans by blast
qed

definition has_query :: "turn_input \<Rightarrow> bool" where
  "has_query t \<longleftrightarrow> ti_local t \<noteq> None"

lemma loop_queue_at:
  "chinadns_loop dx expired ts s = Inr (s', out) \<Longrightarrow> queue_at d e s \<Longrightarrow>
   d + length (filter has_query ts) < ID_ADDR_QUEUE_LEN \<Longrightarrow>
   \<exists>d'. queue_at d' e s' \<and> same_config s s'"
proof (induction ts arbitrary: s d out)
  case Nil
  then show ?case by (auto simp: same_config_def)
next
  case (Cons t ts)
  let ?n = "if ti_local t = None then 0 else 1 :: nat"
  obtain s1 o1 o2 where s1: "chinadns_turn dx expired (ti_now t) (ti_clock t) (ti_local t) (ti_remote t) s = Inr (s1, o1)"
    and s2: "chinadns_loop dx expired ts s1 = Inr (s', o2)"
    using Cons.prems(1) by (auto simp: bind_out_eq_Inr_iff)
  obtain d1 where d1: "d1 \<le> d + ?n" "queue_at d1 e s1" "same_config s s1"
    using turn_queue_at [OF s1 Cons.prems(2)] Cons.prems(3) unfolding filter.simps has_query_def
    by (cases "ti_local t = None") (simp_all, blast+)
  have "d1 + length (filter has_query ts) < ID_ADDR_QUEUE_LEN"
    using d1(1) Cons.prems(3) has_query_def [of t] by (cases "ti_local t = None") simp_all
  from Cons.IH [OF s2 d1(2) this] d1(3) same_config_trans show ?case by metis
qed

section \<open>The invariant\<close>

definition cdns_ok :: "cdns \<Rightarrow> bool" where
  "cdns_ok s \<longleftrightarrow> queue_ok s \<and> delay_ok s \<and> length (cd_buf s) = BUF_SIZE \<and>
     (\<forall>e \<in> set (cd_queue s). ia_addr e = None \<longrightarrow> ia_id e = 0)"

lemma cdns_init_ok: "cdns_ok (cdns_init nets servers)"
  by (simp add: cdns_ok_def cdns_init_delay) (simp add: cdns_init_def queue_ok_def ID_ADDR_QUEUE_LEN_def)

lemma buf_received: "length (cd_buf s) = BUF_SIZE \<Longrightarrow> length (cd_buf (received dg s)) = BUF_SIZE"
  by (simp add: received_def)

lemma buf_with_id: "length (cd_buf s) = BUF_SIZE \<Longrightarrow> length (cd_buf (with_id i s)) = BUF_SIZE"
  by (simp add: with_id_def be16_def BUF_SIZE_def)

lemma cdns_ok_frame:
  assumes "cdns_ok s" "same_table s s' \<or> adds_entry s s'" "delay_ok s'" "length (cd_buf s') = BUF_SIZE"
  shows "cdns_ok s'"
  using assms(2)
proof
  assume "same_table s s'"
  then show ?thesis using assms by (simp add: cdns_ok_def same_table_def queue_ok_def)
next
  assume "adds_entry s s'"
  then obtain e where e: "ia_addr e \<noteq> None" "same_table (queue_add e s) s'" unfolding adds_entry_def by blast
  have sub: "set (cd_queue s') \<subseteq> insert e (set (cd_queue s))"
    using e(2) set_update_subset_insert by (simp add: same_table_def queue_add_def Let_def)
  have "queue_ok s'"
    using e(2) queue_add_ok [of s e] assms(1) unfolding cdns_ok_def same_table_def queue_ok_def by metis
  moreover have "ia_addr x = None \<longrightarrow> ia_id x = 0" if "x \<in> set (cd_queue s')" for x
  proof (cases "x = e")
    case False
    then have "x \<in> set (cd_queue s)" using sub that by auto
    then show ?thesis using assms(1) unfolding cdns_ok_def by metis
  qed (use e(1) in auto)
  ultimately show ?thesis using assms(3,4) unfolding cdns_ok_def by simp
qed

lemma local_keeps_ok:
  assumes "cdns_ok s" "dns_handle_local dx clock dg src s = Inr (s', out)"
  shows "cdns_ok s'"
proof (rule cdns_ok_frame [OF assms(1)])
  note lt = local_table [OF assms(2)]
  then show "same_table s s' \<or> adds_entry s s'" ..
  show "delay_ok s'" using lt same_delay_delayed(2) assms(1) by (auto simp: cdns_ok_def)
  have len: "length (cd_buf s) = BUF_SIZE" using assms(1) by (simp add: cdns_ok_def)
  show "length (cd_buf s') = BUF_SIZE"
    using assms(2)
  proof (cases rule: dns_handle_local_cases)
    case (accepted msg i)
    then show ?thesis using buf_with_id [OF buf_received [OF len], of i dg] send_queries_frame [OF accepted(4)]
      by (simp add: queue_add_def Let_def)
  qed (simp add: buf_received len)
qed

lemma remote_keeps_ok:
  assumes "cdns_ok s" "dns_handle_remote dx now dg src s = Inr (s', out)"
  shows "cdns_ok s'"
proof (rule cdns_ok_frame [OF assms(1)])
  show "same_table s s' \<or> adds_entry s s'" using remote_table [OF assms(2)] by simp
  have ok: "length (cd_buf s) = BUF_SIZE" "delay_ok s" using assms(1) by (simp_all add: cdns_ok_def)
  have r: "delay_ok (received dg s)" "delay_ok (with_id i (received dg s))" for i
    using same_delay_delayed(2) ok(2) received_same(2) with_id_same(2) by metis+
  note len = buf_received [OF ok(1)] buf_with_id [OF buf_received [OF ok(1)]]
  show "delay_ok s'" using assms(2)
  proof (cases rule: dns_handle_remote_cases)
    case (scheduled i j buf addr)
    then show ?thesis using schedule_delay_ok [OF r(2) [of i], of now j buf addr] by auto
  qed (simp_all add: r)
  show "length (cd_buf s') = BUF_SIZE" using assms(2)
  proof (cases rule: dns_handle_remote_cases)
    case (scheduled i j buf addr)
    then show ?thesis using schedule_delay_frame [OF scheduled(1)] len(2) by simp
  qed (simp_all add: len)
qed

lemma delay_keeps_ok:
  assumes "cdns_ok s" "check_and_send_delay expired now s = Inr (s', out)"
  shows "cdns_ok s'"
proof (rule cdns_ok_frame [OF assms(1)])
  have f: "send_delayed expired now (pending_count s) s = Inr (s', out)"
    using assms(2) by (simp add: check_and_send_delay_def)
  show "same_table s s' \<or> adds_entry s s'" "length (cd_buf s') = BUF_SIZE"
    using send_delayed_frame [OF f] assms(1) by (simp_all add: cdns_ok_def)
  show "delay_ok s'" using send_delayed_ok [OF _ refl, of s expired now] f assms(1) by (auto simp: cdns_ok_def)
qed

lemma turn_keeps_ok:
  assumes "cdns_ok s" "chinadns_turn dx expired now clock local remote s = Inr (s', out)"
  shows "cdns_ok s'"
proof -
  obtain s1 o1 s2 o2 o3 where s1: "check_and_send_delay expired now s = Inr (s1, o1)"
    and s2: "(case local of None \<Rightarrow> Inr (s1, []) | Some (dg, src) \<Rightarrow> dns_handle_local dx clock dg src s1) = Inr (s2, o2)"
    and s3: "(case remote of None \<Rightarrow> Inr (s2, []) | Some (dg, src) \<Rightarrow> dns_handle_remote dx now dg src s2) = Inr (s', o3)"
    using assms(2) unfolding chinadns_turn_def by (auto simp: bind_out_eq_Inr_iff)
  have "cdns_ok s1" using delay_keeps_ok [OF assms(1) s1] .
  then have "cdns_ok s2" using s2 local_keeps_ok by (cases "local") (auto split: prod.splits)
  then show ?thesis using s3 remote_keeps_ok [of s2 dx now] by (cases remote) (auto split: prod.splits)
qed

lemma loop_keeps_ok: "cdns_ok s \<Longrightarrow> chinadns_loop dx expired ts s = Inr (s', out) \<Longrightarrow> cdns_ok s'"
proof (induction ts arbitrary: s out)
  case (Cons t ts)
  then obtain s1 o1 o2 where
      "chinadns_turn dx expired (ti_now t) (ti_clock t) (ti_local t) (ti_remote t) s = Inr (s1, o1)"
      "chinadns_loop dx expired ts s1 = Inr (s', o2)"
    by (auto simp: bind_out_eq_Inr_iff)
  then show ?case using turn_keeps_ok Cons by blast
qed simp

section \<open>Identifiers on the wire\<close>

lemma unat_u8_u16: "unat (b :: u8) + 256 * unat (a :: u8) < 65536"
  using unsigned_less [of a, where 'a = nat] unsigned_less [of b, where 'a = nat] by simp

lemma unat_be16:
  "unat (ucast (drop_bit 8 (x :: u16)) :: u8) = unat x div 256" "unat (ucast x :: u8) = unat x mod 256"
proof -
  have "unat x < 65536" using unsigned_less [of x, where 'a = nat] by simp
  then show "unat (ucast (drop_bit 8 x) :: u8) = unat x div 256"
    by (simp add: unsigned_ucast_eq take_bit_eq_mod drop_bit_eq_div unat_div)
  show "unat (ucast x :: u8) = unat x mod 256" by (simp add: unsigned_ucast_eq take_bit_eq_mod)
qed

lemma be16_val: "be16 (of_nat (be_val [a, b])) = [a, b]"
proof -
  define x :: u16 where "x = of_nat (unat b + 256 * unat a)"
  have x: "unat x = unat b + 256 * unat a"
    unfolding x_def using unat_u8_u16 [of b a] by (subst unat_of_nat) (simp add: take_bit_eq_mod)
  have b: "unat b < 256" using unsigned_less [of b, where 'a = nat] by simp
  have "ucast (drop_bit 8 x) = a" "ucast x = b"
    using b unat_be16 [of x] x by (simp_all only: word_unat_eq_iff) simp_all
  then show ?thesis by (simp add: be16_def be_val_def x_def)
qed

lemma val_be16: "of_nat (be_val (be16 i)) = i"
proof -
  have "be_val (be16 i) = unat (ucast i :: u8) + 256 * unat (ucast (drop_bit 8 i) :: u8)"
    by (simp add: be16_def be_val_def)
  also have "\<dots> = unat i" by (simp only: unat_be16(1) [of i] unat_be16(2) [of i]) simp
  finally have "be_val (be16 i) = unat i" .
  then show ?thesis by simp
qed

lemma length_be16 [simp]: "length (be16 i) = 2"
  by (simp add: be16_def)

lemma init_get16s_shape:
  "init_get16s n buf eom ptr = Inr (Some vs) \<Longrightarrow> 0 < n \<Longrightarrow>
     ptr + 2 * n \<le> eom \<and> ptr + 2 * n \<le> length buf \<and> vs \<noteq> [] \<and> hd vs = be_val (take 2 (drop ptr buf))"
proof (induction n arbitrary: ptr vs)
  case (Suc n)
  then obtain ws where "get_be 2 ptr buf = Inr (be_val (take 2 (drop ptr buf)))" "ptr + 2 \<le> length buf"
      "init_get16s n buf eom (ptr + 2) = Inr (Some ws)" "vs = be_val (take 2 (drop ptr buf)) # ws" "ptr + 2 \<le> eom"
    by (auto simp: bind_out_eq_Inr_iff get_be_def split: if_splits option.splits)
  then show ?case using Suc.IH [of "ptr + 2" ws] by (cases n) auto
qed simp

lemma initparse_id:
  assumes "local_ns_initparse buf len = Inr (Some m)"
  shows "ns_id m = be_val (take 2 buf) \<and> 12 \<le> len \<and> 12 \<le> length buf"
proof -
  obtain vs where vs: "init_get16s 6 buf len 0 = Inr (Some vs)" "ns_id m = vs ! 0"
  proof -
    obtain r where r: "init_get16s 6 buf len 0 = Inr r" using assms unfolding local_ns_initparse_def bind_out_eq_Inr_iff by blast
    then obtain vs where v: "r = Some vs" using assms by (cases r) (auto simp: local_ns_initparse_def)
    then obtain q where "init_sections buf len 0 (drop 2 vs) 12 = Inr q"
      using assms r by (auto simp: local_ns_initparse_def Let_def bind_out_eq_Inr_iff)
    then have "ns_id m = vs ! 0"
      using assms r v
      by (cases q) (auto simp: local_ns_initparse_def Let_def local_ns_setsection_def split: if_splits)
    then show ?thesis using that r v by blast
  qed
  have "vs \<noteq> [] \<and> hd vs = be_val (take 2 buf) \<and> 12 \<le> len \<and> 12 \<le> length buf"
    using init_get16s_shape [OF vs(1)] by simp
  then show ?thesis using vs(2) hd_conv_nth [of vs] by metis
qed

lemma hostname_safe:
  assumes "local_ns_initparse buf len = Inr (Some m)" "len < length buf"
  shows "\<exists>h. hostname_from_question dx buf m = Inr h"
proof -
  have "ns_ok m" "ns_eom m = len" using initparse_ok [OF assms(2)] assms(1) by auto
  then obtain r where "local_ns_parserr dx buf 0 0 m = Inr r" using parserr_ok [of m buf 0 0 dx] assms(2) by auto
  then show ?thesis by (simp add: hostname_from_question_def)
qed

lemma take_overlay: "length new \<le> k \<Longrightarrow> take k (overlay new buf) = new @ take (k - length new) (drop (length new) buf)"
  by (simp add: overlay_def)

lemma take_overlay_le: "k \<le> length new \<Longrightarrow> take k (overlay new buf) = take k new"
  by (simp add: overlay_def)

lemma compress_scan_ge: "compress_scan buf len off = Some r \<Longrightarrow> off < r"
proof (induction buf len off arbitrary: r rule: compress_scan.induct)
  case (1 buf len off)
  then show ?case by (simp add: compress_scan.simps [of buf len off] split: if_splits)
qed

lemma sent_id:
  assumes "send_queries len s = Inr (s', out)" "(dg, a) \<in> set out" "2 \<le> len" "2 \<le> length (cd_buf s)"
  shows "take 2 dg = take 2 (cd_buf s)"
proof -
  consider "dg = take len (cd_buf s)"
    | r where "compress_scan (cd_buf s) len 12 = Some r"
        "dg = take (r - 1) (cd_buf s) @ [0xc0, 0x04] @ take (len - r) (drop r (cd_buf s))"
    using assms(1,2) by (fastforce simp: send_queries_def send_each_def Let_def split: if_splits option.splits)
  then show ?thesis
  proof cases
    case 1
    then show ?thesis using assms(3) by (simp add: min_def)
  next
    case (2 r)
    then have "2 \<le> r - 1" using compress_scan_ge [OF 2(1)] by simp
    then show ?thesis using 2(2) assms(4) by (simp add: min_def)
  qed
qed

lemma take2_be16: "2 \<le> length xs \<Longrightarrow> be16 (of_nat (be_val (take 2 xs))) = take 2 xs"
  by (cases xs; cases "tl xs") (auto simp: be16_val)

text \<open>What a forwarded query leaves behind: its entry, newest in the table, under the identifier on the wire.\<close>

lemma local_forwarded:
  assumes ok: "cdns_ok s" and q: "dns_handle_local dx clock query client s = Inr (s1, sent)"
    and fwd: "(dg, srv) \<in> set sent"
  shows "\<exists>e. queue_at 0 e s1 \<and> take 2 dg = be16 (ia_id e) \<and> be16 (ia_old_id e) = take 2 query \<and> ia_addr e = Some client"
  using q
proof (cases rule: dns_handle_local_cases)
  case ignored
  then show ?thesis using fwd by simp
next
  case (accepted msg i)
  let ?r = "received query s" and ?e = "query_entry i msg client"
  have len: "length (cd_buf s) = BUF_SIZE" "queue_ok s" using ok by (simp_all add: cdns_ok_def)
  note id = initparse_id [OF accepted(1)]
  have "take 2 (cd_buf ?r) = take 2 query" using id by (simp add: received_def take_overlay_le)
  then have old: "be16 (ia_old_id ?e) = take 2 query"
    using id take2_be16 [of query] by (simp add: query_entry_def)
  have b: "cd_buf (queue_add ?e (with_id i ?r)) = overlay (be16 i) (cd_buf ?r)"
    by (simp add: queue_add_def Let_def with_id_def)
  have "take 2 dg = be16 i"
    using sent_id [OF accepted(4) fwd] id len buf_received [OF len(1), of query]
    unfolding b by (simp add: take_overlay_le BUF_SIZE_def)
  moreover have "queue_at 0 ?e s1"
  proof -
    have t: "same_table s (with_id i ?r)" by (metis same_table_trans received_same(1) with_id_same(1))
    have "queue_lookup (ia_id ?e) (with_id i ?r) = None"
      using fresh_id_fresh [OF accepted(2)] same_table_lookup [OF with_id_same(1)] by (simp add: query_entry_def)
    moreover have "queue_ok (with_id i ?r)" using len(2) t by (simp add: queue_ok_def same_table_def)
    ultimately show ?thesis using queue_at_new send_queries_frame [OF accepted(4)] same_table_queue_at by blast
  qed
  ultimately show ?thesis using old by (intro exI [of _ ?e]) (simp add: query_entry_def)
qed

lemma remote_known:
  assumes ok: "cdns_ok s" and e: "queue_lookup (ia_id e) s = Some e" "ia_addr e = Some client"
    and reply: "take 2 reply = be16 (ia_id e)" "length reply < BUF_SIZE"
    and parsed: "local_ns_initparse (overlay reply (cd_buf s)) (length reply) = Inr (Some m)"
  shows "of_nat (ns_id m) = ia_id e"
    and "dns_handle_remote dx now reply server s =
       remote_verdict dx now (length reply) server m client (with_id (ia_old_id e) (received reply s))"
proof -
  let ?r = "received reply s"
  have len: "length (cd_buf ?r) = BUF_SIZE" using ok buf_received by (simp add: cdns_ok_def)
  have t: "take BUF_SIZE reply = reply" using reply(2) by simp
  have p: "local_ns_initparse (cd_buf ?r) (length reply) = Inr (Some m)" using parsed t by (simp add: received_def)
  note id = initparse_id [OF p]
  have "take 2 (cd_buf ?r) = take 2 reply" using id t by (simp add: received_def take_overlay_le)
  then show i: "of_nat (ns_id m) = ia_id e" using id reply(1) by (simp add: val_be16)
  obtain h where "hostname_from_question dx (cd_buf ?r) m = Inr h"
    using hostname_safe [OF p] len reply(2) by auto
  moreover have "queue_lookup (ia_id e) ?r = Some e" using e(1) same_table_lookup [OF received_same(1)] by simp
  moreover have "reply \<noteq> []" using id by auto
  ultimately show "dns_handle_remote dx now reply server s =
       remote_verdict dx now (length reply) server m client (with_id (ia_old_id e) ?r)"
    using p i e(2) t by (simp add: dns_handle_remote_alt Let_def)
qed

lemma overlay_id:
  assumes "length i = 2" "2 \<le> length dg"
  shows "overlay i (overlay dg buf) = overlay (i @ drop 2 dg) buf"
proof -
  obtain k where "length dg = 2 + k" using assms(2) le_Suc_ex by blast
  then show ?thesis using assms(1) by (simp add: overlay_def)
qed

lemma verdict_effect:
  assumes "delay_ok w" "should_filter_query dx w m (fst server) = Inr v" "take len (cd_buf w) = answer"
  shows "\<exists>s3. remote_verdict dx now len server m client w = Inr (s3, if v = 0 then [(answer, client)] else []) \<and>
     delayed s3 = (if v = -1 then delay_spec \<lparr>db_id = of_nat (ns_id m), db_ts = now, db_buf = CLive (answer, client)\<rparr> (delayed w)
       else delayed w)"
proof (cases "v = -1")
  case True
  then show ?thesis using assms(2,3) schedule_delay_ok [OF assms(1), of now "of_nat (ns_id m)" answer client]
    by (auto simp: remote_verdict_def)
qed (simp add: remote_verdict_def assms)


lemma demo_parse:
  "local_ns_initparse ([a, b] @ drop 2 demo_query @ rest) 19 =
     Inr (Some \<lparr>ns_eom = 19, ns_id = be_val [a, b], ns_flags = 256, ns_counts = [1, 0, 0, 0],
       ns_sections = [Some 12, None, None, None], ns_sect = 4, ns_rrnum = -1, ns_ptr = None\<rparr>)"
proof -
  let ?buf = "[a, b] @ drop 2 demo_query @ rest"
  have g: "init_get16s 6 ?buf 19 0 = Inr (Some [be_val [a, b], 256, 1, 0, 0, 0])"
    by (simp add: demo_query_def numeral_eq_Suc get_be_def be_val_def)
  have "local_ns_name_skip ?buf 19 14 = Inr (Some 15)"
    by (simp add: local_ns_name_skip.simps [of _ _ 14] byte_at_def demo_query_def)
  then have "local_ns_name_skip ?buf 19 12 = Inr (Some 15)"
    by (simp add: local_ns_name_skip.simps [of _ _ 12] byte_at_def demo_query_def NS_CMPRSFLGS_def)
  then have "local_ns_skiprr ?buf 19 0 1 12 = Inr (Some 7)"
    by (simp add: local_ns_skiprr_def local_ns_dn_skipname_def)
  then have "init_sections ?buf 19 0 [1, 0, 0, 0] 12 = Inr (Some ([Some 12, None, None, None], 19))" by simp
  with g show ?thesis by (simp add: local_ns_initparse_def local_ns_setsection_def)
qed

lemma demo_local:
  "\<exists>s1. dns_handle_local (\<lambda>_ _ _. None) [(1, 0)] demo_query (9, 4000) (cdns_init [] [Some (8, 53)]) =
       Inr (s1, [([1, 0] @ drop 2 demo_query, (8, 53))]) \<and>
     cd_buf s1 = [1, 0] @ drop 2 demo_query @ replicate 493 0 \<and>
     cd_compression s1 = False"
proof -
  let ?s = "cdns_init [] [Some (8, 53)]"
  have len: "length demo_query = 19" by (simp add: demo_query_def)
  have r: "cd_buf (received demo_query ?s) = [0x12, 0x34] @ drop 2 demo_query @ replicate 493 0"
    by (simp add: received_def cdns_init_def BUF_SIZE_def overlay_def demo_query_def)
  have i: "new_query_id (1, 0) = 256" by (simp add: new_query_id_def push_bit_eq_mult)
  have f: "fresh_id [(1, 0)] (received demo_query ?s) = Inr 256"
    by (simp add: i queue_lookup_None received_def cdns_init_def)
  have b: "be16 256 = [1, 0]" by (simp add: be16_def drop_bit_eq_div)
  have h: "\<exists>h. hostname_from_question (\<lambda>_ _ _. None) (cd_buf (received demo_query ?s)) m = Inr h"
    if "local_ns_initparse (cd_buf (received demo_query ?s)) 19 = Inr (Some m)" for m
    using hostname_safe [OF that] by (simp add: r len)
  obtain m where m: "local_ns_initparse (cd_buf (received demo_query ?s)) 19 = Inr (Some m)"
    using demo_parse [of "0x12" "0x34" "replicate 493 0"] r by metis
  then obtain h where "hostname_from_question (\<lambda>_ _ _. None) (cd_buf (received demo_query ?s)) m = Inr h" using h by blast
  then have "dns_handle_local (\<lambda>_ _ _. None) [(1, 0)] demo_query (9, 4000) ?s =
      send_queries 19 (queue_add (query_entry 256 m (9, 4000)) (with_id 256 (received demo_query ?s)))"
    using m f len by (simp add: dns_handle_local_alt Let_def BUF_SIZE_def)
  moreover have "cd_buf (with_id 256 (received demo_query ?s)) = [1, 0] @ drop 2 demo_query @ replicate 493 0"
    by (simp add: with_id_def r b overlay_def)
  ultimately show ?thesis
    by (simp add: send_queries_def send_each_def List.map_filter_def Let_def queue_add_def with_id_def received_def cdns_init_def len)
qed


section \<open>Safety of the handlers\<close>

lemma fresh_id_fails: "fresh_id clock s = Inl e \<Longrightarrow> \<forall>tv \<in> set clock. queue_lookup (new_query_id tv) s \<noteq> None"
  by (induction clock) (auto split: if_splits)

text \<open>
  Choosing an identifier ends. The loop of \<open>dns_handle_local\<close> that draws identifiers from the clock
  returns one that is not in use as soon as the readings have given more than 128 different
  identifiers, one more than the table can hold.
\<close>

lemma fresh_id_terminates:
  assumes "queue_ok s" "ID_ADDR_QUEUE_LEN < card (new_query_id ` set clock)"
  shows "\<exists>i. fresh_id clock s = Inr i \<and> queue_lookup i s = None"
proof (cases "fresh_id clock s")
  case (Inl e)
  have "new_query_id tv \<in> ia_id ` set (cd_queue s)" if "tv \<in> set clock" for tv
    using fresh_id_fails [OF Inl] that queue_lookup_None by (metis imageI)
  then have "new_query_id ` set clock \<subseteq> ia_id ` set (cd_queue s)" by blast
  then have "card (new_query_id ` set clock) \<le> card (ia_id ` set (cd_queue s))" by (intro card_mono) auto
  also have "\<dots> \<le> length (cd_queue s)" using card_image_le card_length by (metis List.finite_set le_trans)
  finally show ?thesis using assms by (simp add: queue_ok_def)
next
  case (Inr i)
  then show ?thesis using fresh_id_fresh by blast
qed

lemma fresh_id_terminates_witness:
  "\<exists>i. fresh_id (map (\<lambda>n. (0, int n)) [0..<129]) (cdns_init [] []) = Inr i"
proof -
  let ?clock = "map (\<lambda>n. (0, int n)) [0..<129] :: timestamp list"
  have id: "new_query_id (0, int n) = of_nat n" for n
    by (simp add: new_query_id_def word_unat_eq_iff unsigned_ucast_eq unsigned_of_nat)
  have "new_query_id ` set ?clock = of_nat ` {0..<129}" by (simp add: image_image id)
  moreover have "inj_on (of_nat :: nat \<Rightarrow> u16) {0..<129}"
    by (rule inj_onI) (simp add: word_unat_eq_iff unat_of_nat take_bit_eq_mod)
  ultimately have "card (new_query_id ` set ?clock) = 129" by (simp only: card_image card_atLeastLessThan)
  moreover have "queue_ok (cdns_init [] [])" using cdns_init_ok by (simp add: cdns_ok_def)
  ultimately show ?thesis using fresh_id_terminates [of "cdns_init [] []" ?clock] by (auto simp: ID_ADDR_QUEUE_LEN_def)
qed

lemma if_Inr: "(if b then Inr x else Inr y) = Inr (if b then x else y)"
  by simp

lemma filter_loop_safe:
  "ns_ok m \<Longrightarrow> ns_eom m + 4 \<le> length (cd_buf s) \<Longrightarrow> \<exists>r. filter_loop dx s chn foreign k n m = Inr r"
proof (induction k arbitrary: n m)
  case (Suc k)
  have c: "ns_eom m < length (cd_buf s)" "(1 :: nat) < 4" "0 \<le> int n" using Suc.prems(2) by simp_all
  obtain r where r: "local_ns_parserr dx (cd_buf s) 1 (int n) m = Inr r"
      "\<forall>rr h'. r = Some (rr, h') \<longrightarrow> ns_ok h' \<and> ns_eom h' = ns_eom m \<and> ns_counts h' = ns_counts m \<and>
        ((1 :: nat) = 0 \<longleftrightarrow> rr_rdata rr = None) \<and>
        (\<forall>q. rr_rdata rr = Some q \<longrightarrow> q + rr_rdlength rr \<le> ns_eom m)"
    using parserr_ok [OF Suc.prems(1) c, of dx] by blast
  show ?case
  proof (cases r)
    case None
    then show ?thesis using r(1) by simp
  next
    case (Some x)
    obtain rr h where x: "x = (rr, h)" by fastforce
    have h0: "ns_ok h" "ns_eom h = ns_eom m" "rr_rdata rr \<noteq> None"
      "\<And>q. rr_rdata rr = Some q \<Longrightarrow> q + rr_rdlength rr \<le> ns_eom m"
      using r(2) unfolding Some x by auto
    then obtain q where h: "ns_ok h" "ns_eom h + 4 \<le> length (cd_buf s)" "rr_rdata rr = Some q" "q \<le> ns_eom m"
      using Suc.prems(2) by (metis add_leD1 not_None_eq)
    then obtain v where "get_le 4 q (cd_buf s) = Inr v" using Suc.prems(2) by (simp add: get_le_def)
    moreover obtain r' where "filter_loop dx s chn foreign k (n + 1) h = Inr r'"
      using Suc.IH [OF h(1,2), of "n + 1"] by blast
    ultimately show ?thesis using r(1) Some x h(3)
      by (cases chn) (simp_all add: Let_def if_Inr cong: if_cong split del: if_split)
  qed
qed simp

lemma should_filter_safe:
  assumes "ns_ok m" "ns_eom m + 4 \<le> length (cd_buf s)"
  shows "\<exists>v. should_filter_query dx s m a = Inr v"
proof -
  obtain r where "filter_loop dx s (cd_chnroute_file s \<and> length (cd_servers s) > 1 \<and> test_ip_in_list a (cd_nets s))
      (cd_chnroute_file s \<and> length (cd_servers s) > 1 \<and>
        \<not> (cd_chnroute_file s \<and> length (cd_servers s) > 1 \<and> test_ip_in_list a (cd_nets s))) (ns_counts m ! 1) 0 m = Inr r"
    using filter_loop_safe [OF assms] by blast
  then show ?thesis by (simp add: should_filter_query_def Let_def)
qed

lemma send_each_receivers: "Some ` snd ` set (send_each m slots) \<subseteq> set slots"
  by (auto simp: send_each_def List.map_filter_def)

lemma send_queries_safe:
  assumes "len < BUF_SIZE"
  shows "\<exists>s' out. send_queries len s = Inr (s', out) \<and> Some ` snd ` set out \<subseteq> set (cd_servers s)"
proof (cases "if cd_compression s \<and> len > 16 then compress_scan (cd_buf s) len 12 else None")
  case None
  then have "send_queries len s = Inr (s, send_each (take len (cd_buf s)) (cd_servers s))"
    by (auto simp: send_queries_def Let_def)
  then show ?thesis using send_each_receivers by blast
next
  case (Some off)
  define c where "c = take (off - 1) (cd_buf s) @ [0xc0, 0x04] @ take (len - off) (drop off (cd_buf s))"
  let ?n = "cd_has_chn_dns s" and ?q = "take len (cd_buf s)"
  let ?all = "send_each ?q (cd_servers s)"
  define first where "first = send_each ?q (take ?n (cd_servers s)) @ send_each c (drop ?n (cd_servers s))"
  have "cd_compression s" "len > 16" "compress_scan (cd_buf s) len 12 = Some off"
    using Some by (auto split: if_splits)
  then have "send_queries len s =
      Inr (s\<lparr>cd_cbuf := overlay c (cd_cbuf s)\<rparr>, if drop ?n (cd_servers s) = [] then first @ ?all else first)"
    using assms unfolding send_queries_def Let_def first_def c_def by simp
  moreover have "Some ` snd ` set first \<subseteq> set (cd_servers s)"
    using send_each_receivers [of ?q "take ?n (cd_servers s)"] send_each_receivers [of c "drop ?n (cd_servers s)"]
      set_take_subset [of ?n "cd_servers s"] set_drop_subset [of ?n "cd_servers s"]
    unfolding first_def set_append image_Un by blast
  then have "Some ` snd ` set (if drop ?n (cd_servers s) = [] then first @ ?all else first) \<subseteq> set (cd_servers s)"
    using send_each_receivers [of ?q "cd_servers s"] by (simp add: image_Un)
  ultimately show ?thesis by blast
qed

text \<open>
  C30: Safety of the query handler. In a well-formed state, any datagram shorter than the buffer, however
  malformed, is handled without a fault when the clock gives a free identifier; the state stays well
  formed and datagrams go to the configured servers only.
\<close>

theorem dns_handle_local_safe:
  assumes "cdns_ok s" "length dg < BUF_SIZE" "fresh_id clock s = Inr i"
  shows "\<exists>s' out. dns_handle_local dx clock dg src s = Inr (s', out) \<and> cdns_ok s' \<and> Some ` snd ` set out \<subseteq> set (cd_servers s)"
proof -
  let ?r = "received dg s"
  have len: "length (cd_buf ?r) = BUF_SIZE" "length (cd_buf (with_id i ?r)) = BUF_SIZE"
    using assms(1) buf_received buf_with_id by (simp_all add: cdns_ok_def)
  have t: "take BUF_SIZE dg = dg" using assms(2) by simp
  have f: "fresh_id clock ?r = Inr i" using assms(3) fresh_id_cong [OF received_same(1)] by simp
  obtain m where m: "local_ns_initparse (cd_buf ?r) (length dg) = Inr m"
    using initparse_ok [of "length dg" "cd_buf ?r"] len assms(2) by auto
  have "\<exists>s' out. dns_handle_local dx clock dg src s = Inr (s', out) \<and> Some ` snd ` set out \<subseteq> set (cd_servers s)"
  proof (cases "dg = [] \<or> m = None")
    case True
    then show ?thesis using m t by (auto simp: dns_handle_local_alt Let_def)
  next
    case False
    then obtain msg where msg: "m = Some msg" by blast
    obtain h where "hostname_from_question dx (cd_buf ?r) msg = Inr h"
      using hostname_safe m msg len(1) assms(2) by metis
    then have eq: "dns_handle_local dx clock dg src s =
        send_queries (length dg) (queue_add (query_entry i msg src) (with_id i ?r))"
      using m msg f t False by (simp add: dns_handle_local_alt Let_def)
    have sv: "cd_servers (queue_add (query_entry i msg src) (with_id i ?r)) = cd_servers s"
      by (simp add: queue_add_def Let_def with_id_def received_def)
    from send_queries_safe [OF assms(2), of "queue_add (query_entry i msg src) (with_id i ?r)"]
    show ?thesis unfolding eq sv .
  qed
  then obtain s' out where "dns_handle_local dx clock dg src s = Inr (s', out)" "Some ` snd ` set out \<subseteq> set (cd_servers s)"
    by blast
  then show ?thesis using local_keeps_ok [OF assms(1)] by metis
qed

theorem dns_handle_local_safe_witness:
  "\<exists>s' out. dns_handle_local (\<lambda>_ _ _. None) [(1, 0)] [1, 2, 3] (9, 4000) (cdns_init [] [Some (8, 53)]) = Inr (s', out) \<and> cdns_ok s'"
proof -
  have "fresh_id [(1, 0)] (cdns_init [] [Some (8, 53)]) = Inr 256"
    by (simp add: new_query_id_def push_bit_eq_mult queue_lookup_None cdns_init_def)
  then show ?thesis
    using dns_handle_local_safe [OF cdns_init_ok, of "[1, 2, 3]" "[(1, 0)]" "[]" "[Some (8, 53)]" 256 "\<lambda>_ _ _. None" "(9, 4000)"]
    by (auto simp: BUF_SIZE_def)
qed

text \<open>
  C29: Safety of the answer handler. In a well-formed state any datagram that leaves four bytes of the
  buffer free and whose identifier is not zero is handled without a fault, at most one
  datagram is sent for it, and the state stays well formed.
\<close>

theorem dns_handle_remote_safe:
  assumes ok: "cdns_ok s" and len: "length dg + 4 \<le> BUF_SIZE" and id: "take 2 dg \<noteq> [0, 0]"
  shows "\<exists>s' out. dns_handle_remote dx now dg src s = Inr (s', out) \<and> cdns_ok s' \<and> length out \<le> 1"
proof -
  let ?r = "received dg s"
  have lr: "length (cd_buf ?r) = BUF_SIZE" "length dg < length (cd_buf ?r)"
    using ok len buf_received [of s dg] by (simp_all add: cdns_ok_def)
  have t: "take BUF_SIZE dg = dg" using len by simp
  obtain m where m: "local_ns_initparse (cd_buf ?r) (length dg) = Inr m"
      "\<forall>h. m = Some h \<longrightarrow> ns_ok h \<and> ns_eom h = length dg"
    using initparse_ok [OF lr(2)] by blast
  have "\<exists>s' out. dns_handle_remote dx now dg src s = Inr (s', out) \<and> length out \<le> 1"
  proof (cases "dg = [] \<or> m = None \<or> queue_lookup (of_nat (ns_id (the m))) ?r = None")
    case True
    then show ?thesis using m t hostname_safe [of "cd_buf ?r" "length dg" "the m" dx] lr(2)
      by (cases m) (auto simp: dns_handle_remote_alt Let_def)
  next
    case False
    then obtain msg e where msg: "m = Some msg" "queue_lookup (of_nat (ns_id msg)) ?r = Some e" by auto
    have p: "local_ns_initparse (cd_buf ?r) (length dg) = Inr (Some msg)" using m(1) msg(1) by simp
    obtain h where h: "hostname_from_question dx (cd_buf ?r) msg = Inr h" using hostname_safe [OF p lr(2)] by blast
    have e: "e \<in> set (cd_queue s)" "ia_id e = of_nat (ns_id msg)"
      using msg(2) by (auto simp: queue_lookup_def find_Some_iff received_def)
    have ip: "ns_id msg = be_val (take 2 (cd_buf ?r))" "12 \<le> length dg" using initparse_id [OF p] by simp_all
    have td: "take 2 (cd_buf ?r) = take 2 dg" using t ip(2) by (simp add: received_def take_overlay_le)
    have "be16 0 = [0, 0]" by (simp add: be16_def)
    then have "ia_id e \<noteq> 0" using id take2_be16 [of dg] ip e(2) td by auto
    then obtain client where c: "ia_addr e = Some client" using ok e(1) unfolding cdns_ok_def by fastforce
    let ?w = "with_id (ia_old_id e) ?r"
    have "ns_eom msg + 4 \<le> length (cd_buf ?w)" "ns_ok msg"
      using m(2) msg(1) len buf_with_id [OF lr(1)] by auto
    then obtain v where v: "should_filter_query dx ?w msg (fst src) = Inr v" using should_filter_safe by blast
    have "delay_ok ?w" using ok same_delay_delayed(2) [of s ?w]
      by (simp add: cdns_ok_def same_delay_def received_def with_id_def)
    from verdict_effect [OF this v refl, of now "length dg" client]
    obtain s3 where "remote_verdict dx now (length dg) src msg client ?w =
        Inr (s3, if v = 0 then [(take (length dg) (cd_buf ?w), client)] else [])" by blast
    then have "dns_handle_remote dx now dg src s =
        Inr (s3, if v = 0 then [(take (length dg) (cd_buf ?w), client)] else [])"
      using p h msg(2) c t False by (simp add: dns_handle_remote_alt Let_def)
    then show ?thesis by auto
  qed
  then obtain s' out where "dns_handle_remote dx now dg src s = Inr (s', out)" "length out \<le> 1" by blast
  then show ?thesis using remote_keeps_ok [OF ok] by metis
qed

theorem dns_handle_remote_safe_witness:
  "\<exists>s' out. dns_handle_remote (\<lambda>_ _ _. None) (2, 0) [7, 7, 7] (8, 53) (cdns_init [] []) = Inr (s', out) \<and> cdns_ok s'"
  using dns_handle_remote_safe [OF cdns_init_ok, of "[7, 7, 7]" "\<lambda>_ _ _. None" "(2, 0)" "(8, 53)" "[]" "[]"]
  by (auto simp: BUF_SIZE_def)

text \<open>
  An answer with identifier zero makes the relay follow a null pointer as long as a slot of the
  table is unused: \<open>queue_lookup\<close> takes the zeroed slot for an entry, and \<open>dns_handle_remote\<close> writes to
  its address without a test.
\<close>

lemma remote_id_zero_faults:
  "dns_handle_remote dx now ([0, 0] @ drop 2 demo_query) server (cdns_init nets servers) = Inl NullDeref"
proof -
  let ?dg = "[0, 0] @ drop 2 demo_query" and ?s = "cdns_init nets servers"
  let ?r = "received ?dg ?s"
  have len: "length ?dg = 19" "take BUF_SIZE ?dg = ?dg" by (simp_all add: demo_query_def BUF_SIZE_def)
  have buf: "cd_buf ?r = [0, 0] @ drop 2 demo_query @ replicate 493 0"
    by (simp add: received_def cdns_init_def BUF_SIZE_def overlay_def demo_query_def)
  obtain m where m: "local_ns_initparse (cd_buf ?r) 19 = Inr (Some m)" "ns_id m = 0"
    unfolding buf using demo_parse [of 0 0 "replicate 493 0"] by (auto simp: be_val_def)
  obtain h where h: "hostname_from_question dx (cd_buf ?r) m = Inr h"
    using hostname_safe [OF m(1), of dx] len(1) unfolding buf by (auto simp: demo_query_def)
  have "queue_lookup 0 ?r = Some \<lparr>ia_id = 0, ia_old_id = 0, ia_addr = None\<rparr>"
    by (simp add: queue_lookup_def received_def cdns_init_def ID_ADDR_QUEUE_LEN_def numeral_eq_Suc)
  with m h show ?thesis unfolding dns_handle_remote_alt len(2) len(1) Let_def by simp
qed

end
