(* ===== verification/Resolver.thy ===== *)
theory Resolver
  imports Prelude
begin

text \<open>
  Model of \<open>src/src/chinadns/chinadns-cpp.h\<close>, the class that starts and stops the DNS relay and replaces
  \<open>/etc/resolv.conf\<close> meanwhile. The file is a string; whether it can be opened for reading and for
  writing is an argument of each operation. The thread that runs the relay is a flag of the result.
\<close>

record Chinadns =
  cd_host :: string
  cd_route_file :: string
  cd_port :: int
  cd_running :: int
  cd_return_s :: string      \<comment> \<open>the saved contents of the file\<close>

definition Chinadns_none :: "int \<Rightarrow> Chinadns" where
  \<comment> \<open>the default constructor; the port is not initialised\<close>
  "Chinadns_none junk = \<lparr>cd_host = [], cd_route_file = [], cd_port = junk, cd_running = 0, cd_return_s = []\<rparr>"

definition Chinadns_new :: "string \<Rightarrow> int \<Rightarrow> string \<Rightarrow> Chinadns" where
  "Chinadns_new host port route_file =
     \<lparr>cd_host = host, cd_route_file = route_file, cd_port = port, cd_running = 0, cd_return_s = []\<rparr>"

definition newline :: string where "newline = [CHR 0x0A]"

definition dns_info :: string where
  "dns_info = ''# Generated by SharpVPN'' @ newline @ ''# do not change this file'' @ newline @
     ''# will be recovered when the program stop'' @ newline @ ''nameserver 127.0.0.1'' @ newline"

text \<open>The results: the return value, the object, the file and whether the relay's thread was started.\<close>

definition Chinadns_start :: "bool \<Rightarrow> bool \<Rightarrow> Chinadns \<Rightarrow> string \<Rightarrow> int \<times> Chinadns \<times> string \<times> bool" where
  "Chinadns_start readable writable c resolv =
     (let c = c\<lparr>cd_running := 1\<rparr> in
      if \<not> readable then (-1, c, resolv, False)
      else
        let c = c\<lparr>cd_return_s := resolv\<rparr> in
        if \<not> writable then (-1, c, resolv, False)
        else (0, c, dns_info, True))"

definition Chinadns_stop :: "bool \<Rightarrow> Chinadns \<Rightarrow> string \<Rightarrow> int \<times> Chinadns \<times> string" where
  "Chinadns_stop writable c resolv =
     (if cd_running c = 0 then (0, c, resolv)
      else
        let c = c\<lparr>cd_running := 0\<rparr> in
        if \<not> writable then (-1, c, resolv)
        else (0, c, cd_return_s c))"

text \<open>Windows: the relay is a process of its own, and the file is not touched.\<close>

definition win_Chinadns_start :: "bool \<Rightarrow> Chinadns \<Rightarrow> int \<times> Chinadns" where
  "win_Chinadns_start created c = (if \<not> created then (-1, c\<lparr>cd_running := 0\<rparr>) else (0, c\<lparr>cd_running := 1\<rparr>))"

definition win_Chinadns_stop :: "Chinadns \<Rightarrow> int \<times> Chinadns \<times> bool" where
  \<comment> \<open>the flag: the process is terminated\<close>
  "win_Chinadns_stop c = (0, c, cd_running c \<noteq> 0)"

lemma start_stop_restores:
  assumes "Chinadns_start r w c resolv = (0, c', resolv', b)"
  shows "Chinadns_stop True c' resolv' = (0, c'\<lparr>cd_running := 0\<rparr>, resolv)" "resolv' = dns_info" "b"
  using assms by (auto simp: Chinadns_start_def Chinadns_stop_def Let_def split: if_splits)

text \<open>
  A start that could not write: the contents were saved, so the stop that follows leaves the file as it was. But a
  start that could not read has saved nothing and still counts as running: the stop that
  follows, if it can write, empties the file.
\<close>

lemma failed_start:
  "Chinadns_stop True (fst (snd (Chinadns_start True False c resolv))) resolv =
     (0, c\<lparr>cd_running := 0, cd_return_s := resolv\<rparr>, resolv)"
  "Chinadns_stop True (fst (snd (Chinadns_start False w (Chinadns_new host port file) resolv))) resolv =
     (0, Chinadns_new host port file, [])"
  by (simp_all add: Chinadns_start_def Chinadns_stop_def Chinadns_new_def)

end
