(* ===== verification/DnsMain.thy ===== *)
theory DnsMain
  imports DnsRelay Resolver
begin

text \<open>
  Model of the function \<open>chinadns\<close> of \<open>src/src/chinadns/chinadns.c\<close> that \<open>chinadns-cpp.h\<close> runs in a thread: resetting
  the tables, reading the route file, resolving the servers, opening the sockets, and then the
  loop. \<open>ip_list_file\<close> is never set here, so \<open>parse_ip_list\<close> leaves the list empty. The route file is given by what
  opening its name yields.
\<close>

definition default_dns_servers :: string where
  "default_dns_servers =
     ''114.114.114.114,223.5.5.5,8.8.8.8,8.8.4.4,208.67.222.222:443,208.67.222.222:5353''"

definition chinadns_reset :: "cdns \<Rightarrow> cdns" where
  \<comment> \<open>the two \<open>memset\<close> calls and the empty list of addresses\<close>
  "chinadns_reset s =
     (let s = s\<lparr>cd_queue := replicate ID_ADDR_QUEUE_LEN \<lparr>ia_id = 0, ia_old_id = 0, ia_addr = None\<rparr>,
                cd_chnroute_file := True, cd_ip_list := []\<rparr> in
      if \<not> cd_compression s
      then s\<lparr>cd_delay := replicate DELAY_QUEUE_LEN \<lparr>db_id = 0, db_ts = (0, 0), db_buf = CNull\<rparr>\<rparr> else s)"

text \<open>\<open>Inl ()\<close>: \<open>EXIT_FAILURE\<close>. \<open>socks\<close>: \<open>dns_init_sockets\<close> returns 0.\<close>

definition dns_init_sockets :: "bool \<Rightarrow> sockaddr option \<Rightarrow> (sockaddr \<Rightarrow> bool) \<Rightarrow> bool \<Rightarrow> int" where
  \<comment> \<open>\<open>setnonblock\<close> on the first socket, \<open>getaddrinfo\<close>, \<open>bind\<close>, \<open>setnonblock\<close> on the second\<close>
  "dns_init_sockets nb1 addr can_bind nb2 =
     (if \<not> nb1 then -1
      else case addr of None \<Rightarrow> -1 | Some a \<Rightarrow> if \<not> can_bind a then -1 else if \<not> nb2 then -1 else 0)"

definition chinadns_setup ::
  "inet_aton \<Rightarrow> string option \<Rightarrow> getaddrinfo \<Rightarrow> int \<Rightarrow> cdns \<Rightarrow> (bool \<times> cdns) outcome" where
  "chinadns_setup aton file gai sockets s =
     (let s = chinadns_reset s in
      case file of
        None \<Rightarrow> Inr (False, s\<lparr>cd_nets := []\<rparr>)
      | Some contents \<Rightarrow>
          bind_out (parse_chnroute aton contents) (\<lambda>(r, nets).
          let s = s\<lparr>cd_nets := nets\<rparr> in
          if r \<noteq> 0 then Inr (False, s)
          else
            case resolve_dns_servers gai default_dns_servers s of (r, s) \<Rightarrow>
              if r \<noteq> 0 then Inr (False, s)
              else if sockets \<noteq> 0 then Inr (False, s) else Inr (True, s)))"

definition chinadns_run ::
  "inet_aton \<Rightarrow> string option \<Rightarrow> getaddrinfo \<Rightarrow> int \<Rightarrow> dn_expand \<Rightarrow> (timestamp \<Rightarrow> timestamp \<Rightarrow> bool) \<Rightarrow> turn_input list \<Rightarrow>
   cdns \<Rightarrow> (int \<times> cdns \<times> (bytes \<times> sockaddr) list) outcome" where
  \<comment> \<open>the exit code, the state and what was sent\<close>
  "chinadns_run aton file gai sockets dx expired ts s =
     bind_out (chinadns_setup aton file gai sockets s) (\<lambda>(ok, s).
     if \<not> ok then Inr (1, s, [])
     else bind_out (chinadns_loop dx expired ts s) (\<lambda>(s, out). Inr (0, s, out)))"

section \<open>The state of a running relay\<close>

lemma length_token_buf: "length (token_buf t) = BUF_SIZE"
  by (simp add: token_buf_def Let_def BUF_SIZE_def)

text \<open>What resolving does not touch.\<close>

definition keeps_tables :: "cdns \<Rightarrow> cdns \<Rightarrow> bool" where
  "keeps_tables s s' \<longleftrightarrow> cd_queue s' = cd_queue s \<and> cd_pos s' = cd_pos s \<and> cd_delay s' = cd_delay s \<and>
     cd_first s' = cd_first s \<and> cd_last s' = cd_last s \<and> (length (cd_buf s) = BUF_SIZE \<longrightarrow> length (cd_buf s') = BUF_SIZE)"

lemma keeps_tables_refl: "keeps_tables s s"
  by (simp add: keeps_tables_def)

lemma keeps_tables_trans: "keeps_tables a b \<Longrightarrow> keeps_tables b c \<Longrightarrow> keeps_tables a c"
  by (simp add: keeps_tables_def)

lemma resolve_loop_tables: "keeps_tables s (snd (resolve_loop gai tokens i foreign s))"
proof (induction tokens arbitrary: i foreign s)
  case Nil
  show ?case by (simp add: keeps_tables_refl)
next
  case (Cons t tokens)
  let ?s = "s\<lparr>cd_buf := token_buf t\<rparr>"
  have upd: "keeps_tables s (?s\<lparr>cd_servers := x, cd_has_chn_dns := y\<rparr>)" "keeps_tables s (?s\<lparr>cd_servers := x\<rparr>)"
      "keeps_tables s ?s" for x y
    by (simp_all add: keeps_tables_def length_token_buf)
  have go: "keeps_tables s (snd (resolve_loop gai tokens i' f s'))" if "keeps_tables s s'" for i' f s'
    using that Cons.IH [of s' i' f] by (rule keeps_tables_trans)
  obtain h p where "split_port (take (BUF_SIZE - 1) t) = (h, p)" by fastforce
  then show ?case by (cases "gai h p") (simp_all add: Let_def go upd)
qed

lemma resolve_loop_compression: "cd_compression (snd (resolve_loop gai tokens i foreign s)) = cd_compression s"
proof (induction tokens arbitrary: i foreign s)
  case (Cons t tokens)
  obtain h p where "split_port (take (BUF_SIZE - 1) t) = (h, p)" by fastforce
  then show ?case by (cases "gai h p") (simp_all add: Let_def Cons.IH)
qed simp

lemma resolve_loop_total: "\<exists>f. fst (resolve_loop (\<lambda>h p. Some a) tokens i foreign s) = Some f"
proof (induction tokens arbitrary: i foreign s)
  case (Cons t tokens)
  obtain h p where "split_port (take (BUF_SIZE - 1) t) = (h, p)" by fastforce
  then show ?case by (simp add: Let_def Cons.IH)
qed simp

lemma resolve_tables: "keeps_tables s (snd (resolve_dns_servers gai names s))"
proof -
  let ?s = "s\<lparr>cd_has_chn_dns := 0\<rparr>" and ?n = "length (split_at CHR '','' names)"
  obtain r s2 where l: "resolve_loop gai (strtok_all names) 0 0 (?s\<lparr>cd_servers := replicate ?n None\<rparr>) = (r, s2)"
    by (rule prod.exhaust)
  have "keeps_tables (?s\<lparr>cd_servers := replicate ?n None\<rparr>) s2"
    using resolve_loop_tables [of "?s\<lparr>cd_servers := replicate ?n None\<rparr>" gai "strtok_all names" 0 0] l by simp
  moreover have "keeps_tables s (?s\<lparr>cd_servers := replicate ?n None\<rparr>)" by (simp add: keeps_tables_def)
  ultimately have k: "keeps_tables s s2" by (rule keeps_tables_trans [rotated])
  have "keeps_tables s ?s" by (simp add: keeps_tables_def)
  with k show ?thesis using l by (simp add: resolve_dns_servers_def Let_def split: option.splits)
qed

lemma keeps_tables_ok:
  assumes "keeps_tables s s'" "cdns_ok s"
  shows "cdns_ok s'"
proof -
  have "same_delay s s'" using assms(1) by (simp add: keeps_tables_def same_delay_def)
  then show ?thesis using assms same_delay_delayed [of s s']
    by (simp add: keeps_tables_def cdns_ok_def queue_ok_def delay_ok_def)
qed

lemma reset_init_ok: "cdns_ok (chinadns_reset (cdns_init nets servers))"
proof -
  have "keeps_tables (cdns_init nets servers) (chinadns_reset (cdns_init nets servers))"
    by (simp add: keeps_tables_def chinadns_reset_def cdns_init_def Let_def)
  then show ?thesis using keeps_tables_ok cdns_init_ok by blast
qed

lemma setup_ok:
  assumes "chinadns_setup aton file gai sockets (cdns_init nets servers) = Inr (b, s)"
  shows "cdns_ok s"
proof -
  let ?r = "chinadns_reset (cdns_init nets servers)"
  have k: "cdns_ok (?r\<lparr>cd_nets := n\<rparr>)" for n
    by (rule keeps_tables_ok [OF _ reset_init_ok [of nets servers]]) (simp add: keeps_tables_def)
  then have "cdns_ok (snd (resolve_dns_servers gai names (?r\<lparr>cd_nets := n\<rparr>)))" for names n
    using keeps_tables_ok [OF resolve_tables] by blast
  then show ?thesis using k assms
    by (auto simp: chinadns_setup_def Let_def bind_out_eq_Inr_iff split: option.splits if_splits prod.splits) (metis snd_conv)+
qed

text \<open>
  C28: However long the relay runs and whatever datagrams it gets, its state keeps its form: when a run from the program's start is left
  without a fault, the query table has its 128 entries and a position inside, an entry without an
  address has identifier 0, the pending answers are live buffers with different identifiers
  inside the ring of 128, and the datagram buffer has its 512 bytes.
\<close>

theorem relay_state_ok:
  assumes "chinadns_run aton file gai sockets dx expired ts (cdns_init [] []) = Inr (code, s, out)"
  shows "cdns_ok s"
proof -
  obtain b s1 where s1: "chinadns_setup aton file gai sockets (cdns_init [] []) = Inr (b, s1)"
    using assms by (auto simp: chinadns_run_def bind_out_eq_Inr_iff)
  then show ?thesis
    using assms setup_ok [OF s1] loop_keeps_ok [of s1 dx expired ts]
    by (auto simp: chinadns_run_def bind_out_eq_Inr_iff split: if_splits)
qed

theorem relay_state_ok_witness:
  "\<exists>s. chinadns_run (\<lambda>_. None) (Some []) (\<lambda>h p. Some (0x04030201, 53)) 0 (\<lambda>_ _ _. None) (\<lambda>_ _. False) []
      (cdns_init [] []) = Inr (0, s, []) \<and> cdns_ok s"
proof -
  let ?gai = "\<lambda>h p. Some (0x04030201, 53) :: sockaddr option"
  let ?s = "(chinadns_reset (cdns_init [] []))\<lparr>cd_nets := []\<rparr>"
  let ?t = "?s\<lparr>cd_has_chn_dns := 0, cd_servers := replicate (length (split_at CHR '','' default_dns_servers)) None\<rparr>"
  obtain f s1 where l: "resolve_loop ?gai (strtok_all default_dns_servers) 0 0 ?t = (Some f, s1)"
    using resolve_loop_total [of "(0x04030201, 53)" "strtok_all default_dns_servers" 0 0 ?t]
    by (cases "resolve_loop ?gai (strtok_all default_dns_servers) 0 0 ?t") auto
  have c: "cd_compression s1 = False" 
    using resolve_loop_compression [of ?gai "strtok_all default_dns_servers" 0 0 ?t] l
    by (simp add: chinadns_reset_def cdns_init_def Let_def)
  have "resolve_dns_servers ?gai default_dns_servers ?s = (0, s1)"
    using l c by (simp add: resolve_dns_servers_def Let_def chinadns_reset_def cdns_init_def)
  moreover have "parse_chnroute (\<lambda>_. None) [] = Inr (0, [])"
    by (simp add: parse_chnroute_def fgets_lines.simps qsort_def)
  ultimately have r: "chinadns_run (\<lambda>_. None) (Some []) ?gai 0 (\<lambda>_ _ _. None) (\<lambda>_ _. False) [] (cdns_init [] []) = Inr (0, s1, [])"
    by (simp add: chinadns_run_def chinadns_setup_def Let_def)
  with relay_state_ok [OF r] show ?thesis by blast
qed

text \<open>
  Without a route file the relay does not start, although \<open>/etc/resolv.conf\<close> already names it: \<open>Chinadns::start\<close> passes
  on an empty name, which cannot be opened, and reports success.
\<close>

lemma no_route_file_no_relay:
  "fst (Chinadns_start True True (Chinadns_new ''127.0.0.1'' 53 []) resolv) = 0"
  "\<exists>s'. chinadns_run aton None gai sockets dx expired ts s = Inr (1, s', [])"
  by (simp_all add: Chinadns_start_def chinadns_run_def chinadns_setup_def Let_def)

end
