(* ===== verification/DnsOptions.thy ===== *)
theory DnsOptions
  imports DnsMain
begin

text \<open>
  The command line of \<open>src/src/chinadns/chinadns.c\<close>: \<open>parse_args\<close>, the usage text and \<open>setnonblock\<close>. The client of this program starts
  the relay with a function call and does not use the first two, which the stand-alone relay did. \<open>getopt\<close> is modelled as
  its manual describes it: options may be grouped, an argument follows in the same word or is the
  next one, other words are skipped, and \<open>--\<close> ends the options.
\<close>

section \<open>Options\<close>

definition opt_takes :: "char \<Rightarrow> bool option" where
  \<comment> \<open>\<open>hb:p:s:l:c:y:dmvV\<close>; \<open>None\<close>: not an option\<close>
  "opt_takes c =
     (if c \<in> set ''bpslcy'' then Some True else if c \<in> set ''hdmvV'' then Some False else None)"

type_synonym opt = "char \<times> string option"

fun opt_word :: "string \<Rightarrow> string list \<Rightarrow> opt list \<times> string list" where
  "opt_word [] rest = ([], rest)"
| "opt_word (c # cs) rest =
     (case opt_takes c of
        None \<Rightarrow> (case opt_word cs rest of (os, rest) \<Rightarrow> ((CHR ''?'', None) # os, rest))
      | Some False \<Rightarrow> (case opt_word cs rest of (os, rest) \<Rightarrow> ((c, None) # os, rest))
      | Some True \<Rightarrow>
          if cs \<noteq> [] then ([(c, Some cs)], rest)
          else (case rest of [] \<Rightarrow> ([(CHR ''?'', None)], []) | a # as \<Rightarrow> ([(c, Some a)], as)))"

lemma opt_word_length: "length (snd (opt_word w rest)) \<le> length rest"
proof (induction w)
  case (Cons c cs)
  then show ?case by (cases "opt_word cs rest"; cases rest) (auto split: option.splits bool.splits)
qed simp

function getopt :: "string list \<Rightarrow> opt list" where
  "getopt [] = []"
| "getopt (w # ws) =
     (if w = ''--'' then []
      else case w of
        c # d # cs \<Rightarrow>
          if c = CHR ''-'' then fst (opt_word (d # cs) ws) @ getopt (snd (opt_word (d # cs) ws)) else getopt ws
      | _ \<Rightarrow> getopt ws)"
  by pat_completeness auto
termination
  by (relation "measure length") (simp_all del: opt_word.simps add: opt_word_length le_imp_less_Suc)

record 'f dns_opts =
  do_listen_addr :: "string option"
  do_listen_port :: "string option"
  do_dns_servers :: "string option"
  do_chnroute_file :: "string option"
  do_ip_list_file :: "string option"
  do_delay :: 'f
  do_bidirectional :: bool
  do_compression :: bool
  do_verbose :: bool

definition dns_opts_init :: "'f \<Rightarrow> 'f dns_opts" where
  "dns_opts_init delay =
     \<lparr>do_listen_addr = None, do_listen_port = None, do_dns_servers = None, do_chnroute_file = None,
      do_ip_list_file = None, do_delay = delay, do_bidirectional = False, do_compression = False, do_verbose = False\<rparr>"

text \<open>The branches that go on; \<open>Inl code\<close>: \<open>exit(code)\<close>, after the usage text or the version was printed.\<close>

definition opt_step :: "(string \<Rightarrow> 'f) \<Rightarrow> opt \<Rightarrow> 'f dns_opts \<Rightarrow> int + 'f dns_opts" where
  "opt_step atof oa s =
     (case oa of (ch, arg) \<Rightarrow>
      if ch = CHR ''h'' then Inl 0
      else if ch = CHR ''b'' then Inr (s\<lparr>do_listen_addr := arg\<rparr>)
      else if ch = CHR ''p'' then Inr (s\<lparr>do_listen_port := arg\<rparr>)
      else if ch = CHR ''s'' then Inr (s\<lparr>do_dns_servers := arg\<rparr>)
      else if ch = CHR ''c'' then Inr (s\<lparr>do_chnroute_file := arg\<rparr>)
      else if ch = CHR ''l'' then Inr (s\<lparr>do_ip_list_file := arg\<rparr>)
      else if ch = CHR ''y'' then Inr (s\<lparr>do_delay := (case arg of Some a \<Rightarrow> atof a | None \<Rightarrow> do_delay s)\<rparr>)
      else if ch = CHR ''d'' then Inr (s\<lparr>do_bidirectional := True\<rparr>)
      else if ch = CHR ''m'' then Inr (s\<lparr>do_compression := True\<rparr>)
      else if ch = CHR ''v'' then Inr (s\<lparr>do_verbose := True\<rparr>)
      else if ch = CHR ''V'' then Inl 0
      else Inl 1)"

fun opt_loop :: "(string \<Rightarrow> 'f) \<Rightarrow> opt list \<Rightarrow> 'f dns_opts \<Rightarrow> int + 'f dns_opts" where
  "opt_loop atof [] s = Inr s"
| "opt_loop atof (oa # os) s =
     (case opt_step atof oa s of Inl code \<Rightarrow> Inl code | Inr s \<Rightarrow> opt_loop atof os s)"

definition default_listen_addr :: string where "default_listen_addr = ''0.0.0.0''"

definition default_listen_port :: string where "default_listen_port = ''53''"

definition or_default :: "string \<Rightarrow> string option \<Rightarrow> string option" where
  "or_default d x = (if x = None then Some d else x)"

definition parse_args :: "(string \<Rightarrow> 'f) \<Rightarrow> string list \<Rightarrow> 'f dns_opts \<Rightarrow> int + 'f dns_opts" where
  "parse_args atof argv s =
     (case opt_loop atof (getopt (tl argv)) s of
        Inl code \<Rightarrow> Inl code
      | Inr s \<Rightarrow>
          Inr (s\<lparr>do_dns_servers := or_default default_dns_servers (do_dns_servers s),
                 do_listen_addr := or_default default_listen_addr (do_listen_addr s),
                 do_listen_port := or_default default_listen_port (do_listen_port s)\<rparr>))"

section \<open>The usage text\<close>

definition usage_lines :: "string list" where
  "usage_lines =
    [''usage: chinadns [-h] [-l IPLIST_FILE] [-b BIND_ADDR] [-p BIND_PORT]'',
     ''       [-c CHNROUTE_FILE] [-s DNS] [-m] [-v] [-V]'',
     ''Forward DNS requests.'',
     '''',
     ''  -l IPLIST_FILE        path to ip blacklist file'',
     ''  -c CHNROUTE_FILE      path to china route file'',
     ''                        if not specified, CHNRoute will be turned'',
     ''  -d                    off enable bi-directional CHNRoute filter'',
     ''  -y                    delay time for suspects, default: 0.3'',
     ''  -b BIND_ADDR          address that listens, default: 0.0.0.0'',
     ''  -p BIND_PORT          port that listens, default: 53'',
     ''  -s DNS                DNS servers to use, default:'',
     ''                        114.114.114.114,208.67.222.222:443,8.8.8.8'',
     ''  -m                    use DNS compression pointer mutation'',
     ''                        (backlist and delaying would be disabled)'',
     ''  -v                    verbose logging'',
     ''  -h                    show this help message and exit'',
     ''  -V                    print version and exit'',
     '''',
     ''Online help: <https://github.com/clowwindy/ChinaDNS>'']"

definition setnonblock :: "int \<Rightarrow> (int \<Rightarrow> int) \<Rightarrow> int" where
  \<comment> \<open>\<open>flags\<close> and \<open>setfl\<close>: what the two \<open>fcntl\<close> calls return\<close>
  "setnonblock flags setfl = (if flags = -1 then -1 else if setfl (or flags 2048) = -1 then -1 else 0)"

section \<open>What is shown\<close>

text \<open>The settings as a command line, each option in a word of its own.\<close>

definition opt_arg :: "char \<Rightarrow> string option \<Rightarrow> string list" where
  "opt_arg c x = (case x of None \<Rightarrow> [] | Some a \<Rightarrow> [[CHR ''-'', c], a])"

definition opt_flag :: "char \<Rightarrow> bool \<Rightarrow> string list" where
  "opt_flag c b = (if b then [[CHR ''-'', c]] else [])"

definition args_of :: "'f dns_opts \<Rightarrow> string list" where
  "args_of s = ''chinadns'' # opt_arg CHR ''b'' (do_listen_addr s) @ opt_arg CHR ''p'' (do_listen_port s) @
     opt_arg CHR ''s'' (do_dns_servers s) @ opt_arg CHR ''c'' (do_chnroute_file s) @ opt_arg CHR ''l'' (do_ip_list_file s) @
     opt_flag CHR ''d'' (do_bidirectional s) @ opt_flag CHR ''m'' (do_compression s) @ opt_flag CHR ''v'' (do_verbose s)"

lemma getopt_arg: "opt_takes c = Some True \<Longrightarrow> c \<noteq> CHR ''-'' \<Longrightarrow> getopt (opt_arg c x @ ws) = (case x of None \<Rightarrow> [] | Some a \<Rightarrow> [(c, Some a)]) @ getopt ws"
  by (simp add: opt_arg_def split: option.splits)

lemma getopt_flag: "opt_takes c = Some False \<Longrightarrow> c \<noteq> CHR ''-'' \<Longrightarrow> getopt (opt_flag c b @ ws) = (if b then [(c, None)] else []) @ getopt ws"
  by (simp add: opt_flag_def)

text \<open>Parsing these words restores the settings, with the defaults for those that were missing.\<close>

lemma parse_args_of:
  "parse_args atof (args_of s) (dns_opts_init (do_delay s)) =
     Inr (s\<lparr>do_dns_servers := or_default default_dns_servers (do_dns_servers s),
            do_listen_addr := or_default default_listen_addr (do_listen_addr s),
            do_listen_port := or_default default_listen_port (do_listen_port s)\<rparr>)"
proof -
  have t: "opt_takes CHR ''b'' = Some True" "opt_takes CHR ''p'' = Some True" "opt_takes CHR ''s'' = Some True"
    "opt_takes CHR ''c'' = Some True" "opt_takes CHR ''l'' = Some True" "opt_takes CHR ''d'' = Some False"
    "opt_takes CHR ''m'' = Some False" "opt_takes CHR ''v'' = Some False"
    by (simp_all add: opt_takes_def)
  let ?o = "\<lambda>c x. case x of None \<Rightarrow> [] | Some a \<Rightarrow> [(c, Some a)]" let ?f = "\<lambda>c b. if b then [(c, None)] else []"
  have g: "getopt (tl (args_of s)) = ?o CHR ''b'' (do_listen_addr s) @ ?o CHR ''p'' (do_listen_port s) @
     ?o CHR ''s'' (do_dns_servers s) @ ?o CHR ''c'' (do_chnroute_file s) @ ?o CHR ''l'' (do_ip_list_file s) @
     ?f CHR ''d'' (do_bidirectional s) @ ?f CHR ''m'' (do_compression s) @ ?f CHR ''v'' (do_verbose s)"
    using getopt_flag [OF t(8), of "do_verbose s" "[]"] by (simp add: args_of_def getopt_arg getopt_flag t)
  have app: "opt_loop atof (xs @ ys) o1 = (case opt_loop atof xs o1 of Inl e \<Rightarrow> Inl e | Inr o2 \<Rightarrow> opt_loop atof ys o2)" for xs ys o1
    by (induction xs arbitrary: o1) (auto split: sum.splits)
  have "opt_loop atof (getopt (tl (args_of s))) (dns_opts_init (do_delay s)) = Inr s"
    unfolding g app
    by (cases s) (simp add: opt_step_def dns_opts_init_def split: option.splits)
  then show ?thesis by (simp add: parse_args_def)
qed

text \<open>The usage text names other default servers than the program has.\<close>

lemma usage_servers_differ: "usage_lines ! 12 \<noteq> replicate 24 CHR '' '' @ default_dns_servers"
  by (simp add: usage_lines_def default_dns_servers_def)

end
