(* ===== verification/StdMap.thy ===== *)
theory StdMap
  imports Prelude "HOL-Library.List_Lexorder"
begin

text \<open>
  \<open>std::map\<close> as the program uses it: the entries in key order, \<open>find\<close>, assignment through
  \<open>operator[]\<close>, and \<open>erase\<close>. The locale \<open>dict\<close> is what the clients rely on; its lemmas are about
  two maps that are kept in step, a map from names to handles and one from handles to owners.
\<close>

type_synonym ('k, 'v) std_map = "('k \<times> 'v) list"

definition sm_find :: "'k \<Rightarrow> ('k, 'v) std_map \<Rightarrow> 'v option" where
  "sm_find k m = map_of m k"

fun sm_set :: "'k :: linorder \<Rightarrow> 'v \<Rightarrow> ('k, 'v) std_map \<Rightarrow> ('k, 'v) std_map" where
  "sm_set k v [] = [(k, v)]"
| "sm_set k v ((k', v') # m) =
     (if k < k' then (k, v) # (k', v') # m
      else if k = k' then (k, v) # m
      else (k', v') # sm_set k v m)"

definition sm_erase :: "'k \<Rightarrow> ('k, 'v) std_map \<Rightarrow> ('k, 'v) std_map" where
  "sm_erase k m = filter (\<lambda>e. fst e \<noteq> k) m"

definition sm_ok :: "('k :: linorder, 'v) std_map \<Rightarrow> bool" where
  "sm_ok m \<longleftrightarrow> sorted_wrt (<) (map fst m)"

section \<open>The interface\<close>

locale dict =
  fixes find :: "'k \<Rightarrow> 'm \<Rightarrow> 'v option"
    and set :: "'k \<Rightarrow> 'v \<Rightarrow> 'm \<Rightarrow> 'm"
    and erase :: "'k \<Rightarrow> 'm \<Rightarrow> 'm"
    and empty :: 'm
    and invar :: "'m \<Rightarrow> bool"
  assumes invar_empty: "invar empty" and find_empty: "find k empty = None"
    and invar_set: "invar m \<Longrightarrow> invar (set k v m)" and invar_erase: "invar m \<Longrightarrow> invar (erase k m)"
    and find_set: "invar m \<Longrightarrow> find k' (set k v m) = (if k' = k then Some v else find k' m)"
    and find_erase: "invar m \<Longrightarrow> find k' (erase k m) = (if k' = k then None else find k' m)"
begin

lemma find_set_fun: "invar m \<Longrightarrow> (\<lambda>k'. find k' (set k v m)) = (\<lambda>k'. find k' m)(k \<mapsto> v)"
  by (simp add: find_set fun_eq_iff)

lemma find_erase_fun: "invar m \<Longrightarrow> (\<lambda>k'. find k' (erase k m)) = (\<lambda>k'. find k' m)(k := None)"
  by (simp add: find_erase fun_eq_iff)

end

lemma fst_sm_set: "fst ` set (sm_set k v m) = insert k (fst ` set m)"
  by (induction k v m rule: sm_set.induct) auto

lemma sm_ok_set: "sm_ok m \<Longrightarrow> sm_ok (sm_set k v m)"
proof (induction k v m rule: sm_set.induct)
  case (2 k v k' v' m)
  have in_m: "x \<in> insert k (fst ` set m)" if "x \<in> fst ` set (sm_set k v m)" for x
    using that by (simp add: fst_sm_set)
  show ?case
  proof (cases "k < k' \<or> k = k'")
    case True
    then show ?thesis using 2(2) by (auto simp: sm_ok_def)
  next
    case False
    then have "sm_ok (sm_set k v m)" using 2 by (simp add: sm_ok_def)
    moreover have "\<forall>x \<in> fst ` set (sm_set k v m). k' < x"
      using 2(2) False by (auto simp: sm_ok_def fst_sm_set)
    ultimately show ?thesis using False by (auto simp: sm_ok_def)
  qed
qed (simp add: sm_ok_def)

lemma sm_find_set: "sm_find k' (sm_set k v m) = (if k' = k then Some v else sm_find k' m)"
  unfolding sm_find_def by (induction k v m rule: sm_set.induct) auto

lemma sm_find_erase: "sm_find k' (sm_erase k m) = (if k' = k then None else sm_find k' m)"
  unfolding sm_find_def sm_erase_def by (induction m) auto

lemma sm_ok_erase: "sm_ok m \<Longrightarrow> sm_ok (sm_erase k m)"
  by (induction m) (auto simp: sm_ok_def sm_erase_def)

lemma sm_empty: "sm_ok []" "sm_find k [] = None"
  by (simp_all add: sm_ok_def sm_find_def)

interpretation sm: dict sm_find sm_set sm_erase "[]" sm_ok
  by unfold_locales (simp_all add: sm_ok_set sm_ok_erase sm_find_set sm_find_erase sm_empty)

lemma sm_ok_distinct: "sm_ok m \<Longrightarrow> distinct (map fst m)"
  unfolding sm_ok_def by (induction m) auto

lemma sm_find_in: "sm_ok m \<Longrightarrow> (k, v) \<in> set m \<longleftrightarrow> sm_find k m = Some v"
  unfolding sm_find_def using map_of_eq_Some_iff [OF sm_ok_distinct] by metis

section \<open>Two maps in step\<close>

text \<open>
  \<open>paired U I\<close>: every name in \<open>U\<close> has a handle of its own, \<open>I\<close> gives an owner to exactly these
  handles, and no owner has two of them.
\<close>

definition paired :: "('n \<rightharpoonup> 'h) \<Rightarrow> ('h \<rightharpoonup> 'o) \<Rightarrow> bool" where
  "paired U I \<longleftrightarrow> inj_on U (dom U) \<and> inj_on I (dom I) \<and> ran U = dom I"

lemma paired_empty: "paired Map.empty Map.empty"
  by (simp add: paired_def)

lemma paired_handle:
  assumes "paired U I" "U n = Some h"
  shows "\<exists>p. I h = Some p"
  using assms by (metis domD paired_def ranI)

lemma inj_on_map_upd_dom:
  assumes "inj_on f (dom f)" "v \<notin> ran f"
  shows "inj_on (f(k \<mapsto> v)) (dom (f(k \<mapsto> v)))"
proof (rule inj_onI)
  fix x y assume xy: "x \<in> dom (f(k \<mapsto> v))" "y \<in> dom (f(k \<mapsto> v))" "(f(k \<mapsto> v)) x = (f(k \<mapsto> v)) y"
  have ne: "f z \<noteq> Some v" for z using assms(2) by (auto simp: ran_def)
  show "x = y"
  proof (cases "x = k \<or> y = k")
    case True
    then show ?thesis using xy ne by (auto split: if_splits)
  next
    case False
    then show ?thesis using xy assms(1) by (auto dest: inj_onD)
  qed
qed

lemma paired_new:
  assumes p: "paired U I" and n: "U n = None" and h: "I h = None" and q: "q \<notin> ran I"
  shows "paired (U(n \<mapsto> h)) (I(h \<mapsto> q))"
proof -
  have "h \<notin> ran U" using p h by (auto simp: paired_def)
  then show ?thesis
    using p n q inj_on_map_upd_dom [of U h n] inj_on_map_upd_dom [of I q h]
    unfolding paired_def by (simp add: ran_map_upd)
qed

lemma paired_replace:
  assumes p: "paired U I" and n: "U n = Some h" and q: "q \<notin> ran I"
  shows "paired U (I(h \<mapsto> q))"
proof -
  have "h \<in> dom I" using p n by (metis paired_def ranI)
  then show ?thesis
    using p q inj_on_map_upd_dom [of I q h] unfolding paired_def by (simp add: insert_absorb)
qed

lemma paired_remove:
  assumes p: "paired U I" and n: "U n = Some h"
  shows "paired (U(n := None)) (I(h := None))"
proof -
  have "inj_on (U(n := None)) (dom U - {n})" "inj_on (I(h := None)) (dom I - {h})"
    using p by (auto simp: paired_def inj_on_def)
  moreover have "ran (U(n := None)) = dom I - {h}"
  proof -
    have uniq: "m = n" if "U m = Some h" for m
      using p n that by (metis domI inj_onD paired_def)
    have "x \<in> ran (U(n := None)) \<longleftrightarrow> x \<in> ran U \<and> x \<noteq> h" for x
    proof
      assume "x \<in> ran (U(n := None))"
      then obtain m where "m \<noteq> n" "U m = Some x" by (auto simp: ran_def split: if_splits)
      then show "x \<in> ran U \<and> x \<noteq> h" using uniq by (auto intro: ranI)
    next
      assume "x \<in> ran U \<and> x \<noteq> h"
      then obtain m where "U m = Some x" "x \<noteq> h" by (auto simp: ran_def)
      moreover then have "m \<noteq> n" using n by auto
      ultimately show "x \<in> ran (U(n := None))" by (auto simp: ran_def)
    qed
    then have "ran (U(n := None)) = ran U - {h}" by blast
    then show ?thesis using p by (simp add: paired_def)
  qed
  ultimately show ?thesis by (simp add: paired_def)
qed

end
