(* ===== verification/VpnUsers.thy ===== *)
theory VpnUsers
  imports RudpConnect RudpSend StdMap
begin

text \<open>
  Model of \<open>src/src/SharpPackageParser.cpp\<close> and of the bookkeeping of \<open>src/src/SharpVpn.cpp\<close>: which client
  has which tunnel address, which connection serves it, and how packets go from the tunnel device to
  a connection and back. Connections are \<open>conn\<close> objects on a heap of their own, so that a
  deleted one is seen. Each function is one undisturbed piece of a thread; the pieces of
  different threads may come in any order.
\<close>

section \<open>Packets\<close>

record ipv4_hdr =
  ih_ver :: nat
  ih_tos :: nat
  ih_total_len :: nat
  ih_id :: nat
  ih_frag :: nat
  ih_ttl :: nat
  ih_proto :: nat
  ih_checksum :: nat
  ih_saddr :: u32
  ih_daddr :: u32

datatype IpType = ipv4 | ipv6 | unknown_ipver

record SharpPackageParser =
  pp_hdr :: ipv4_hdr
  pp_ip_type :: IpType
  pp_multicast :: bool

text \<open>The fields that \<^verbatim>\<open>(ipv4_hdr_t*)raw\<close> shows, in host byte order.\<close>

definition ipv4_hdr_at :: "bytes \<Rightarrow> ipv4_hdr outcome" where
  "ipv4_hdr_at raw =
     (if length raw < 20 then Inl OutOfBounds
      else
        let f = (\<lambda>n off. le_val (take n (drop off raw))) in
        Inr \<lparr>ih_ver = f 1 0, ih_tos = f 1 1, ih_total_len = f 2 2, ih_id = f 2 4, ih_frag = f 2 6,
             ih_ttl = f 1 8, ih_proto = f 1 9, ih_checksum = f 2 10,
             ih_saddr = of_nat (f 4 12), ih_daddr = of_nat (f 4 16)\<rparr>)"

definition parse_package :: "bytes \<Rightarrow> SharpPackageParser outcome" where
  "parse_package raw =
     bind_out (ipv4_hdr_at raw) (\<lambda>h.
     let ver = (of_nat (ih_ver h) :: u8) in
     Inr \<lparr>pp_hdr = h,
          pp_ip_type = (if ver AND 0xf0 = 0x60 then ipv6 else if ver AND 0xf0 = 0x40 then ipv4 else unknown_ipver),
          pp_multicast = (ih_daddr h AND 0x000000f0 = 0x000000e0)\<rparr>)"

section \<open>Users and addresses\<close>

record vpn_users =
  vu_local_ip :: u32                          \<comment> \<open>\<open>tunnel_ip\<close> of the server's tunnel, host order\<close>
  vu_user_map :: "(bytes, u32) std_map"
  vu_ip_map :: "(u32, nat) std_map"
  vu_heap :: "nat \<rightharpoonup> conn"

definition vpn_users_new :: "u32 \<Rightarrow> vpn_users" where
  "vpn_users_new ip = \<lparr>vu_local_ip = ip, vu_user_map = [], vu_ip_map = [], vu_heap = Map.empty\<rparr>"

definition get_useable_ip :: "vpn_users \<Rightarrow> u32" where
  "get_useable_ip v =
     (case find (\<lambda>i. sm_find (htonl (vu_local_ip v + of_nat i)) (vu_ip_map v) = None) [1..<200] of
        Some i \<Rightarrow> htonl (vu_local_ip v + of_nat i)
      | None \<Rightarrow> 0)"

definition sock_at :: "nat \<Rightarrow> vpn_users \<Rightarrow> conn outcome" where
  "sock_at p v = of_option UseAfterFree (vu_heap v p)"

definition ip_sock :: "u32 \<Rightarrow> vpn_users \<Rightarrow> (nat \<times> conn) outcome" where
  \<comment> \<open>a member call through \<^verbatim>\<open>ip_map[ip]\<close>, which is null for an unknown key\<close>
  "ip_sock ip v =
     bind_out (of_option NullDeref (sm_find ip (vu_ip_map v))) (\<lambda>p.
     bind_out (sock_at p v) (\<lambda>c. Inr (p, c)))"

text \<open>The loop over \<open>user_map\<close> that removes dead connections; \<open>itr\<close> walks over the given entries.\<close>

fun purge_loop :: "(bytes \<times> u32) list \<Rightarrow> vpn_users \<Rightarrow> vpn_users outcome" where
  "purge_loop [] v = Inr v"
| "purge_loop ((token, ip) # itr) v =
     bind_out (ip_sock ip v) (\<lambda>(p, c).
     purge_loop itr
       (if \<not> is_alive (cn_sock c) then
          v\<lparr>vu_heap := (vu_heap v)(p := None), vu_ip_map := sm_erase ip (vu_ip_map v),
            vu_user_map := sm_erase token (vu_user_map v)\<rparr>
        else v))"

definition purge :: "vpn_users \<Rightarrow> vpn_users outcome" where
  "purge v = purge_loop (vu_user_map v) v"

text \<open>
  The token is received into \<^verbatim>\<open>char token[24]\<close>, whose contents \<open>junk\<close> are not initialised, and then read as a
  C string. \<open>recv_package\<close> gets no length, so the buffer's size is the room it must not exceed.
\<close>

definition TOKEN_LEN :: nat where "TOKEN_LEN = 24"

definition c_string :: "bytes \<Rightarrow> bytes outcome" where
  "c_string buf = (if 0 \<in> set buf then Inr (takeWhile (\<lambda>b. b \<noteq> 0) buf) else Inl OutOfBounds)"

definition read_token :: "bytes \<Rightarrow> recv_result \<Rightarrow> bytes outcome" where
  "read_token junk r = c_string (case r of RecvSegment seg \<Rightarrow> overlay seg junk | _ \<Rightarrow> junk)"

text \<open>
  A known user. The old connection is closed (its closing datagram is not kept here), the thread
  sleeps half a second, and then deletes it and puts the new one in its place. Other threads run
  during the pause.
\<close>

definition reconnect_close :: "u32 \<Rightarrow> vpn_users \<Rightarrow> vpn_users outcome" where
  "reconnect_close ip v =
     bind_out (ip_sock ip v) (\<lambda>(old, c).
     Inr (v\<lparr>vu_heap := (vu_heap v)(old \<mapsto> fst (close_addr 0 c))\<rparr>))"

definition reconnect_replace :: "nat \<Rightarrow> u32 \<Rightarrow> vpn_users \<Rightarrow> vpn_users outcome" where
  "reconnect_replace connected_socket ip v =
     bind_out (ip_sock ip v) (\<lambda>(old, c).
     Inr (v\<lparr>vu_heap := (vu_heap v)(old := None), vu_ip_map := sm_set ip connected_socket (vu_ip_map v)\<rparr>))"

definition register :: "nat \<Rightarrow> bytes \<Rightarrow> vpn_users \<Rightarrow> (u32 \<times> vpn_users) outcome" where
  "register connected_socket token_s v =
     (case sm_find token_s (vu_user_map v) of
        None \<Rightarrow>
          let ip = get_useable_ip v in
          Inr (ip, v\<lparr>vu_user_map := sm_set token_s ip (vu_user_map v),
                     vu_ip_map := sm_set ip connected_socket (vu_ip_map v)\<rparr>)
      | Some ip \<Rightarrow>
          bind_out (reconnect_close ip v) (\<lambda>v.
          bind_out (reconnect_replace connected_socket ip v) (\<lambda>v. Inr (ip, v))))"

definition dhcp_bytes :: "u32 \<Rightarrow> bytes" where
  \<comment> \<open>\<open>SharpDhcpInfo\<close>\<close>
  "dhcp_bytes ip = le_enc 4 (unat ip)"

definition send_on :: "nat \<Rightarrow> bytes \<Rightarrow> nat \<Rightarrow> vpn_users \<Rightarrow> vpn_users outcome" where
  "send_on p buf n v =
     bind_out (sock_at p v) (\<lambda>c.
     bind_out (send_package buf n (cn_sock c)) (\<lambda>(_, s).
     Inr (v\<lparr>vu_heap := (vu_heap v)(p \<mapsto> c\<lparr>cn_sock := s\<rparr>)\<rparr>)))"

text \<open>
  The server's part of \<open>func_socket\<close> after the purge; the result is the address that was assigned, or
  \<open>None\<close> while the token has not arrived.
\<close>

definition func_socket_register :: "env \<Rightarrow> bytes \<Rightarrow> nat \<Rightarrow> vpn_users \<Rightarrow> (u32 option \<times> vpn_users) outcome" where
  "func_socket_register e junk p v =
     bind_out (sock_at p v) (\<lambda>c.
     bind_out (recv_package e TOKEN_LEN (cn_sock c)) (\<lambda>(r, s).
     let v = v\<lparr>vu_heap := (vu_heap v)(p \<mapsto> c\<lparr>cn_sock := s\<rparr>)\<rparr> in
     if r = RecvBlocked then Inr (None, v)
     else
       bind_out (read_token junk r) (\<lambda>token_s.
       bind_out (register p token_s v) (\<lambda>(ip, v).
       bind_out (send_on p (dhcp_bytes ip) 4 v) (\<lambda>v. Inr (Some ip, v))))))"

section \<open>Packets between the tunnel and the connections\<close>

datatype pump_result =
    PumpWrite bytes     \<comment> \<open>bytes written to the tunnel\<close>
  | PumpNothing         \<comment> \<open>nothing to write\<close>
  | PumpBadWrite        \<comment> \<open>\<^verbatim>\<open>write(tun_buf, -1)\<close>\<close>
  | PumpExit            \<comment> \<open>the loop ends\<close>

text \<open>
  One turn of the loop of \<open>func_socket\<close>; \<open>soft\<close> tells whether \<open>errno\<close> happens to hold one of the
  tolerated values. A blocked \<open>recv_package\<close> is a turn that does nothing.
\<close>

definition func_socket_turn :: "env \<Rightarrow> bool \<Rightarrow> nat \<Rightarrow> vpn_users \<Rightarrow> (pump_result \<times> vpn_users) outcome" where
  "func_socket_turn e soft p v =
     bind_out (sock_at p v) (\<lambda>c.
     if \<not> is_alive (cn_sock c) then Inr (PumpExit, v)
     else
       bind_out (recv_package e MAX_MTU (cn_sock c)) (\<lambda>(r, s).
       let v = v\<lparr>vu_heap := (vu_heap v)(p \<mapsto> c\<lparr>cn_sock := s\<rparr>)\<rparr> in
       Inr (case r of
              RecvClosed \<Rightarrow> if soft then PumpBadWrite else PumpExit
            | RecvBlocked \<Rightarrow> PumpNothing
            | RecvSegment seg \<Rightarrow> if seg = [] then PumpNothing else PumpWrite seg, v)))"

text \<open>
  One turn of the thread that reads the tunnel. \<open>pkt\<close> is what \<open>read\<close> delivers into \<open>tun_buf\<close>, cut at
  \<open>MAX_MTU\<close>; an empty one stands for an error. \<open>own\<close> is the client's socket.
\<close>

definition forward_turn ::
  "bool \<Rightarrow> nat \<Rightarrow> bytes \<Rightarrow> bytes \<times> vpn_users \<Rightarrow> (bytes \<times> vpn_users) outcome" where
  "forward_turn server own pkt st =
     (let (tun_buf, v) = st; p = take MAX_MTU pkt; tun_buf = overlay p tun_buf in
      if p = [] then Inr (tun_buf, v)
      else
        bind_out (parse_package tun_buf) (\<lambda>parser.
        if pp_ip_type parser \<noteq> ipv4 \<or> pp_multicast parser then Inr (tun_buf, v)
        else if server then
          (case sm_find (ih_daddr (pp_hdr parser)) (vu_ip_map v) of
             None \<Rightarrow> Inr (tun_buf, v)
           | Some q \<Rightarrow>
               bind_out (sock_at q v) (\<lambda>c.
               if \<not> is_alive (cn_sock c) then Inr (tun_buf, v)
               else bind_out (send_on q tun_buf (length p) v) (\<lambda>v. Inr (tun_buf, v))))
        else bind_out (send_on own tun_buf (length p) v) (\<lambda>v. Inr (tun_buf, v))))"

section \<open>The invariant\<close>

abbreviation users :: "vpn_users \<Rightarrow> bytes \<rightharpoonup> u32" where
  "users v \<equiv> \<lambda>t. sm_find t (vu_user_map v)"

abbreviation owners :: "vpn_users \<Rightarrow> u32 \<rightharpoonup> nat" where
  "owners v \<equiv> \<lambda>ip. sm_find ip (vu_ip_map v)"

definition users_ok :: "vpn_users \<Rightarrow> bool" where
  "users_ok v \<longleftrightarrow> sm_ok (vu_user_map v) \<and> sm_ok (vu_ip_map v) \<and> paired (users v) (owners v) \<and>
     ran (owners v) \<subseteq> dom (vu_heap v)"

lemma users_new_ok: "users_ok (vpn_users_new ip)"
  by (simp add: users_ok_def vpn_users_new_def sm_empty paired_empty)

lemmas find_upd [simp] = sm.find_set_fun sm.find_erase_fun

lemma user_sock:
  assumes "users_ok v" "users v t = Some ip"
  shows "\<exists>p c. owners v ip = Some p \<and> vu_heap v p = Some c \<and> ip_sock ip v = Inr (p, c)"
proof -
  obtain p where p: "owners v ip = Some p" using assms paired_handle unfolding users_ok_def by metis
  then have "p \<in> dom (vu_heap v)" using assms(1) ranI [of "owners v" ip p] unfolding users_ok_def by blast
  then show ?thesis using p by (auto simp: ip_sock_def sock_at_def)
qed

lemma paired_other_owner:
  assumes "paired U I" "I h = Some p" "I h' = Some p"
  shows "h' = h"
  using assms by (metis domI inj_onD paired_def)

lemma drop_user_ok:
  assumes ok: "users_ok v" and t: "users v t = Some ip" and p: "owners v ip = Some p"
  shows "users_ok (v\<lparr>vu_heap := (vu_heap v)(p := None), vu_ip_map := sm_erase ip (vu_ip_map v),
      vu_user_map := sm_erase t (vu_user_map v)\<rparr>)"
proof -
  have o: "sm_ok (vu_user_map v)" "sm_ok (vu_ip_map v)" "paired (users v) (owners v)"
      "ran (owners v) \<subseteq> dom (vu_heap v)" using ok by (simp_all add: users_ok_def)
  have "ran ((owners v)(ip := None)) \<subseteq> dom ((vu_heap v)(p := None))"
  proof
    fix q assume "q \<in> ran ((owners v)(ip := None))"
    then obtain ip' where "ip' \<noteq> ip" "owners v ip' = Some q" by (auto simp: ran_def split: if_splits)
    moreover then have "q \<noteq> p" using paired_other_owner [OF o(3) p] by blast
    ultimately show "q \<in> dom ((vu_heap v)(p := None))" using o(4) by (auto intro: ranI)
  qed
  then show ?thesis
    using o paired_remove [OF o(3) t] by (simp add: users_ok_def sm.invar_erase)
qed

definition live_user :: "vpn_users \<Rightarrow> bytes \<Rightarrow> bool" where
  "live_user v t \<longleftrightarrow> (\<exists>ip p c. users v t = Some ip \<and> owners v ip = Some p \<and> vu_heap v p = Some c \<and> is_alive (cn_sock c))"

text \<open>What dropping one user leaves of the others.\<close>

lemma drop_user_others:
  assumes ok: "users_ok v" and t: "users v t = Some ip" and p: "owners v ip = Some p" and ne: "t' \<noteq> t"
    and v1: "v1 = v\<lparr>vu_heap := (vu_heap v)(p := None), vu_ip_map := sm_erase ip (vu_ip_map v),
      vu_user_map := sm_erase t (vu_user_map v)\<rparr>"
  shows "users v1 t' = users v t'" "live_user v1 t' = live_user v t'"
proof -
  have o: "sm_ok (vu_user_map v)" "sm_ok (vu_ip_map v)" "paired (users v) (owners v)"
    using ok by (simp_all add: users_ok_def)
  show u: "users v1 t' = users v t'" using o ne by (simp add: v1 sm.find_erase)
  have "owners v1 ip' = owners v ip' \<and> (\<forall>q. owners v ip' = Some q \<longrightarrow> vu_heap v1 q = vu_heap v q)"
    if "users v t' = Some ip'" for ip'
  proof -
    have "ip' \<noteq> ip" using o(3) t that ne unfolding paired_def by (metis domI inj_onD)
    then show ?thesis using paired_other_owner [OF o(3) p] o(2) by (auto simp: v1 sm.find_erase)
  qed
  then show "live_user v1 t' = live_user v t'" unfolding live_user_def u by metis
qed

lemma purge_loop_ok:
  "users_ok v \<Longrightarrow> distinct (map fst itr) \<Longrightarrow> \<forall>(t, ip) \<in> set itr. users v t = Some ip \<Longrightarrow>
   \<exists>v'. purge_loop itr v = Inr v' \<and> users_ok v' \<and> vu_local_ip v' = vu_local_ip v \<and>
     (\<forall>t. users v' t = (if t \<in> fst ` set itr \<and> \<not> live_user v t then None else users v t)) \<and>
     (\<forall>t. users v' t \<noteq> None \<longrightarrow> live_user v' t = live_user v t)"
proof (induction itr arbitrary: v)
  case Nil
  then show ?case by simp
next
  case (Cons e itr)
  obtain t ip where e: "e = (t, ip)" by fastforce
  have t: "users v t = Some ip" using Cons.prems(3) e by simp
  obtain p c where pc: "owners v ip = Some p" "vu_heap v p = Some c" "ip_sock ip v = Inr (p, c)"
    using user_sock [OF Cons.prems(1) t] by blast
  have lt: "live_user v t \<longleftrightarrow> is_alive (cn_sock c)" using t pc by (simp add: live_user_def)
  have tn: "t \<notin> fst ` set itr" "distinct (map fst itr)" using Cons.prems(2) e by auto
  have known: "\<forall>(t, ip) \<in> set itr. users v t = Some ip" using Cons.prems(3) by simp
  show ?case
  proof (cases "is_alive (cn_sock c)")
    case True
    have "purge_loop (e # itr) v = purge_loop itr v" using True pc(3) e by simp
    moreover obtain v' where v': "purge_loop itr v = Inr v'" "users_ok v'" "vu_local_ip v' = vu_local_ip v"
        "\<And>t. users v' t = (if t \<in> fst ` set itr \<and> \<not> live_user v t then None else users v t)"
        "\<And>t. users v' t \<noteq> None \<Longrightarrow> live_user v' t = live_user v t"
      using Cons.IH [OF Cons.prems(1) tn(2) known] by blast
    moreover have "users v' t' = (if t' \<in> fst ` set (e # itr) \<and> \<not> live_user v t' then None else users v t')" for t'
      using v'(4) [of t'] lt True e by (cases "t' = t") auto
    ultimately show ?thesis by metis
  next
    case False
    define v1 where "v1 = v\<lparr>vu_heap := (vu_heap v)(p := None), vu_ip_map := sm_erase ip (vu_ip_map v),
      vu_user_map := sm_erase t (vu_user_map v)\<rparr>"
    note other = drop_user_others [OF Cons.prems(1) t pc(1) _ v1_def]
    have ok1: "users_ok v1" using drop_user_ok [OF Cons.prems(1) t pc(1)] by (simp add: v1_def)
    have n: "users v1 t = None" using Cons.prems(1) by (simp add: v1_def users_ok_def sm.find_erase)
    have "\<forall>(t', ip') \<in> set itr. users v1 t' = Some ip'"
    proof (intro ballI, clarify)
      fix t' ip' assume i: "(t', ip') \<in> set itr"
      then have "t' \<noteq> t" using tn(1) by (metis fst_conv image_eqI)
      then show "users v1 t' = Some ip'" using i known other(1) by auto
    qed
    then obtain v' where v': "purge_loop itr v1 = Inr v'" "users_ok v'" "vu_local_ip v' = vu_local_ip v1"
        "\<And>t. users v' t = (if t \<in> fst ` set itr \<and> \<not> live_user v1 t then None else users v1 t)"
        "\<And>t. users v' t \<noteq> None \<Longrightarrow> live_user v' t = live_user v1 t"
      using Cons.IH [OF ok1 tn(2)] by blast
    have "purge_loop (e # itr) v = Inr v'" using False pc(3) e v'(1) by (simp add: v1_def)
    moreover have "users v' t' = (if t' \<in> fst ` set (e # itr) \<and> \<not> live_user v t' then None else users v t')" for t'
      using v'(4) [of t'] other [of t'] n lt False tn(1) e by (cases "t' = t") auto
    moreover have "live_user v' t' = live_user v t'" if "users v' t' \<noteq> None" for t'
      using v'(4,5) [of t'] that other(2) [of t'] n by (cases "t' = t") (auto split: if_splits)
    moreover have "vu_local_ip v' = vu_local_ip v" using v'(3) by (simp add: v1_def)
    ultimately show ?thesis using v'(2) by blast
  qed
qed

lemma purge_ok:
  assumes "users_ok v"
  shows "\<exists>v'. purge v = Inr v' \<and> users_ok v' \<and> vu_local_ip v' = vu_local_ip v \<and>
     (\<forall>t. users v' t = (if live_user v t then users v t else None)) \<and> (\<forall>t. users v' t \<noteq> None \<longrightarrow> live_user v' t)"
proof -
  have ok: "sm_ok (vu_user_map v)" using assms by (simp add: users_ok_def)
  have "\<forall>(t, ip) \<in> set (vu_user_map v). users v t = Some ip" using sm_find_in [OF ok] by auto
  then obtain v' where v': "purge v = Inr v'" "users_ok v'" "vu_local_ip v' = vu_local_ip v"
      "\<And>t. users v' t = (if t \<in> fst ` set (vu_user_map v) \<and> \<not> live_user v t then None else users v t)"
      "\<And>t. users v' t \<noteq> None \<Longrightarrow> live_user v' t = live_user v t"
    using purge_loop_ok [OF assms sm_ok_distinct [OF ok]] unfolding purge_def by blast
  have known: "t \<in> fst ` set (vu_user_map v)" if "users v t \<noteq> None" for t
    using that map_of_eq_None_iff [of "vu_user_map v" t] by (auto simp: sm_find_def)
  have "users v' t = (if live_user v t then users v t else None)" for t
    using v'(4) [of t] known [of t] by (cases "users v t = None") auto
  then show ?thesis using v'(1,2,3,5) by (metis option.distinct(1))
qed

section \<open>Registration\<close>

lemma dom_find: "dom (\<lambda>k. sm_find k m) = fst ` set m"
  by (auto simp: sm_find_def dom_map_of_conv_image_fst)

lemma get_useable_ip_free:
  assumes "length (vu_ip_map v) < 199"
  shows "owners v (get_useable_ip v) = None \<and> (\<exists>i. 1 \<le> i \<and> i < 200 \<and> get_useable_ip v = htonl (vu_local_ip v + of_nat i))"
proof (cases "find (\<lambda>i. owners v (htonl (vu_local_ip v + of_nat i)) = None) [1..<200]")
  case None
  let ?a = "\<lambda>i. htonl (vu_local_ip v + of_nat i)"
  have "inj_on ?a {1..<200}"
  proof (rule inj_onI)
    fix x y assume xy: "x \<in> {1..<200}" "y \<in> {1..<200}" "?a x = ?a y"
    then have "(of_nat x :: u32) = of_nat y" by (simp only: htonl_inject) simp
    then have "unat (of_nat x :: u32) = unat (of_nat y :: u32)" by simp
    then show "x = y" using xy(1,2) by (simp add: unat_of_nat take_bit_eq_mod)
  qed
  then have "card (?a ` {1..<200}) = 199" by (simp add: card_image)
  moreover have "?a ` {1..<200} \<subseteq> fst ` set (vu_ip_map v)"
    using None unfolding find_None_iff dom_find [symmetric] by auto
  then have "card (?a ` {1..<200}) \<le> card (fst ` set (vu_ip_map v))" by (intro card_mono) auto
  moreover have "card (fst ` set (vu_ip_map v)) \<le> length (vu_ip_map v)"
    by (metis card_length length_map list.set_map)
  ultimately show ?thesis using assms by simp
next
  case (Some i)
  then have "i \<in> set [1..<200]" "owners v (htonl (vu_local_ip v + of_nat i)) = None"
    unfolding find_Some_iff by auto
  then show ?thesis using Some by (auto simp: get_useable_ip_def)
qed

text \<open>The two halves of a new connection of a known user, one after the other.\<close>

lemma register_known:
  assumes "users v t = Some ip" "ip_sock ip v = Inr (q, d)"
  shows "register p t v = Inr (ip, v\<lparr>vu_heap := (vu_heap v)(q := None), vu_ip_map := sm_set ip p (vu_ip_map v)\<rparr>)"
proof -
  have "owners v ip = Some q" using assms(2) by (auto simp: ip_sock_def sock_at_def bind_out_eq_Inr_iff of_option_eq_Inr_iff)
  then have "ip_sock ip (v\<lparr>vu_heap := (vu_heap v)(q \<mapsto> x)\<rparr>) = Inr (q, x)" for x
    by (simp add: ip_sock_def sock_at_def)
  then show ?thesis using assms by (simp add: register_def reconnect_close_def reconnect_replace_def)
qed

lemma register_ok:
  assumes ok: "users_ok v" and p: "vu_heap v p = Some c" "p \<notin> ran (owners v)"
    and room: "users v t \<noteq> None \<or> length (vu_ip_map v) < 199"
  shows "\<exists>ip v'. register p t v = Inr (ip, v') \<and> users_ok v' \<and> vu_heap v' p = Some c \<and>
     users v' = (users v)(t \<mapsto> ip) \<and> owners v' = (owners v)(ip \<mapsto> p)"
proof -
  have o: "sm_ok (vu_user_map v)" "sm_ok (vu_ip_map v)" "paired (users v) (owners v)"
      "ran (owners v) \<subseteq> dom (vu_heap v)" using ok by (simp_all add: users_ok_def)
  show ?thesis
  proof (cases "users v t")
    case None
    let ?ip = "get_useable_ip v"
    have fr: "owners v ?ip = None" using get_useable_ip_free room None by blast
    define v' where "v' = v\<lparr>vu_user_map := sm_set t ?ip (vu_user_map v), vu_ip_map := sm_set ?ip p (vu_ip_map v)\<rparr>"
    have u: "users v' = (users v)(t \<mapsto> ?ip)" "owners v' = (owners v)(?ip \<mapsto> p)" using o by (simp_all add: v'_def)
    have "paired (users v') (owners v')" unfolding u by (rule paired_new [OF o(3) None fr p(2)])
    moreover have "ran (owners v') \<subseteq> dom (vu_heap v')" using o(4) p fr unfolding u by (auto simp: v'_def)
    ultimately have "users_ok v'" using o by (simp add: users_ok_def v'_def sm.invar_set)
    moreover have "register p t v = Inr (?ip, v')" using None by (simp add: register_def v'_def Let_def)
    ultimately show ?thesis using u p(1) by (intro exI [of _ ?ip] exI [of _ v']) (simp add: v'_def)
  next
    case (Some ip)
    obtain q d where q: "owners v ip = Some q" "ip_sock ip v = Inr (q, d)" using user_sock [OF ok Some] by blast
    have ne: "q \<noteq> p" using q(1) p(2) by (auto simp: ran_def)
    define v' where "v' = v\<lparr>vu_heap := (vu_heap v)(q := None), vu_ip_map := sm_set ip p (vu_ip_map v)\<rparr>"
    have u: "users v' = users v" "owners v' = (owners v)(ip \<mapsto> p)" using o by (simp_all add: v'_def)
    have "paired (users v') (owners v')" unfolding u by (rule paired_replace [OF o(3) Some p(2)])
    moreover have "ran (owners v') \<subseteq> dom (vu_heap v')"
    proof
      fix r assume "r \<in> ran (owners v')"
      then have "r = p \<or> (\<exists>ip'. ip' \<noteq> ip \<and> owners v ip' = Some r)" unfolding u by (auto simp: ran_def split: if_splits)
      then show "r \<in> dom (vu_heap v')"
      proof
        assume "r = p"
        then show ?thesis using p(1) ne by (auto simp: v'_def)
      next
        assume "\<exists>ip'. ip' \<noteq> ip \<and> owners v ip' = Some r"
        then obtain ip' where i: "ip' \<noteq> ip" "owners v ip' = Some r" by blast
        then have "r \<noteq> q" using paired_other_owner [OF o(3) q(1)] by blast
        moreover have "r \<in> dom (vu_heap v)" using o(4) i(2) ranI [of "owners v" ip' r] by blast
        ultimately show ?thesis by (simp add: v'_def)
      qed
    qed
    ultimately have "users_ok v'" using o by (simp add: users_ok_def v'_def sm.invar_set)
    moreover have "register p t v = Inr (ip, v')" using Some q register_known by (simp add: v'_def)
    moreover have "(users v)(t \<mapsto> ip) = users v" using Some by (simp add: fun_upd_idem)
    ultimately show ?thesis using u p(1) ne by (intro exI [of _ ip] exI [of _ v']) (simp add: v'_def)
  qed
qed

lemma heap_upd_ok:
  assumes "users_ok v"
  shows "users_ok (v\<lparr>vu_heap := (vu_heap v)(p \<mapsto> c)\<rparr>)"
  using assms by (auto simp: users_ok_def)

lemma send_on_ok: "users_ok v \<Longrightarrow> send_on p buf n v = Inr v' \<Longrightarrow> users_ok v'"
  by (auto simp: send_on_def bind_out_eq_Inr_iff heap_upd_ok)

lemma func_socket_register_ok:
  assumes ok: "users_ok v" and p: "p \<notin> ran (owners v)" and room: "length (vu_ip_map v) < 199"
    and r: "func_socket_register e junk p v = Inr (r, v')"
  shows "users_ok v'"
proof -
  obtain c rr s where c: "vu_heap v p = Some c" "recv_package e TOKEN_LEN (cn_sock c) = Inr (rr, s)"
    using r by (auto simp: func_socket_register_def bind_out_eq_Inr_iff sock_at_def of_option_eq_Inr_iff)
  define v1 where "v1 = v\<lparr>vu_heap := (vu_heap v)(p \<mapsto> c\<lparr>cn_sock := s\<rparr>)\<rparr>"
  have ok1: "users_ok v1" "vu_heap v1 p = Some (c\<lparr>cn_sock := s\<rparr>)" "p \<notin> ran (owners v1)" "length (vu_ip_map v1) < 199"
    using heap_upd_ok [OF ok] p room by (simp_all add: v1_def)
  show ?thesis
  proof (cases "rr = RecvBlocked")
    case True
    then show ?thesis using r c ok1(1) by (simp add: func_socket_register_def sock_at_def v1_def)
  next
    case False
    then obtain tok ip v2 where t: "register p tok v1 = Inr (ip, v2)" "send_on p (dhcp_bytes ip) 4 v2 = Inr v'"
      using r c by (auto simp: func_socket_register_def sock_at_def v1_def bind_out_eq_Inr_iff)
    then show ?thesis using register_ok [OF ok1(1,2,3), of tok] ok1(4) send_on_ok by auto
  qed
qed

lemma func_socket_turn_ok: "users_ok v \<Longrightarrow> func_socket_turn e soft p v = Inr (r, v') \<Longrightarrow> users_ok v'"
  by (auto simp: func_socket_turn_def Let_def bind_out_eq_Inr_iff heap_upd_ok split: if_splits)

lemma forward_turn_ok: "users_ok v \<Longrightarrow> forward_turn server own pkt (buf, v) = Inr (buf', v') \<Longrightarrow> users_ok v'"
  by (auto simp: forward_turn_def Let_def bind_out_eq_Inr_iff split: if_splits option.splits dest: send_on_ok)

section \<open>Reachable states\<close>

text \<open>
  The server from its start on: connections are accepted, worker threads change their connection in any
  way (a connection may die at any time), and the threads of \<open>SharpVpn\<close> run their pieces. \<open>register\<close> is
  restricted to executions with fewer than 199 registered addresses.
\<close>

inductive vpn_reach :: "env \<Rightarrow> u32 \<Rightarrow> vpn_users \<Rightarrow> bool" for e :: env and ip :: u32 where
  start: "vpn_reach e ip (vpn_users_new ip)"
| accept: "vpn_reach e ip v \<Longrightarrow> vu_heap v p = None \<Longrightarrow> vpn_reach e ip (v\<lparr>vu_heap := (vu_heap v)(p \<mapsto> c)\<rparr>)"
| worker: "vpn_reach e ip v \<Longrightarrow> vu_heap v p = Some c \<Longrightarrow> vpn_reach e ip (v\<lparr>vu_heap := (vu_heap v)(p \<mapsto> c')\<rparr>)"
| purge: "vpn_reach e ip v \<Longrightarrow> purge v = Inr v' \<Longrightarrow> vpn_reach e ip v'"
| register: "vpn_reach e ip v \<Longrightarrow> p \<notin> ran (owners v) \<Longrightarrow> length (vu_ip_map v) < 199 \<Longrightarrow>
    func_socket_register e junk p v = Inr (r, v') \<Longrightarrow> vpn_reach e ip v'"
| turn: "vpn_reach e ip v \<Longrightarrow> func_socket_turn e soft p v = Inr (r', v') \<Longrightarrow> vpn_reach e ip v'"
| forward: "vpn_reach e ip v \<Longrightarrow> forward_turn True own pkt (buf, v) = Inr (buf', v') \<Longrightarrow> vpn_reach e ip v'"

lemma vpn_reach_ok: "vpn_reach e ip v \<Longrightarrow> users_ok v"
proof (induction rule: vpn_reach.induct)
  case start
  show ?case by (rule users_new_ok)
next
  case (purge v v')
  then show ?case using purge_ok [of v] by auto
next
  case (register v p junk r v')
  then show ?case using func_socket_register_ok by blast
next
  case (turn v soft p r' v')
  then show ?case using func_socket_turn_ok by blast
next
  case (forward v own pkt buf buf' v')
  then show ?case using forward_turn_ok by blast
qed (simp_all add: heap_upd_ok)


definition dead_conn :: conn where
  "dead_conn = conn_new (fresh_sock\<lparr>so_worker_running := False\<rparr>)"

definition demo_users :: vpn_users where
  "demo_users = \<lparr>vu_local_ip = 0x0a070001, vu_user_map = [([97], 0x0200070a)], vu_ip_map = [(0x0200070a, 3)],
     vu_heap = [3 \<mapsto> dead_conn]\<rparr>"

lemma htonl_demo: "htonl 0x0a070002 = 0x0200070a"
  by (simp add: htonl_def bswap_def le_enc_4)

lemma demo_users_reach: "vpn_reach clear_env 0x0a070001 demo_users"
proof -
  let ?v0 = "vpn_users_new 0x0a070001" and ?junk = "97 # replicate 23 0 :: bytes"
  let ?v1 = "?v0\<lparr>vu_heap := (vu_heap ?v0)(3 \<mapsto> dead_conn)\<rparr>"
  have r1: "vpn_reach clear_env 0x0a070001 ?v1"
    by (rule vpn_reach.accept [OF vpn_reach.start]) (simp add: vpn_users_new_def)
  have rp: "recv_package clear_env TOKEN_LEN (cn_sock dead_conn) = Inr (RecvClosed, cn_sock dead_conn)"
    by (simp add: recv_package_def dead_conn_def conn_new_def fresh_sock_def rsock_new_def SegmentParser_next_def
        SegmentParser_new_def recv_wait.simps PackageMap_find_def PackageMap_new_def slot_def Let_def)
  have ip: "get_useable_ip ?v1 = 0x0200070a"
    by (simp add: get_useable_ip_def vpn_users_new_def sm_find_def upt_rec htonl_demo)
  have "func_socket_register clear_env ?junk 3 ?v1 = Inr (Some 0x0200070a, demo_users)"
    using rp ip
    by (simp add: func_socket_register_def sock_at_def Let_def read_token_def c_string_def register_def
        send_on_def send_package_def demo_users_def vpn_users_new_def sm_find_def
        dead_conn_def conn_new_def is_alive_def)
  then show ?thesis
    by (intro vpn_reach.register [OF r1]) (simp_all add: vpn_users_new_def sm_find_def)
qed


section \<open>What happens to packets and clients\<close>

lemma unat_of_le_val4: "length bs = 4 \<Longrightarrow> unat (of_nat (le_val bs) :: u32) = le_val bs"
  using le_val_bound [of bs] by (simp add: unat_of_nat take_bit_eq_mod)

lemma of_nat_le_enc4: "(of_nat (le_val (le_enc 4 (unat x))) :: u32) = x"
  by (simp add: le_val_enc_u32)

text \<open>A packet is looked at through its first 20 bytes only.\<close>

definition packet_to :: "u32 \<Rightarrow> bytes \<Rightarrow> bool" where
  "packet_to ip pkt \<longleftrightarrow> 20 \<le> length pkt \<and> length pkt \<le> MAX_MTU \<and> hd pkt AND 0xf0 = 0x40 \<and>
     take 4 (drop 16 pkt) = le_enc 4 (unat ip)"

lemma parse_packet_to:
  assumes "packet_to ip pkt"
  shows "\<exists>parser. parse_package (overlay pkt buf) = Inr parser \<and> pp_ip_type parser = ipv4 \<and>
     ih_daddr (pp_hdr parser) = ip \<and> pp_multicast parser = (ip AND 0xf0 = 0xe0)"
proof -
  have l: "20 \<le> length pkt" "take 4 (drop 16 pkt) = le_enc 4 (unat ip)" "hd pkt AND 0xf0 = 0x40"
    using assms by (simp_all add: packet_to_def)
  have d: "take 4 (drop 16 (overlay pkt buf)) = le_enc 4 (unat ip)" using l by (simp add: overlay_def)
  have h: "take 1 (drop 0 (overlay pkt buf)) = [hd pkt]"
    using l(1) by (cases pkt) (simp_all add: overlay_def)
  have "\<not> length (overlay pkt buf) < 20" using l(1) by (simp add: overlay_def)
  then show ?thesis
    using l(3) unfolding parse_package_def ipv4_hdr_at_def Let_def d h by (simp add: of_nat_le_enc4)
qed

text \<open>
  C26: Forwarding. A server that reads from its tunnel an IPv4 unicast packet whose destination is the address of a
  user with a running connection hands exactly the bytes of the packet to this connection, as the
  newest segment to send, and changes nothing else. A packet to an address that no user has is dropped.
\<close>

theorem forward_reaches_user:
  assumes ok: "users_ok v" and pkt: "packet_to a pkt" "a AND 0xf0 \<noteq> 0xe0"
  shows "(owners v a = None \<longrightarrow> forward_turn True own pkt (buf, v) = Inr (overlay pkt buf, v)) \<and>
     (\<forall>p c. owners v a = Some p \<and> vu_heap v p = Some c \<and> is_alive (cn_sock c) \<longrightarrow>
        forward_turn True own pkt (buf, v) =
          Inr (overlay pkt buf, v\<lparr>vu_heap := (vu_heap v)(p \<mapsto> c\<lparr>cn_sock :=
            (cn_sock c)\<lparr>so_segment_list := PackageSegmentList_push pkt (so_segment_list (cn_sock c))\<rparr>\<rparr>)\<rparr>))"
proof -
  obtain parser where parser: "parse_package (overlay pkt buf) = Inr parser" "pp_ip_type parser = ipv4"
      "ih_daddr (pp_hdr parser) = a" "\<not> pp_multicast parser"
    using parse_packet_to [OF pkt(1)] pkt(2) by metis
  have t: "take MAX_MTU pkt = pkt" "pkt \<noteq> []" using pkt(1) by (auto simp: packet_to_def)
  have seg: "PackageSegment_new (overlay pkt buf) (length pkt) = Inr pkt"
    by (simp add: PackageSegment_new_def overlay_def)
  have "forward_turn True own pkt (buf, v) =
          Inr (overlay pkt buf, v\<lparr>vu_heap := (vu_heap v)(p \<mapsto> c\<lparr>cn_sock :=
            (cn_sock c)\<lparr>so_segment_list := PackageSegmentList_push pkt (so_segment_list (cn_sock c))\<rparr>\<rparr>)\<rparr>)"
    if "owners v a = Some p" "vu_heap v p = Some c" "is_alive (cn_sock c)" for p c
    using that parser t seg by (simp add: forward_turn_def sock_at_def send_on_def send_package_def is_alive_def)
  moreover have "forward_turn True own pkt (buf, v) = Inr (overlay pkt buf, v)" if "owners v a = None"
    using that parser t by (simp add: forward_turn_def)
  ultimately show ?thesis by blast
qed

definition demo_packet :: bytes where
  "demo_packet = 0x45 # replicate 15 0 @ [10, 7, 0, 2]"

theorem forward_reaches_user_witness:
  "forward_turn True 0 demo_packet (replicate 1600 0, demo_users\<lparr>vu_heap := [3 \<mapsto> conn_new fresh_sock]\<rparr>) =
     Inr (overlay demo_packet (replicate 1600 0), demo_users\<lparr>vu_heap := [3 \<mapsto> conn_new (fresh_sock\<lparr>so_segment_list :=
        PackageSegmentList_push demo_packet (so_segment_list fresh_sock)\<rparr>)]\<rparr>)"
proof -
  let ?v = "demo_users\<lparr>vu_heap := [3 \<mapsto> conn_new fresh_sock]\<rparr>"
  have "vpn_reach clear_env 0x0a070001 ?v"
    using vpn_reach.worker [OF demo_users_reach, of 3 dead_conn "conn_new fresh_sock"] by (simp add: demo_users_def)
  then have ok: "users_ok ?v" by (rule vpn_reach_ok)
  have "take 4 (drop 16 demo_packet) = le_enc 4 (unat (0x0200070a :: u32))"
    by (simp add: demo_packet_def le_enc_4)
  then have p: "packet_to 0x0200070a demo_packet" by (simp add: packet_to_def demo_packet_def MAX_MTU_def)
  have o: "owners ?v 0x0200070a = Some 3" "vu_heap ?v 3 = Some (conn_new fresh_sock)" "is_alive (cn_sock (conn_new fresh_sock))"
    by (simp_all add: demo_users_def sm_find_def conn_new_def is_alive_def fresh_sock_def)
  have c: "(conn_new fresh_sock)\<lparr>cn_sock := (cn_sock (conn_new fresh_sock))\<lparr>so_segment_list :=
        PackageSegmentList_push demo_packet (so_segment_list (cn_sock (conn_new fresh_sock)))\<rparr>\<rparr> =
      conn_new (fresh_sock\<lparr>so_segment_list := PackageSegmentList_push demo_packet (so_segment_list fresh_sock)\<rparr>)"
    by (simp add: conn_new_def)
  have "(0x0200070a :: u32) AND 0xf0 \<noteq> 0xe0" by simp
  from forward_reaches_user [OF ok p this, of 0 "replicate 1600 0"] o show ?thesis
    unfolding c [symmetric] by (simp add: demo_users_def)
qed

text \<open>
  A full address range. Once all 199 addresses are taken, \<open>get_useable_ip\<close> returns 0 and nobody checks
  it: two further clients both get the address 0, and the connection of the first one is replaced by
  that of the second.
\<close>

lemma full_range_shares_zero:
  assumes full: "\<forall>i \<in> {1..<200}. owners v (htonl (vu_local_ip v + of_nat i)) \<noteq> None"
    and new: "users v t = None" "users v t' = None" "t \<noteq> t'"
  shows "\<exists>v1 v2. register p t v = Inr (0, v1) \<and> register p' t' v1 = Inr (0, v2) \<and>
     users v2 t = Some 0 \<and> users v2 t' = Some 0 \<and> owners v2 0 = Some p'"
proof -
  have z: "get_useable_ip w = 0"
    if "vu_local_ip w = vu_local_ip v" "\<And>a. owners v a \<noteq> None \<Longrightarrow> owners w a \<noteq> None" for w
  proof -
    have "find (\<lambda>i. owners w (htonl (vu_local_ip w + of_nat i)) = None) [1..<200] = None"
      using full that unfolding find_None_iff by auto
    then show ?thesis by (simp add: get_useable_ip_def)
  qed
  define v1 where "v1 = v\<lparr>vu_user_map := sm_set t 0 (vu_user_map v), vu_ip_map := sm_set 0 p (vu_ip_map v)\<rparr>"
  have "get_useable_ip v1 = 0" by (rule z) (simp_all add: v1_def sm_find_set)
  moreover have "users v1 t' = None" using new by (simp add: v1_def sm_find_set)
  moreover have "register p t v = Inr (0, v1)" using new(1) z [of v] by (simp add: register_def v1_def)
  ultimately show ?thesis using new(3) by (simp add: register_def v1_def sm_find_set)
qed

definition full_users :: vpn_users where
  "full_users = (vpn_users_new 0x0a070001)\<lparr>vu_ip_map := map (\<lambda>i. (htonl (0x0a070001 + of_nat i), i)) [1..<200]\<rparr>"

lemma full_range_shares_zero_witness:
  "\<exists>v1 v2. register 500 [97] full_users = Inr (0, v1) \<and> register 501 [98] v1 = Inr (0, v2) \<and>
     users v2 [97] = Some 0 \<and> users v2 [98] = Some 0 \<and> owners v2 0 = Some 501"
proof -
  have "owners full_users (htonl (vu_local_ip full_users + of_nat i)) \<noteq> None" if "i \<in> {1..<200}" for i
  proof -
    have "htonl (0x0a070001 + of_nat i) \<in> fst ` set (vu_ip_map full_users)"
      using that by (force simp: full_users_def)
    then have "htonl (0x0a070001 + of_nat i) \<in> dom (owners full_users)" by (simp only: dom_find)
    moreover have "vu_local_ip full_users = 0x0a070001" by (simp add: full_users_def vpn_users_new_def)
    ultimately show ?thesis by (simp only: domIff not_False_eq_True)
  qed
  then show ?thesis
    using full_range_shares_zero [of full_users "[97]" "[98]" 500 501]
    by (simp add: full_users_def vpn_users_new_def sm_find_def)
qed

text \<open>
  A client that connects again. The old connection is closed first, so a turn that its thread takes
  during the half second before the deletion leaves the loop; nothing waits for that turn, and
  one that comes later uses freed memory.
\<close>

lemma reconnect_race:
  assumes ok: "users_ok v" and t: "users v t = Some a" "owners v a = Some q"
  shows "\<exists>v1 v2. reconnect_close a v = Inr v1 \<and> func_socket_turn e soft q v1 = Inr (PumpExit, v1) \<and>
     reconnect_replace p a v1 = Inr v2 \<and> func_socket_turn e soft q v2 = Inl UseAfterFree"
proof -
  obtain c where c: "ip_sock a v = Inr (q, c)" using user_sock [OF ok t(1)] t(2) by auto
  let ?v1 = "v\<lparr>vu_heap := (vu_heap v)(q \<mapsto> fst (close_addr 0 c))\<rparr>"
  have "ip_sock a ?v1 = Inr (q, fst (close_addr 0 c))" using t(2) by (simp add: ip_sock_def sock_at_def)
  then show ?thesis using c
    by (simp add: reconnect_close_def reconnect_replace_def func_socket_turn_def sock_at_def close_addr_def
      stop_all_thread_def is_alive_def)
qed

lemma reconnect_race_witness:
  "\<exists>v1 v2. reconnect_close 0x0200070a demo_users = Inr v1 \<and> func_socket_turn clear_env False 3 v1 = Inr (PumpExit, v1) \<and>
     reconnect_replace 8 0x0200070a v1 = Inr v2 \<and> func_socket_turn clear_env False 3 v2 = Inl UseAfterFree"
  by (rule reconnect_race [OF vpn_reach_ok [OF demo_users_reach], where t = "[97]"])
    (simp_all add: demo_users_def sm_find_def)

text \<open>
  The token of a client is received into 24 bytes whatever its length: when the first segment of a new
  connection is longer, \<open>func_socket\<close> writes behind its stack buffer.
\<close>

lemma long_token_overflows:
  assumes "vu_heap v p = Some c" "so_segment_recv (cn_sock c) = sp" "sp_at sp (seg # segs)"
    and "24 < length seg" "length seg < 65536"
  shows "func_socket_register e junk p v = Inl OutOfBounds"
proof -
  obtain tail where t: "drop (sp_start sp) (sp_buf sp) = seg_plain (seg # segs) @ tail" "sp_len sp \<noteq> 0"
    using assms(3) by (auto simp: sp_at_def)
  then have t': "drop (sp_start sp) (sp_buf sp) = le_enc 2 (length seg) @ seg @ seg_plain segs @ tail"
    by (simp add: seg_plain_def seg_frame_def)
  have "length (sp_buf sp) - sp_start sp = 2 + length seg + length (seg_plain segs) + length tail"
    using arg_cong [OF t', of length] by simp
  then have "sp_start sp + 2 \<le> length (sp_buf sp)" by linarith
  then have "get_le 2 (sp_start sp) (sp_buf sp) = Inr (length seg)"
    using t' assms(5) by (simp add: get_le_def le_val_enc)
  then have "SegmentParser_next TOKEN_LEN sp = Inl OutOfBounds"
    using t(2) assms(4) by (simp add: SegmentParser_next_def TOKEN_LEN_def) auto
  then show ?thesis using assms(1,2) by (simp add: func_socket_register_def sock_at_def recv_package_def)
qed

lemma long_token_overflows_witness:
  "func_socket_register clear_env (replicate 24 0) 3 (demo_users\<lparr>vu_heap := [3 \<mapsto> dead_conn\<lparr>cn_sock :=
     (cn_sock dead_conn)\<lparr>so_segment_recv := \<lparr>sp_buf = seg_plain [replicate 30 1], sp_len = 34, sp_start = 0\<rparr>\<rparr>\<rparr>]\<rparr>) =
   Inl OutOfBounds"
proof -
  let ?sp = "\<lparr>sp_buf = seg_plain [replicate 30 1], sp_len = 34, sp_start = 0\<rparr>"
  let ?c = "dead_conn\<lparr>cn_sock := (cn_sock dead_conn)\<lparr>so_segment_recv := ?sp\<rparr>\<rparr>"
  have "sp_at ?sp [replicate 30 1]" by (simp add: sp_at_def)
  then show ?thesis by (intro long_token_overflows [of _ 3 ?c ?sp "replicate 30 1" "[]"]) simp_all
qed

end
