(* ===== verification/Tunnel.thy ===== *)
theory Tunnel
  imports Prelude
begin

text \<open>
  Model of \<open>src/src/SharpTunnel.h\<close> and \<open>src/src/SharpTunnel.cpp\<close>: the tunnel device, in its three variants
  (Linux, macOS, Windows). What the operating system answers is an argument: for each request whether
  it succeeds. The requests made, in order, and the commands handed to a shell are part of the
  result.
\<close>

section \<open>Text\<close>

function string_of_nat :: "nat \<Rightarrow> string" where
  "string_of_nat n =
     (if n < 10 then [char_of (48 + n)] else string_of_nat (n div 10) @ [char_of (48 + n mod 10)])"
  by pat_completeness auto
termination
  by (relation "measure id") auto

declare string_of_nat.simps [simp del]

definition string_of_int :: "int \<Rightarrow> string" where
  "string_of_int i = (if i < 0 then CHR ''-'' # string_of_nat (nat (- i)) else string_of_nat (nat i))"

definition inet_ntoa :: "u32 \<Rightarrow> string" where
  \<comment> \<open>the address as stored: its first byte is the first number\<close>
  "inet_ntoa a =
     (case map (\<lambda>b. string_of_nat (unat b)) (le_enc 4 (unat a)) of
        x # xs \<Rightarrow> x @ concat (map (\<lambda>y. CHR ''.'' # y) xs)
      | [] \<Rightarrow> [])"

type_synonym inet_pton = "string \<Rightarrow> u32 option"   \<comment> \<open>\<open>None\<close> stands for the return value 0\<close>

section \<open>State\<close>

record tunnel =
  tn_dev_name :: string
  tn_ip_address :: string
  tn_mtu :: int
  tn_running :: bool
  tn_open :: bool               \<comment> \<open>\<open>tun\<close> holds an open descriptor\<close>
  tn_gateway :: string          \<comment> \<open>\<open>tunnel_gateway\<close>\<close>
  tn_tunnel_ip :: u32           \<comment> \<open>\<open>tunnel_ip\<close>, host order\<close>
  tn_if_index :: nat            \<comment> \<open>\<open>ifIndex\<close>, Windows only\<close>

definition SharpTunnel_new :: "string \<Rightarrow> string \<Rightarrow> int \<Rightarrow> u32 \<Rightarrow> tunnel" where
  \<comment> \<open>\<open>junk\<close> is the uninitialised \<open>tunnel_ip\<close>\<close>
  "SharpTunnel_new dev_n ip dev_mtu junk =
     \<lparr>tn_dev_name = dev_n, tn_ip_address = ip, tn_mtu = dev_mtu, tn_running = False, tn_open = False,
      tn_gateway = [], tn_tunnel_ip = junk, tn_if_index = 0\<rparr>"

definition get_local_tunnel_ip :: "tunnel \<Rightarrow> u32" where
  "get_local_tunnel_ip t = tn_tunnel_ip t"

definition gateway_of :: "u32 \<Rightarrow> u32" where
  \<comment> \<open>\<^verbatim>\<open>in.s_addr = ip & 0xffffff; in.s_addr = htonl(ntohl(in.s_addr) + 1)\<close>\<close>
  "gateway_of ip = htonl (ntohl (ip AND 0xffffff) + 1)"

section \<open>Linux\<close>

datatype if_request =
    SIOCSIFADDR u32
  | SIOCSIFMTU int
  | SIOCSIFNETMASK u32
  | SIOCSIFFLAGS_UP

definition IFNAMSIZ :: nat where "IFNAMSIZ = 16"

definition netmask_24 :: u32 where
  \<comment> \<open>\<^verbatim>\<open>255.255.255.0\<close> as \<open>inet_pton\<close> stores it\<close>
  "netmask_24 = 0x00ffffff"

type_synonym request = "string \<times> if_request"    \<comment> \<open>the interface name in \<open>ifr_name\<close>\<close>

text \<open>Requests up to and including the first one that fails; the flag tells whether all succeeded.\<close>

fun run_requests :: "(request \<Rightarrow> bool) \<Rightarrow> request list \<Rightarrow> bool \<times> request list" where
  "run_requests os [] = (True, [])"
| "run_requests os (r # rs) =
     (if os r then (case run_requests os rs of (ok, done) \<Rightarrow> (ok, r # done)) else (False, [r]))"

definition if_requests :: "tunnel \<Rightarrow> u32 \<Rightarrow> request list" where
  "if_requests t a =
     map (Pair (take IFNAMSIZ (tn_dev_name t)))
       [SIOCSIFADDR a, SIOCSIFMTU (tn_mtu t), SIOCSIFNETMASK netmask_24, SIOCSIFFLAGS_UP]"

definition linux_set_own_ip :: "inet_pton \<Rightarrow> (request \<Rightarrow> bool) \<Rightarrow> tunnel \<Rightarrow> (int \<times> tunnel) \<times> request list" where
  "linux_set_own_ip pton os t =
     (let a = pton (tn_ip_address t);
          t = t\<lparr>tn_tunnel_ip := (case a of None \<Rightarrow> 0 | Some x \<Rightarrow> ntohl x)\<rparr> in
      case a of
        None \<Rightarrow> ((-1, t), [])
      | Some x \<Rightarrow>
          case run_requests os (if_requests t x) of (ok, done) \<Rightarrow> ((if ok then 0 else -1, t), done))"

definition linux_set_ip :: "(request \<Rightarrow> bool) \<Rightarrow> u32 \<Rightarrow> tunnel \<Rightarrow> (int \<times> tunnel) \<times> request list" where
  "linux_set_ip os ip t =
     (case run_requests os (if_requests t ip) of
        (False, done) \<Rightarrow> ((-1, t), done)
      | (True, done) \<Rightarrow> ((0, t\<lparr>tn_gateway := inet_ntoa (gateway_of ip)\<rparr>), done))"

text \<open>\<open>opened\<close>: \<open>open\<close> on the device succeeds; \<open>attached\<close>: the \<open>TUNSETIFF\<close> request does.\<close>

definition linux_init ::
  "bool \<Rightarrow> bool \<Rightarrow> inet_pton \<Rightarrow> (request \<Rightarrow> bool) \<Rightarrow> bool \<Rightarrow> tunnel \<Rightarrow> (int \<times> tunnel) \<times> request list" where
  "linux_init opened attached pton os setip t =
     (if \<not> opened then ((-1, t), [])
      else if \<not> attached then ((-1, t), [])
      else
        let t = t\<lparr>tn_open := True\<rparr> in
        if setip then
          (case linux_set_own_ip pton os t of ((r, t), done) \<Rightarrow>
             if r < 0 then ((-1, t), done) else ((0, t\<lparr>tn_running := True\<rparr>), done))
        else ((0, t\<lparr>tn_running := True\<rparr>), []))"

definition linux_shutdown :: "tunnel \<Rightarrow> tunnel \<times> nat" where
  \<comment> \<open>the number of \<open>close\<close> calls; \<open>running\<close> stays as it is\<close>
  "linux_shutdown t = (if \<not> tn_running t then (t, 0) else (t\<lparr>tn_open := False\<rparr>, 1))"

definition linux_read :: "bytes \<Rightarrow> nat \<Rightarrow> bytes \<Rightarrow> int \<times> bytes" where
  \<comment> \<open>\<open>read\<close> of a packet cuts it at \<open>n\<close>\<close>
  "linux_read pkt n buf = (int (length (take n pkt)), overlay (take n pkt) buf)"

definition linux_write :: "bytes \<Rightarrow> nat \<Rightarrow> bytes outcome" where
  "linux_write buf n = (if n \<le> length buf then Inr (take n buf) else Inl OutOfBounds)"

section \<open>macOS\<close>

definition AF_INET_type :: bytes where "AF_INET_type = [0, 0, 0, 2]"
definition AF_INET6_type :: bytes where "AF_INET6_type = [0, 0, 0, 30]"

text \<open>
  \<open>unit\<close> is the number that \<open>sscanf\<close> finds in the device name; the four flags are the success of \<open>strlcpy\<close>, of
  the control socket, of \<open>CTLIOCGINFO\<close> and of \<open>connect\<close>.
\<close>

definition mac_command :: "tunnel \<Rightarrow> string \<Rightarrow> u32 \<Rightarrow> string" where
  "mac_command t ip gate =
     ''ifconfig '' @ tn_dev_name t @ '' '' @ ip @ '' '' @ inet_ntoa gate @ '' mtu '' @ string_of_int (tn_mtu t)
       @ '' netmask 255.255.255.0 up''"

definition mac_set_own_ip :: "inet_pton \<Rightarrow> tunnel \<Rightarrow> (int \<times> tunnel) \<times> string list" where
  "mac_set_own_ip pton t =
     (let a = pton (tn_ip_address t); ip = (case a of None \<Rightarrow> 0 | Some x \<Rightarrow> ntohl x);
          t = t\<lparr>tn_tunnel_ip := ip\<rparr>; gate = htonl ((ip AND 0xffffff00) + 1) in
      if a = None then ((-1, t), [])
      else ((0, t), [mac_command t (tn_ip_address t) gate]))"

definition mac_set_ip :: "u32 \<Rightarrow> tunnel \<Rightarrow> (int \<times> tunnel) \<times> string list" where
  "mac_set_ip ip t =
     (let t = t\<lparr>tn_gateway := inet_ntoa (gateway_of ip)\<rparr> in
      ((0, t), [mac_command t (inet_ntoa ip) (gateway_of ip)]))"

definition mac_init ::
  "(string \<Rightarrow> int option) \<Rightarrow> bool list \<Rightarrow> inet_pton \<Rightarrow> bool \<Rightarrow> tunnel \<Rightarrow> (int \<times> tunnel) \<times> string list" where
  "mac_init sscanf oks pton setip t =
     (if sscanf (tn_dev_name t) = None then ((-1, t), [])
      else if False \<in> set oks then ((-1, t), [])
      else
        let t = t\<lparr>tn_open := True, tn_running := True\<rparr> in
        if setip then mac_set_own_ip pton t else ((0, t), []))"

definition mac_shutdown :: "tunnel \<Rightarrow> tunnel \<times> nat" where
  "mac_shutdown t = (if \<not> tn_running t then (t, 0) else (t\<lparr>tn_open := False\<rparr>, 1))"

text \<open>A frame of the device is a four-byte address family followed by the packet.\<close>

definition mac_read :: "bytes \<Rightarrow> nat \<Rightarrow> bytes \<Rightarrow> int \<times> bytes" where
  "mac_read frame n buf =
     (let r = min (length frame) (4 + n); buf = overlay (take n (drop 4 frame)) buf in
      if r = 0 then (0, buf) else if r < 4 then (0, buf) else (int (r - 4), buf))"

definition mac_write :: "bytes \<Rightarrow> nat \<Rightarrow> (int \<times> bytes) outcome" where
  \<comment> \<open>the return value and the frame\<close>
  "mac_write buf n =
     (if length buf = 0 \<or> length buf < n then Inl OutOfBounds
      else
        let ty = (if drop_bit 4 (buf ! 0) = 6 then AF_INET6_type else AF_INET_type);
            frame = ty @ take n buf in
        Inr (int (length frame - 4), frame))"

section \<open>Windows\<close>

record adapter =
  ad_description :: string
  ad_if_index :: nat
  ad_name :: string

definition tap_description :: string where "tap_description = ''TAP-Windows Adapter V9''"

text \<open>The control codes of the driver: device, access, number and method of a request in their bit fields.\<close>

definition TAP_CODE :: "u32 \<Rightarrow> u32 \<Rightarrow> u32 \<Rightarrow> u32 \<Rightarrow> u32" where
  "TAP_CODE device_type func meth access = push_bit 16 device_type OR push_bit 14 access OR push_bit 2 func OR meth"

definition TAP_WIN_CONTROL_CODE :: "u32 \<Rightarrow> u32 \<Rightarrow> u32" where
  \<comment> \<open>\<open>FILE_DEVICE_UNKNOWN\<close>, \<open>FILE_ANY_ACCESS\<close>\<close>
  "TAP_WIN_CONTROL_CODE request meth = TAP_CODE 0x22 request meth 0"

definition TAP_WIN_IOCTL :: "string \<rightharpoonup> u32" where
  \<comment> \<open>\<open>TAP_WIN_IOCTL_GET_MAC\<close> and so on, all with \<open>METHOD_BUFFERED\<close>\<close>
  "TAP_WIN_IOCTL = map_of (map (\<lambda>(name, request). (name, TAP_WIN_CONTROL_CODE request 0))
     [(''GET_MAC'', 1), (''GET_VERSION'', 2), (''GET_MTU'', 3), (''GET_INFO'', 4), (''CONFIG_POINT_TO_POINT'', 5),
      (''SET_MEDIA_STATUS'', 6), (''CONFIG_DHCP_MASQ'', 7), (''GET_LOG_LINE'', 8), (''CONFIG_DHCP_SET_OPT'', 9), (''CONFIG_TUN'', 10)])"

text \<open>
  \<open>adapters\<close> is what \<open>GetAdaptersAddresses\<close> delivers (\<open>None\<close>: an error code); \<open>opened\<close> and \<open>media\<close> are the success of
  \<open>CreateFile\<close> on the device and of setting the media status. The result holds the device path that
  is opened and the command that sets the MTU. When the list is not delivered, no adapter name is
  stored and a null pointer becomes a string.
\<close>

definition win_device :: "adapter \<Rightarrow> string" where
  "win_device a = [char_of (92 :: nat), char_of (92 :: nat), CHR ''.'', char_of (92 :: nat)] @ ''GLOBAL'' @
     [char_of (92 :: nat)] @ ad_name a @ ''.tap''"

definition win_init ::
  "adapter list option \<Rightarrow> bool \<Rightarrow> bool \<Rightarrow> tunnel \<Rightarrow> ((int \<times> tunnel) \<times> string list) outcome" where
  "win_init adapters opened media t =
     (case adapters of
        None \<Rightarrow> Inl NullDeref
      | Some as \<Rightarrow>
          case find (\<lambda>a. ad_description a = tap_description) as of
            None \<Rightarrow> Inr ((-1, t\<lparr>tn_if_index := 0\<rparr>), [])
          | Some a \<Rightarrow>
              let t = t\<lparr>tn_if_index := ad_if_index a\<rparr> in
              if ad_if_index a = 0 then Inr ((-1, t), [])
              else if \<not> opened then Inr ((-1, t), [win_device a])
              else if \<not> media then Inr ((-1, t\<lparr>tn_open := True\<rparr>), [win_device a])
              else Inr ((0, t\<lparr>tn_open := True, tn_running := True\<rparr>),
                [win_device a, ''netsh interface ipv4 set subinterface '' @ string_of_nat (ad_if_index a) @
                   '' mtu='' @ string_of_int (tn_mtu t) @ '' store=persistent'']))"

definition win_set_own_ip :: "tunnel \<Rightarrow> int \<times> tunnel" where
  "win_set_own_ip t = (0, t)"

text \<open>\<open>configured\<close>, \<open>added\<close>: the success of the device request and of \<open>AddIPAddress\<close> (or that the address exists).\<close>

definition win_set_ip :: "bool \<Rightarrow> bool \<Rightarrow> u32 \<Rightarrow> tunnel \<Rightarrow> (int \<times> tunnel) \<times> u32 list" where
  \<comment> \<open>the list is \<open>config_info\<close>: address, network and netmask\<close>
  "win_set_ip configured added ip t =
     (let network = ip AND netmask_24; info = [ip, network, netmask_24] in
      if \<not> configured then ((-1, t), info)
      else if \<not> added then ((-1, t), info)
      else ((0, t\<lparr>tn_gateway := inet_ntoa (htonl (ntohl network + 1))\<rparr>), info))"

text \<open>
  \<open>ReadFile\<close> and \<open>WriteFile\<close> on the overlapped handle: \<open>status\<close> is their result, \<open>pending\<close> whether the error is
  \<open>ERROR_IO_PENDING\<close>, \<open>len\<close> the count stored at once and \<open>over\<close> the one \<open>GetOverlappedResult\<close> stores.
\<close>

definition win_read :: "bool \<Rightarrow> bool \<Rightarrow> nat \<Rightarrow> nat \<Rightarrow> nat" where
  "win_read status pending len over = (if \<not> status then (if pending then over else len) else len)"

definition win_write :: "bool \<Rightarrow> bool \<Rightarrow> nat \<Rightarrow> nat \<Rightarrow> nat" where
  "win_write status pending len over = (if \<not> status then (if pending then over else len) else len)"

definition win_shutdown :: "tunnel \<Rightarrow> tunnel \<times> nat" where
  "win_shutdown t = (if \<not> tn_running t then (t, 0) else (t\<lparr>tn_open := False, tn_running := False\<rparr>, 1))"

section \<open>Control codes\<close>

text \<open>The request can be read off a control code, so different requests have different codes; the two that are used.\<close>

lemma tap_code_request: "take_bit 12 (drop_bit 2 (TAP_WIN_CONTROL_CODE request 0)) = take_bit 12 request"
  by (rule bit_word_eqI) (auto simp: TAP_WIN_CONTROL_CODE_def TAP_CODE_def bit_simps)

lemma tap_codes_differ:
  assumes "unat r1 < 4096" "unat r2 < 4096" "TAP_WIN_CONTROL_CODE r1 0 = TAP_WIN_CONTROL_CODE r2 0"
  shows "r1 = r2"
proof -
  have "take_bit 12 r = r" if "unat r < 4096" for r :: u32
    using that by (simp add: word_unat_eq_iff take_bit_eq_mod unat_mod)
  then show ?thesis using assms tap_code_request by metis
qed

lemma tap_codes_used:
  "TAP_WIN_IOCTL ''SET_MEDIA_STATUS'' = Some 0x00220018" "TAP_WIN_IOCTL ''CONFIG_TUN'' = Some 0x00220028"
  by (simp_all add: TAP_WIN_IOCTL_def TAP_WIN_CONTROL_CODE_def TAP_CODE_def)

section \<open>Gateways\<close>

text \<open>The four bytes of an address.\<close>

definition quad :: "nat \<Rightarrow> nat \<Rightarrow> nat \<Rightarrow> nat \<Rightarrow> nat" where
  "quad a b c d = a + 256 * (b + 256 * (c + 256 * d))"

lemma quad_cases:
  obtains a b c d where "a < 256" "b < 256" "c < 256" "d < 256" "unat (x :: u32) = quad a b c d"
proof -
  let ?n = "unat x"
  have "?n < 4294967296" using unsigned_less [of x, where 'a = nat] by simp
  then have d: "?n div 256 div 256 div 256 < 256" by (simp add: div_mult2_eq [symmetric])
  have "?n = quad (?n mod 256) (?n div 256 mod 256) (?n div 256 div 256 mod 256)
      (?n div 256 div 256 div 256)"
    by (simp only: quad_def mod_mult_div_eq mult.commute [of 256] mod_div_mult_eq)
  with d show thesis by (intro that) simp_all
qed

lemma digit: "a < 256 \<Longrightarrow> (a + 256 * m) mod 256 = (a :: nat)" "a < 256 \<Longrightarrow> (a + 256 * m) div 256 = (m :: nat)"
  by simp_all

lemma unat_htonl:
  assumes "a < 256" "b < 256" "c < 256" "d < 256" "unat x = quad a b c d"
  shows "unat (htonl x) = quad d c b a"
proof -
  have "le_enc 4 (quad a b c d) = map of_nat [a, b, c, d]"
    using assms(1-4) by (simp only: le_enc_4 quad_def digit list.map) simp
  moreover have "unat (htonl x) = bswap 4 (unat x)"
    using bswap_bound [of 4 "unat x"] by (simp add: htonl_def unat_of_nat)
  ultimately show ?thesis using assms by (simp add: bswap_def quad_def unat_of_nat)
qed

lemma quad_low: "a < 256 \<Longrightarrow> b < 256 \<Longrightarrow> c < 256 \<Longrightarrow> quad a b c d mod 16777216 = quad a b c 0"
proof -
  assume "a < 256" "b < 256" "c < 256"
  then have "quad a b c 0 < 16777216" by (simp add: quad_def)
  moreover have "quad a b c d = quad a b c 0 + 16777216 * d" by (simp add: quad_def)
  ultimately show ?thesis by (metis mod_less mod_mult_self2)
qed

lemma unat_and_low: "unat ((x :: u32) AND 0xffffff) = unat x mod 16777216"
proof -
  have "x AND 0xffffff = x mod 16777216"
    using take_bit_eq_mask [of 24 x] by (simp add: mask_eq_exp_minus_1 take_bit_eq_mod)
  then show ?thesis by (simp add: unat_mod)
qed

lemma unat_and_high: "unat ((x :: u32) AND 0xffffff00) = unat x div 256 * 256"
proof -
  have "(0xffffff00 :: u32) = NOT (mask 8)" by (simp add: mask_eq_exp_minus_1)
  then have "x AND 0xffffff00 = push_bit 8 (drop_bit 8 x)"
    by (simp add: bit_eq_iff bit_simps) auto
  moreover have "unat (drop_bit 8 x) = unat x div 256"
    by (simp add: drop_bit_eq_div unat_div)
  moreover have "unat x div 256 * 256 < 2 ^ 32"
    using unsigned_less [of x, where 'a = nat] by simp
  ultimately show ?thesis by (simp add: push_bit_eq_mult unat_word_ariths mult.commute)
qed

lemma ntohl_mask: "ntohl (ip AND 0xffffff) = ntohl ip AND 0xffffff00"
proof -
  obtain a b c d where q: "a < 256" "b < 256" "c < 256" "d < 256" "unat ip = quad a b c d"
    by (rule quad_cases)
  have "unat (ip AND 0xffffff) = quad a b c 0"
    using q(1-4) by (simp add: unat_and_low q(5) quad_low)
  then have "unat (ntohl (ip AND 0xffffff)) = quad 0 c b a"
    using q(1-3) by (intro unat_htonl) simp_all
  moreover have "unat (ntohl ip AND 0xffffff00) = quad 0 c b a"
    using q(4) by (simp only: unat_and_high unat_htonl [OF q] quad_def digit)
  ultimately show ?thesis by (simp add: word_unat_eq_iff)
qed

lemma gateway_of_mask: "gateway_of ip = htonl ((ntohl ip AND 0xffffff00) + 1)"
  by (simp add: gateway_of_def ntohl_mask)

text \<open>A host that is at most 254 above the \<open>.1\<close> of its network has that \<open>.1\<close> as its gateway.\<close>

lemma gateway_of_host:
  assumes "unat l mod 256 = 1" "i < 255"
  shows "gateway_of (htonl (l + of_nat i)) = htonl l"
proof -
  have l: "unat l = unat l div 256 * 256 + 1" using assms(1) by (metis div_mult_mod_eq)
  have b: "unat l < 4294967296" using unsigned_less [of l, where 'a = nat] by simp
  have i: "unat (of_nat i :: u32) = i" using assms(2) by (simp add: unat_of_nat)
  have "unat l div 256 < 16777216" using b by simp
  then have "unat l + i < 4294967296" using l assms(2) by linarith
  then have s: "unat (l + of_nat i) = unat l div 256 * 256 + (1 + i)"
    using i l by (simp add: unat_word_ariths)
  have "(unat l div 256 * 256 + (1 + i)) div 256 = unat l div 256"
    using assms(2) by simp
  with s have "unat ((l + of_nat i) AND 0xffffff00) = unat l div 256 * 256"
    by (simp only: unat_and_high)
  moreover have "unat l div 256 * 256 + 1 < 4294967296" using l b by linarith
  ultimately have "unat (((l + of_nat i) AND 0xffffff00) + 1) = unat l"
    using l by (simp add: unat_word_ariths)
  then have "((l + of_nat i) AND 0xffffff00) + 1 = l" by (simp only: word_unat_eq_iff)
  then show ?thesis by (simp only: gateway_of_mask htonl_htonl)
qed

lemma run_requests_all: "\<forall>r\<in>set rs. os r \<Longrightarrow> run_requests os rs = (True, rs)"
  by (induction rs) auto

lemma run_requests_fail:
  "run_requests os (pre @ r # post) = (False, pre @ [r])" if "\<forall>x\<in>set pre. os x" "\<not> os r"
  using that by (induction pre) auto

text \<open>
  The three platform variants of \<open>SharpTunnel::set_ip(uint32_t)\<close> are written differently (a mask on the
  network-order value, a netmask structure, a host-order mask in the macOS server path), yet they
  store the same gateway string: the host-order network address of the \<open>/24\<close> plus one, as dotted text.
\<close>

lemma gateway_agrees:
  assumes "\<forall>r. os r"
  shows "tn_gateway (snd (fst (linux_set_ip os ip t))) = inet_ntoa (htonl ((ntohl ip AND 0xffffff00) + 1)) \<and>
    tn_gateway (snd (fst (mac_set_ip ip t))) = inet_ntoa (htonl ((ntohl ip AND 0xffffff00) + 1)) \<and>
    tn_gateway (snd (fst (win_set_ip True True ip t))) = inet_ntoa (htonl ((ntohl ip AND 0xffffff00) + 1))"
proof -
  have "run_requests os (if_requests t ip) = (True, if_requests t ip)"
    using assms by (intro run_requests_all) blast
  then show ?thesis
    by (simp add: linux_set_ip_def mac_set_ip_def win_set_ip_def Let_def gateway_of_mask netmask_24_def ntohl_mask)
qed

lemma gateway_agrees_witness:
  "tn_gateway (snd (fst (linux_set_ip (\<lambda>_. True) 0x0500070a (SharpTunnel_new ''tun0'' ''10.7.0.1'' 1400 0)))) =
     inet_ntoa (htonl ((ntohl 0x0500070a AND 0xffffff00) + 1))"
  using gateway_agrees [of "\<lambda>_. True"] by simp

text \<open>
  What the macOS device adds on writing it removes on reading: a packet written with its own length
  is read back unchanged, for every buffer that can hold it.
\<close>

lemma mac_write_read:
  assumes "pkt \<noteq> []" "length pkt \<le> n" "mac_write pkt (length pkt) = Inr (r, frame)"
  shows "mac_read frame n buf = (r, overlay pkt buf) \<and> r = int (length pkt)"
  using assms by (auto simp: mac_write_def mac_read_def Let_def AF_INET_type_def AF_INET6_type_def split: if_splits)

text \<open>
  On Linux and macOS \<open>shutdown\<close> leaves \<open>running\<close> set, so a second call closes the descriptor number once
  more; on Windows the second call does nothing.
\<close>

lemma shutdown_twice:
  assumes "tn_running t"
  shows "snd (linux_shutdown (fst (linux_shutdown t))) = 1" "snd (win_shutdown (fst (win_shutdown t))) = 0"
  using assms by (simp_all add: linux_shutdown_def win_shutdown_def)

text \<open>On Linux the device counts as running only if every request of the set-up succeeded.\<close>

lemma linux_init_running:
  assumes "linux_init opened attached pton os setip t = ((0, t'), rs)" "\<not> tn_running t"
  shows "tn_running t' \<and> tn_open t' \<and> opened \<and> attached \<and> (setip \<longrightarrow> (\<forall>r\<in>set rs. os r) \<and> length rs = 4)"
proof -
  have all: "fst (run_requests os rs) \<Longrightarrow> snd (run_requests os rs) = rs \<and> (\<forall>r\<in>set rs. os r)" for rs
    by (induction rs) (auto split: prod.splits if_splits)
  show ?thesis
  proof (cases setip)
    case True
    then obtain x where "pton (tn_ip_address t) = Some x" "tn_running t'" "tn_open t'" "opened" "attached"
      and r: "run_requests os (if_requests t x) = (True, rs)"
      using assms by (auto simp: linux_init_def linux_set_own_ip_def Let_def if_requests_def
        split: if_splits option.splits prod.splits)
    moreover have "rs = if_requests t x \<and> (\<forall>r\<in>set rs. os r)"
      using all [of "if_requests t x"] r by simp
    ultimately show ?thesis by (simp add: if_requests_def)
  next
    case False
    then show ?thesis using assms by (auto simp: linux_init_def Let_def split: if_splits)
  qed
qed

end
