(* ===== verification/RouteTable.thy ===== *)
theory RouteTable
  imports Tunnel ChnRoute
begin

text \<open>
  Model of \<open>src/src/RouteTable.h\<close> and of the Linux part of \<open>src/src/RouteTable.cpp\<close>: reading the default route
  from \<open>/proc/net/route\<close>, adding and deleting route rows, and the routes of a client: a host route to
  the server, one route per Chinese network of a file, and two half-space routes through the
  tunnel. The kernel's route table is a parameter: the two requests \<open>SIOCADDRT\<close> and \<open>SIOCDELRT\<close> are functions on an
  arbitrary state that also return an error number. Files are strings.
\<close>

section \<open>Reading lines and numbers\<close>

text \<open>\<open>istream::getline(buf, n)\<close>: the line, or \<open>None\<close> when the stream fails, and what is left of the file.\<close>

definition getline :: "nat \<Rightarrow> string \<Rightarrow> string option \<times> string" where
  "getline n s =
     (let l = takeWhile (\<lambda>c. c \<noteq> CHR 0x0A) s in
      if s = [] then (None, [])
      else if length l < n then (Some l, drop (length l + 1) s)
      else (None, drop (n - 1) s))"

definition NUL :: char where "NUL = CHR 0x00"

definition c_str :: "string \<Rightarrow> string" where
  \<comment> \<open>a buffer that holds a terminator, read as a C string\<close>
  "c_str buf = takeWhile (\<lambda>c. c \<noteq> NUL) buf"

definition digit_of :: "char \<Rightarrow> nat" where
  \<comment> \<open>36 for a character that is no digit in any base\<close>
  "digit_of c =
     (let n = of_char c :: nat in
      if 48 \<le> n \<and> n \<le> 57 then n - 48
      else if 65 \<le> n \<and> n \<le> 90 then n - 55
      else if 97 \<le> n \<and> n \<le> 122 then n - 87 else 36)"

fun digits_base :: "nat \<Rightarrow> nat \<Rightarrow> string \<Rightarrow> nat \<times> string" where
  "digits_base b acc [] = (acc, [])"
| "digits_base b acc (c # s) =
     (if digit_of c < b then digits_base b (b * acc + digit_of c) s else (acc, c # s))"

text \<open>
  \<open>strtol\<close> with base 0, 8, 10 or 16: the value, clamped to a 64-bit \<open>long\<close>, and the part of the string behind
  what was read.
\<close>

definition has_0x :: "string \<Rightarrow> bool" where
  "has_0x s \<longleftrightarrow> (case s of c # x # d # _ \<Rightarrow> c = CHR ''0'' \<and> (x = CHR ''x'' \<or> x = CHR ''X'') \<and> digit_of d < 16 | _ \<Rightarrow> False)"

definition strtol :: "nat \<Rightarrow> string \<Rightarrow> int \<times> string" where
  "strtol base s =
     (let s = dropWhile is_space s;
          neg = (s \<noteq> [] \<and> hd s = CHR ''-'');
          s = (if s \<noteq> [] \<and> (hd s = CHR ''-'' \<or> hd s = CHR ''+'') then tl s else s);
          hex = (base = 0 \<or> base = 16) \<and> has_0x s;
          b = (if hex then 16 else if base \<noteq> 0 then base else if s \<noteq> [] \<and> hd s = CHR ''0'' then 8 else 10);
          (v, r) = digits_base b 0 (if hex then drop 2 s else s);
          i = (if neg then - int v else int v) in
      (max (- (2 ^ 63)) (min (2 ^ 63 - 1) i), r))"

definition int_of_long :: "int \<Rightarrow> int" where
  "int_of_long v = sint (word_of_int v :: u32)"

section \<open>Rows\<close>

record RouteRow =
  rr_dst :: string
  rr_netmask :: string
  rr_netmask_sharp :: int
  rr_gateway :: string
  rr_dev :: string

definition RouteRow_new :: RouteRow where
  "RouteRow_new = \<lparr>rr_dst = [], rr_netmask = [], rr_netmask_sharp = -1, rr_gateway = [], rr_dev = []\<rparr>"

text \<open>
  The words of a line of \<open>/proc/net/route\<close>: the text up to the last character that is no blank, which is
  itself lost, cut at the tabs; the piece behind the last tab is dropped.
\<close>

definition trim_last :: "string \<Rightarrow> string" where
  "trim_last s =
     (case dropWhile (\<lambda>c. c = CHR '' '') (rev s) of [] \<Rightarrow> s | _ # r \<Rightarrow> rev r)"

fun tab_words :: "string \<Rightarrow> string \<Rightarrow> string list" where
  "tab_words cur [] = []"
| "tab_words cur (c # s) =
     (if c \<noteq> CHR 0x09 then tab_words (cur @ [c]) s
      else if cur \<noteq> [] then cur # tab_words [] s else tab_words [] s)"

definition route_line :: "RouteRow \<Rightarrow> string \<Rightarrow> RouteRow outcome" where
  "route_line row line =
     (let arr = tab_words [] (trim_last (c_str line)) in
      if length arr \<le> 7 then Inl OutOfBounds
      else Inr (row\<lparr>rr_dev := arr ! 0, rr_dst := arr ! 1, rr_gateway := arr ! 2, rr_netmask := arr ! 7\<rparr>))"

text \<open>All lines of the file, until \<open>getline\<close> fails.\<close>

function route_lines :: "RouteRow \<Rightarrow> string \<Rightarrow> (RouteRow \<times> RouteRow list) outcome" where
  "route_lines row s =
     (case getline 1500 s of
        (None, _) \<Rightarrow> Inr (row, [])
      | (Some l, s') \<Rightarrow>
          bind_out (route_line row l) (\<lambda>row.
          bind_out (route_lines row s') (\<lambda>(row', rows). Inr (row', row # rows))))"
  by pat_completeness auto
termination
  by (relation "measure (\<lambda>(_, s). length s)") (auto simp: getline_def Let_def split: if_splits)

declare route_lines.simps [simp del]

definition default_step :: "RouteRow \<Rightarrow> RouteRow \<Rightarrow> RouteRow" where
  "default_step itr row =
     (if rr_dst itr = ''00000000'' then
        row\<lparr>rr_dst := ''0.0.0.0'', rr_dev := rr_dev itr,
            rr_gateway := inet_ntoa (word_of_int (fst (strtol 16 (rr_gateway itr)))),
            rr_netmask := inet_ntoa (word_of_int (fst (strtol 16 (rr_netmask itr))))\<rparr>
      else row)"

definition get_default_route :: "string option \<Rightarrow> RouteRow outcome" where
  "get_default_route proc_net_route =
     (case proc_net_route of
        None \<Rightarrow> Inr (RouteRow_new\<lparr>rr_dst := []\<rparr>)
      | Some s \<Rightarrow>
          bind_out (route_lines RouteRow_new s) (\<lambda>(row, row_list).
          Inr (fold default_step row_list (row\<lparr>rr_dst := []\<rparr>))))"

section \<open>Adding and deleting a row\<close>

text \<open>\<^verbatim>\<open>for (int i = 0; i < netmask_sharp; i++) s_addr |= 1 << (31 - i);\<close>\<close>

function mask_loop :: "nat \<Rightarrow> nat \<Rightarrow> u32 \<Rightarrow> u32 outcome" where
  "mask_loop i n acc =
     (if i < n then
        if 31 < i then Inl ShiftRange else mask_loop (i + 1) n (acc OR push_bit (31 - i) 1)
      else Inr acc)"
  by pat_completeness auto
termination
  by (relation "measure (\<lambda>(i, n, _). n - i)") auto

declare mask_loop.simps [simp del]

record rtentry =
  rt_dst :: u32
  rt_gateway :: u32
  rt_genmask :: u32
  rt_dev :: string

record 'k route_kernel =
  rk_add :: "rtentry \<Rightarrow> bool \<Rightarrow> 'k \<Rightarrow> nat \<times> 'k"   \<comment> \<open>\<open>SIOCADDRT\<close>, with or without \<open>RTF_HOST\<close>: the error number, 0 for none\<close>
  rk_del :: "rtentry \<Rightarrow> 'k \<Rightarrow> nat \<times> 'k"           \<comment> \<open>\<open>SIOCDELRT\<close>\<close>

definition pton_or_zero :: "inet_pton \<Rightarrow> string \<Rightarrow> u32" where
  \<comment> \<open>the return value 0 of \<open>inet_pton\<close> passes the test \<^verbatim>\<open>< 0\<close>, and the field keeps its zero\<close>
  "pton_or_zero pton s = (case pton s of Some a \<Rightarrow> a | None \<Rightarrow> 0)"

definition rtentry_of :: "inet_pton \<Rightarrow> RouteRow \<Rightarrow> rtentry outcome" where
  "rtentry_of pton row =
     bind_out
       (if rr_netmask_sharp row = -1 then Inr (pton_or_zero pton (rr_netmask row))
        else bind_out (mask_loop 0 (nat (rr_netmask_sharp row)) 0) (\<lambda>m. Inr (htonl m))) (\<lambda>m.
     Inr \<lparr>rt_dst = pton_or_zero pton (rr_dst row), rt_gateway = pton_or_zero pton (rr_gateway row),
          rt_genmask = m, rt_dev = rr_dev row\<rparr>)"

definition EEXIST :: nat where "EEXIST = 17"

definition add_route_row :: "inet_pton \<Rightarrow> 'k route_kernel \<Rightarrow> RouteRow \<Rightarrow> bool \<Rightarrow> 'k \<Rightarrow> (int \<times> 'k) outcome" where
  "add_route_row pton K row host k =
     bind_out (rtentry_of pton row) (\<lambda>route.
     case rk_add K route host k of (errno, k) \<Rightarrow>
       Inr (if errno = 0 then 0 else if errno = EEXIST then 0 else -1, k))"

definition del_route_row :: "inet_pton \<Rightarrow> 'k route_kernel \<Rightarrow> RouteRow \<Rightarrow> 'k \<Rightarrow> (int \<times> 'k) outcome" where
  "del_route_row pton K row k =
     bind_out (rtentry_of pton row) (\<lambda>route.
     case rk_del K route k of (errno, k) \<Rightarrow>
       Inr (if errno = 0 then 0 else if errno = EEXIST then 0 else -1, k))"

section \<open>The client's routes\<close>

record route_table =
  tb_modified :: bool
  tb_tunnel_gateway :: string
  tb_default_gateway :: string
  tb_default_dev :: string

definition RouteTable_new :: route_table where
  "RouteTable_new = \<lparr>tb_modified = False, tb_tunnel_gateway = [], tb_default_gateway = [], tb_default_dev = []\<rparr>"

definition init_table :: int where "init_table = 0"

definition tunnel_row :: "string \<Rightarrow> string \<Rightarrow> string \<Rightarrow> RouteRow" where
  "tunnel_row dst gw dev =
     \<lparr>rr_dst = dst, rr_netmask = ''128.0.0.0'', rr_netmask_sharp = 1, rr_gateway = gw, rr_dev = dev\<rparr>"

definition set_default_as_tunnel ::
  "inet_pton \<Rightarrow> 'k route_kernel \<Rightarrow> string \<Rightarrow> string \<Rightarrow> route_table \<Rightarrow> 'k \<Rightarrow> (int \<times> route_table \<times> 'k) outcome" where
  "set_default_as_tunnel pton K tunnel_name gw t k =
     (let t = t\<lparr>tb_tunnel_gateway := gw\<rparr> in
      bind_out (add_route_row pton K (tunnel_row ''0.0.0.0'' gw tunnel_name) False k) (\<lambda>(_, k).
      bind_out (add_route_row pton K (tunnel_row ''128.0.0.0'' gw tunnel_name) False k) (\<lambda>(_, k).
      Inr (0, t, k))))"

text \<open>
  The line buffer \<^verbatim>\<open>char buf[100]\<close> is part of the state: every \<open>'/'\<close> in all of its 100 characters ends the
  address there and starts a prefix length, also one that an earlier line, or the uninitialised
  stack, left behind the terminator.
\<close>

definition BUF_LEN :: nat where "BUF_LEN = 100"

definition load_line :: "string \<Rightarrow> string \<Rightarrow> string" where
  "load_line l buf = l @ NUL # drop (length l + 1) buf"

function slash_loop :: "nat \<Rightarrow> string \<times> RouteRow \<Rightarrow> (string \<times> RouteRow) outcome" where
  "slash_loop i (buf, row) =
     (if BUF_LEN \<le> i then Inr (buf, row)
      else if length buf \<le> i then Inl OutOfBounds
      else if buf ! i = CHR ''/'' then
        let buf = buf[i := NUL]; (v, rest) = strtol 0 (drop (i + 1) buf) in
        if rest = [] then Inl OutOfBounds
        else slash_loop (i + 1) (buf, row\<lparr>rr_dst := c_str buf, rr_netmask_sharp := int_of_long v\<rparr>)
      else slash_loop (i + 1) (buf, row))"
  by pat_completeness auto
termination
  by (relation "measure (\<lambda>(i, _). BUF_LEN - i)") auto

declare slash_loop.simps [simp del]

text \<open>The loop over the file, with what is done to each row.\<close>

function file_loop ::
  "(RouteRow \<Rightarrow> 'k \<Rightarrow> (int \<times> 'k) outcome) \<Rightarrow> string \<Rightarrow> string \<times> RouteRow \<Rightarrow> 'k \<Rightarrow> 'k outcome" where
  "file_loop act s (buf, row) k =
     (case getline BUF_LEN s of
        (None, _) \<Rightarrow> Inr k
      | (Some l, s') \<Rightarrow>
          bind_out (slash_loop 0 (load_line l buf, row)) (\<lambda>(buf, row).
          bind_out (act row k) (\<lambda>(_, k). file_loop act s' (buf, row) k)))"
  by pat_completeness auto
termination
  by (relation "measure (\<lambda>(_, s, _). length s)") (auto simp: getline_def Let_def split: if_splits)

declare file_loop.simps [simp del]

definition set_chnroute ::
  "inet_pton \<Rightarrow> 'k route_kernel \<Rightarrow> string option \<Rightarrow> string \<Rightarrow> string option \<Rightarrow> string \<Rightarrow> string \<Rightarrow>
   route_table \<Rightarrow> 'k \<Rightarrow> (int \<times> route_table \<times> 'k) outcome" where
  \<comment> \<open>\<open>file\<close> is what opening \<open>filename\<close> gives, \<open>junk\<close> the uninitialised buffer\<close>
  "set_chnroute pton K proc_net_route filename file junk remote_ip t k =
     bind_out (get_default_route proc_net_route) (\<lambda>row.
     let row = row\<lparr>rr_dst := remote_ip, rr_netmask := ''255.255.255.255'', rr_netmask_sharp := 32\<rparr>;
         t = t\<lparr>tb_default_gateway := rr_gateway row, tb_default_dev := rr_dev row\<rparr> in
     bind_out (add_route_row pton K row True k) (\<lambda>(_, k).
     let t = t\<lparr>tb_modified := True\<rparr> in
     if filename = [] then Inr (0, t, k)
     else
       case file of
         None \<Rightarrow> Inr (-1, t, k)
       | Some s \<Rightarrow>
           bind_out (file_loop (\<lambda>row. add_route_row pton K row False) s (junk, row) k) (\<lambda>k. Inr (0, t, k))))"

definition delete_chnroute ::
  "inet_pton \<Rightarrow> 'k route_kernel \<Rightarrow> string \<Rightarrow> string option \<Rightarrow> string \<Rightarrow>
   route_table \<Rightarrow> 'k \<Rightarrow> (int \<times> route_table \<times> 'k) outcome" where
  "delete_chnroute pton K filename file junk t k =
     (if \<not> tb_modified t then Inr (0, t, k)
      else if filename = [] then Inr (0, t, k)
      else
        let row = tunnel_row ''0.0.0.0'' (tb_tunnel_gateway t) (tb_default_dev t) in
        bind_out (del_route_row pton K row k) (\<lambda>(_, k).
        let row = row\<lparr>rr_dst := ''128.0.0.0''\<rparr> in
        bind_out (del_route_row pton K row k) (\<lambda>(_, k).
        let row = row\<lparr>rr_gateway := tb_default_gateway t\<rparr> in
        case file of
          None \<Rightarrow> Inr (-1, t, k)
        | Some s \<Rightarrow>
            bind_out (file_loop (del_route_row pton K) s (junk, row) k) (\<lambda>k.
            Inr (0, t\<lparr>tb_modified := False\<rparr>, k)))))"

section \<open>Masks\<close>

lemma mask_loop_bits:
  assumes "i \<le> n" "n \<le> 32"
  shows "\<exists>r. mask_loop i n acc = Inr r \<and> (\<forall>j < 32. bit r j \<longleftrightarrow> bit acc j \<or> 32 - n \<le> j \<and> j < 32 - i)"
  using assms
proof (induction "n - i" arbitrary: i acc)
  case 0
  then have "n = i" by simp
  then show ?case by (auto simp: mask_loop.simps [of i])
next
  case (Suc d)
  let ?acc = "acc OR push_bit (31 - i) 1"
  have i: "i < n" using Suc.hyps(2) by simp
  then obtain r where r: "mask_loop (i + 1) n ?acc = Inr r"
    and b: "\<forall>j < 32. bit r j \<longleftrightarrow> bit ?acc j \<or> 32 - n \<le> j \<and> j < 32 - (i + 1)"
    using Suc.hyps(1) [of "i + 1" ?acc] Suc.hyps(2) Suc.prems by (metis Suc_eq_plus1 Suc_leI diff_Suc_Suc diff_Suc_eq_diff_pred diff_Suc_1 minus_nat.diff_Suc)
  have "mask_loop i n acc = Inr r" using i r Suc.prems by (simp add: mask_loop.simps [of i])
  moreover have "bit r j \<longleftrightarrow> bit acc j \<or> 32 - n \<le> j \<and> j < 32 - i" if "j < 32" for j
    using b that i Suc.prems by (auto simp: bit_simps)
  ultimately show ?case by blast
qed

definition prefix_mask :: "nat \<Rightarrow> u32" where
  \<comment> \<open>the reference: the low \<open>32 - n\<close> bits clear\<close>
  "prefix_mask n = NOT (mask (32 - n))"

lemma mask_loop_prefix: "n \<le> 32 \<Longrightarrow> mask_loop 0 n 0 = Inr (prefix_mask n)"
proof -
  assume n: "n \<le> 32"
  obtain r where r: "mask_loop 0 n 0 = Inr r" "\<forall>j < 32. bit r j \<longleftrightarrow> 32 - n \<le> j \<and> j < 32"
    using mask_loop_bits [of 0 n 0] n by auto
  have "r = prefix_mask n"
    by (rule bit_word_eqI) (use r(2) in \<open>auto simp: prefix_mask_def bit_simps\<close>)
  with r show ?thesis by simp
qed

lemma mask_loop_beyond: "i \<le> 32 \<Longrightarrow> 32 < n \<Longrightarrow> mask_loop i n acc = Inl ShiftRange"
proof (induction "32 - i" arbitrary: i acc)
  case 0
  then have "i = 32" by simp
  with 0 show ?case by (simp add: mask_loop.simps [of 32])
next
  case (Suc d)
  then show ?case by (simp add: mask_loop.simps [of i n acc])
qed

text \<open>
  C36: The loop that turns a prefix length into a netmask agrees with the arithmetic reference: for lengths
  up to 32 it yields the word whose low \<open>32 - n\<close> bits are clear, and for every longer one it shifts by a
  negative count.
\<close>

theorem netmask_of_prefix:
  "mask_loop 0 n 0 = (if n \<le> 32 then Inr (prefix_mask n) else Inl ShiftRange)"
  by (simp add: mask_loop_prefix mask_loop_beyond)

section \<open>Numbers as text\<close>

abbreviation digit_char :: "nat \<Rightarrow> char" where
  "digit_char d \<equiv> char_of (48 + d)"

lemma digit_of_char: "d < 10 \<Longrightarrow> digit_of (digit_char d) = d"
  by (simp add: digit_of_def of_char_of)

lemma digits_base_string: 
  assumes "b = 10"
  shows "digits_base b acc (string_of_nat n @ rest) = digits_base b (acc * 10 ^ length (string_of_nat n) + n) rest"
proof (induction n arbitrary: acc rest rule: string_of_nat.induct)
  case (1 n)
  show ?case
  proof (cases "n < 10")
    case True
    then show ?thesis using assms by (simp add: string_of_nat.simps [of n] digit_of_char mult.commute)
  next
    case False
    let ?m = "n div 10"
    have "digits_base b acc (string_of_nat n @ rest) = digits_base b acc (string_of_nat ?m @ digit_char (n mod 10) # rest)"
      using False by (simp add: string_of_nat.simps [of n])
    also have "\<dots> = digits_base b (10 * (acc * 10 ^ length (string_of_nat ?m) + ?m) + n mod 10) rest"
      using 1 [OF False] assms by (simp add: digit_of_char)
    also have "10 * (acc * 10 ^ length (string_of_nat ?m) + ?m) + n mod 10 = acc * 10 ^ length (string_of_nat n) + n"
      using False by (simp add: string_of_nat.simps [of n] algebra_simps)
    finally show ?thesis .
  qed
qed

lemma string_of_nat_digits: "c \<in> set (string_of_nat n) \<Longrightarrow> \<exists>d < 10. c = digit_char d"
proof (induction n rule: string_of_nat.induct)
  case (1 n)
  then show ?case
    by (cases "n < 10") (auto simp: string_of_nat.simps [of n] intro: exI [of _ "n mod 10"])
qed

lemma string_of_nat_hd: "\<exists>d t. string_of_nat n = digit_char d # t \<and> d < 10 \<and> (d = 0 \<longrightarrow> n = 0 \<and> t = [])"
proof (induction n rule: string_of_nat.induct)
  case (1 n)
  show ?case
  proof (cases "n < 10")
    case True
    then show ?thesis by (intro exI [of _ n] exI [of _ "[]"]) (simp add: string_of_nat.simps [of n])
  next
    case False
    then obtain d t where "string_of_nat (n div 10) = digit_char d # t" "d < 10" "d = 0 \<longrightarrow> n div 10 = 0"
      using 1 by auto
    then show ?thesis using False
      by (intro exI [of _ d] exI [of _ "t @ [digit_char (n mod 10)]"]) (auto simp: string_of_nat.simps [of n])
  qed
qed

lemma digit_char_plain:
  assumes "d < 10"
  shows "\<not> is_space (digit_char d)" "digit_char d \<noteq> CHR ''-''" "digit_char d \<noteq> CHR ''+''"
    "digit_char d \<noteq> CHR ''/''" "digit_char d \<noteq> CHR 0x0A" "digit_char d = CHR ''0'' \<longleftrightarrow> d = 0"
    "digit_char d \<noteq> NUL" "digit_char d \<noteq> CHR ''x''" "digit_char d \<noteq> CHR ''X''"
proof -
  have *: "d = 0 \<or> d = 1 \<or> d = 2 \<or> d = 3 \<or> d = 4 \<or> d = 5 \<or> d = 6 \<or> d = 7 \<or> d = 8 \<or> d = 9"
    using assms by arith
  show "\<not> is_space (digit_char d)" "digit_char d \<noteq> CHR ''-''" "digit_char d \<noteq> CHR ''+''"
    "digit_char d \<noteq> CHR ''/''" "digit_char d \<noteq> CHR 0x0A" "digit_char d = CHR ''0'' \<longleftrightarrow> d = 0"
    "digit_char d \<noteq> NUL" "digit_char d \<noteq> CHR ''x''" "digit_char d \<noteq> CHR ''X''"
    using * by (auto simp: is_space_def NUL_def char_of_def bit_0)
qed

lemma digit_of_NUL: "digit_of NUL = 36"
  by (simp add: digit_of_def NUL_def)

lemma strtol_string_of_nat:
  assumes "n < 2 ^ 31"
  shows "strtol 0 (string_of_nat n @ NUL # rest) = (int n, NUL # rest)"
proof -
  obtain d t where s: "string_of_nat n = digit_char d # t" "d < 10" "d = 0 \<longrightarrow> n = 0 \<and> t = []"
    using string_of_nat_hd by blast
  have v: "digits_base 10 0 (string_of_nat n @ NUL # rest) = (n, NUL # rest)"
    by (simp add: digits_base_string digit_of_NUL)
  have hex: "\<not> has_0x (string_of_nat n @ NUL # rest)"
    using s digit_char_plain(6) [OF s(2)] by (auto simp: has_0x_def NUL_def split: list.splits)
  show ?thesis
  proof (cases "d = 0")
    case True
    then have "n = 0" "string_of_nat n = [digit_char 0]" using s by simp_all
    then show ?thesis using hex digit_char_plain [of 0] digit_of_char [of 0] digit_of_NUL
      by (simp add: strtol_def)
  next
    case False
    then show ?thesis using assms v hex s(1) digit_char_plain [OF s(2)] by (simp add: strtol_def)
  qed
qed

lemma int_of_long_small: "n < 2 ^ 31 \<Longrightarrow> int_of_long (int n) = int n"
  unfolding int_of_long_def sint_sbintrunc' by (rule signed_take_bit_int_eq_self) simp_all

section \<open>The file of networks\<close>

text \<open>Well-formed networks, the text of their lines, and the row each line is meant to give.\<close>

type_synonym chn_net = "string \<times> nat"

definition net_line :: "chn_net \<Rightarrow> string" where
  "net_line x = fst x @ ''/'' @ string_of_nat (snd x)"

definition chn_net_ok :: "chn_net \<Rightarrow> bool" where
  "chn_net_ok x \<longleftrightarrow> CHR ''/'' \<notin> set (fst x) \<and> CHR 0x0A \<notin> set (fst x) \<and> NUL \<notin> set (fst x) \<and>
     snd x \<le> 32 \<and> length (net_line x) < BUF_LEN"

definition chn_text :: "chn_net list \<Rightarrow> string" where
  "chn_text nets = concat (map (\<lambda>x. net_line x @ [CHR 0x0A]) nets)"

definition net_row :: "RouteRow \<Rightarrow> chn_net \<Rightarrow> RouteRow" where
  "net_row row x = row\<lparr>rr_dst := fst x, rr_netmask_sharp := int (snd x)\<rparr>"

definition clean_buf :: "string \<Rightarrow> bool" where
  "clean_buf buf \<longleftrightarrow> length buf = BUF_LEN \<and> CHR ''/'' \<notin> set buf"

lemma takeWhile_stop: "c \<notin> set l \<Longrightarrow> takeWhile (\<lambda>x. x \<noteq> c) (l @ c # s) = l"
  by (induction l) auto

lemma slash_skip:
  assumes "i \<le> m" "m \<le> BUF_LEN" "BUF_LEN \<le> length buf" "\<forall>j. i \<le> j \<and> j < m \<longrightarrow> buf ! j \<noteq> CHR ''/''"
  shows "slash_loop i (buf, row) = slash_loop m (buf, row)"
  using assms
proof (induction "m - i" arbitrary: i)
  case 0
  then show ?case by simp
next
  case (Suc d)
  then have "slash_loop (i + 1) (buf, row) = slash_loop m (buf, row)" by simp
  moreover have "i < m" using Suc.hyps(2) by simp
  moreover then have "\<not> BUF_LEN \<le> i" "\<not> length buf \<le> i" "buf ! i \<noteq> CHR ''/''" using Suc.prems by auto
  ultimately show ?case by (simp add: slash_loop.simps [of i])
qed

lemma net_line_slash:
  assumes ok: "chn_net_ok x" and buf: "clean_buf buf"
  shows "\<exists>buf'. slash_loop 0 (load_line (net_line x) buf, row) = Inr (buf', net_row row x) \<and> clean_buf buf'"
proof -
  obtain a n where x: "x = (a, n)" by (cases x)
  let ?d = "string_of_nat n" and ?i = "length a"
  define rest where "rest = drop (length (net_line x) + 1) buf"
  define b where "b = a @ CHR ''/'' # ?d @ NUL # rest"
  define b' where "b' = a @ NUL # ?d @ NUL # rest"
  have b: "load_line (net_line x) buf = b" by (simp add: load_line_def net_line_def b_def rest_def x)
  have ok': "CHR ''/'' \<notin> set a" "NUL \<notin> set a" "n \<le> 32" "length (net_line x) < BUF_LEN"
    using ok by (simp_all add: chn_net_ok_def x)
  have dig: "CHR ''/'' \<notin> set ?d" using string_of_nat_digits digit_char_plain(4) by metis
  have rest: "CHR ''/'' \<notin> set rest" using buf in_set_dropD by (fastforce simp: rest_def clean_buf_def)
  have len: "length b' = BUF_LEN" "length b = BUF_LEN"
    using ok'(4) buf by (simp_all add: b_def b'_def rest_def net_line_def clean_buf_def x)
  have clean: "clean_buf b'" using ok' dig rest len by (simp add: clean_buf_def b'_def NUL_def)
  have upd: "b[?i := NUL] = b'" by (simp add: b_def b'_def list_update_append)
  have i: "?i < BUF_LEN" using ok'(4) by (simp add: net_line_def x)
  have "slash_loop 0 (b, row) = slash_loop ?i (b, row)"
    using ok'(1) i len by (intro slash_skip) (auto simp: b_def nth_append in_set_conv_nth)
  also have "\<dots> = slash_loop (?i + 1) (b', net_row row x)"
  proof -
    have "b ! ?i = CHR ''/''" by (simp add: b_def)
    moreover have "strtol 0 (drop (?i + 1) b') = (int n, NUL # rest)"
      using ok'(3) strtol_string_of_nat [of n rest] by (simp add: b'_def)
    moreover have "c_str b' = a" using ok'(2) by (simp add: c_str_def b'_def takeWhile_stop)
    moreover have "int_of_long (int n) = int n" using ok'(3) by (intro int_of_long_small) simp
    ultimately show ?thesis using i len upd by (simp add: slash_loop.simps [of ?i b] net_row_def x)
  qed
  also have "\<dots> = slash_loop BUF_LEN (b', net_row row x)"
    using clean i by (intro slash_skip) (auto simp: clean_buf_def in_set_conv_nth)
  also have "\<dots> = Inr (b', net_row row x)" by (simp add: slash_loop.simps [of BUF_LEN])
  finally show ?thesis using clean b by metis
qed

lemma getline_line:
  assumes "CHR 0x0A \<notin> set l" "length l < n"
  shows "getline n (l @ CHR 0x0A # s) = (Some l, s)"
proof -
  have "takeWhile (\<lambda>c. c \<noteq> CHR 0x0A) (l @ CHR 0x0A # s) = l"
    using assms(1) by (rule takeWhile_stop)
  then show ?thesis using assms(2) by (simp add: getline_def)
qed

lemma net_line_newline: "chn_net_ok x \<Longrightarrow> CHR 0x0A \<notin> set (net_line x)"
  using string_of_nat_digits digit_char_plain(5) by (fastforce simp: net_line_def chn_net_ok_def)

text \<open>What a loop over rows does.\<close>

fun act_all :: "(RouteRow \<Rightarrow> 'k \<Rightarrow> (int \<times> 'k) outcome) \<Rightarrow> RouteRow list \<Rightarrow> 'k \<Rightarrow> 'k outcome" where
  "act_all act [] k = Inr k"
| "act_all act (r # rs) k = bind_out (act r k) (\<lambda>(_, k). act_all act rs k)"

lemma net_row_again [simp]: "net_row (net_row row x) y = net_row row y"
  by (simp add: net_row_def)

lemma file_loop_rows:
  assumes "\<forall>x\<in>set nets. chn_net_ok x" "clean_buf buf"
  shows "file_loop act (chn_text nets) (buf, row) k = act_all act (map (net_row row) nets) k"
  using assms
proof (induction nets arbitrary: buf row k)
  case Nil
  then show ?case by (simp add: chn_text_def file_loop.simps [of _ "[]"] getline_def)
next
  case (Cons x nets)
  have x: "chn_net_ok x" using Cons.prems by simp
  obtain buf' where b: "slash_loop 0 (load_line (net_line x) buf, row) = Inr (buf', net_row row x)" "clean_buf buf'"
    using net_line_slash [OF x Cons.prems(2)] by blast
  have t: "chn_text (x # nets) = net_line x @ CHR 0x0A # chn_text nets" by (simp add: chn_text_def)
  have g: "getline BUF_LEN (chn_text (x # nets)) = (Some (net_line x), chn_text nets)"
    using x net_line_newline unfolding t chn_net_ok_def by (intro getline_line) auto
  have "file_loop act (chn_text nets) (buf', net_row row x) k' = act_all act (map (net_row row) nets) k'" for k'
    using Cons.IH [of buf' "net_row row x" k'] Cons.prems b(2) by (simp add: comp_def)
  then show ?case using g b(1)
    by (cases "act (net_row row x) k") (auto simp: file_loop.simps [of _ "chn_text (x # nets)"])
qed

text \<open>
  Reading the file of networks: when every line is \<open>address/length\<close> with a length up to 32 and shorter than
  the buffer, the loop acts on exactly the rows of the file, in order, whatever the row looked like
  before; the buffer that is reused between lines does no harm, as long as the uninitialised one
  holds no slash.
\<close>

lemma chn_rows:
  assumes "\<forall>x\<in>set nets. chn_net_ok x" "clean_buf junk"
  shows "file_loop act (chn_text nets) (junk, row) k = act_all act (map (net_row row) nets) k"
  using assms by (rule file_loop_rows)

definition demo_lines :: "chn_net list" where
  "demo_lines = [(''1.0.1.0'', 24), (''1.2.0.0'', 15)]"

lemma demo_lines_ok: "\<forall>x\<in>set demo_lines. chn_net_ok x"
  by (simp add: demo_lines_def chn_net_ok_def net_line_def BUF_LEN_def NUL_def string_of_nat.simps)

lemma demo_buf: "clean_buf (replicate BUF_LEN NUL)"
  by (simp add: clean_buf_def NUL_def)

lemma chn_rows_witness:
  "file_loop (\<lambda>r k. Inr (0, k @ [rr_dst r])) (chn_text demo_lines) (replicate BUF_LEN NUL, RouteRow_new) [] =
     Inr [''1.0.1.0'', ''1.2.0.0'']"
  using chn_rows [OF demo_lines_ok demo_buf, of "\<lambda>r k. Inr (0, k @ [rr_dst r])" RouteRow_new "[]"]
  by (simp add: demo_lines_def net_row_def)

section \<open>The kernel's table\<close>

text \<open>
  What is relied on of the kernel: \<open>tab\<close> gives the entries of a state. A successful \<open>SIOCADDRT\<close> adds the entry and
  a failed one changes nothing; \<open>SIOCDELRT\<close> removes an entry with the given destination, mask, gateway and
  device, and fails without effect when there is none.
\<close>

definition kernel_spec :: "'k route_kernel \<Rightarrow> ('k \<Rightarrow> rtentry set) \<Rightarrow> bool" where
  "kernel_spec K tab \<longleftrightarrow>
     (\<forall>r host k. tab (snd (rk_add K r host k)) = (if fst (rk_add K r host k) = 0 then insert r (tab k) else tab k)) \<and>
     (\<forall>r k. fst (rk_del K r k) = 0 \<longleftrightarrow> r \<in> tab k) \<and>
     (\<forall>r k. tab (snd (rk_del K r k)) = tab k - {r})"

lemma add_row_tab:
  assumes "kernel_spec K tab" "rtentry_of pton row = Inr e"
  shows "\<exists>r k'. add_route_row pton K row host k = Inr (r, k') \<and> tab k \<subseteq> tab k' \<and> tab k' \<subseteq> insert e (tab k)"
proof -
  obtain n k' where a: "rk_add K e host k = (n, k')" by fastforce
  have "tab (snd (rk_add K e host k)) = (if fst (rk_add K e host k) = 0 then insert e (tab k) else tab k)"
    using assms(1) unfolding kernel_spec_def by blast
  then show ?thesis using a assms(2) by (auto simp: add_route_row_def split: if_splits)
qed

lemma del_row_tab:
  assumes "kernel_spec K tab" "rtentry_of pton row = Inr e"
  shows "\<exists>r k'. del_route_row pton K row k = Inr (r, k') \<and> tab k' = tab k - {e}"
proof -
  obtain n k' where a: "rk_del K e k = (n, k')" by fastforce
  have "tab (snd (rk_del K e k)) = tab k - {e}"
    using assms(1) unfolding kernel_spec_def by blast
  then show ?thesis using a assms(2) by (simp add: del_route_row_def)
qed

lemma add_all_tab:
  assumes "kernel_spec K tab" "list_all2 (\<lambda>row e. rtentry_of pton row = Inr e) rows es"
  shows "\<exists>k'. act_all (\<lambda>row. add_route_row pton K row host) rows k = Inr k' \<and>
     tab k \<subseteq> tab k' \<and> tab k' \<subseteq> tab k \<union> set es"
  using assms(2)
proof (induction arbitrary: k rule: list_all2_induct)
  case Nil
  show ?case by simp
next
  case (Cons row rows e es)
  obtain r k1 where k1: "add_route_row pton K row host k = Inr (r, k1)" "tab k \<subseteq> tab k1" "tab k1 \<subseteq> insert e (tab k)"
    using add_row_tab [OF assms(1) Cons(1)] by blast
  obtain k2 where "act_all (\<lambda>row. add_route_row pton K row host) rows k1 = Inr k2" "tab k1 \<subseteq> tab k2"
      "tab k2 \<subseteq> tab k1 \<union> set es"
    using Cons(3) [of k1] by blast
  then show ?case using k1 by auto
qed

lemma del_all_tab:
  assumes "kernel_spec K tab" "list_all2 (\<lambda>row e. rtentry_of pton row = Inr e) rows es"
  shows "\<exists>k'. act_all (del_route_row pton K) rows k = Inr k' \<and> tab k' = tab k - set es"
  using assms(2)
proof (induction arbitrary: k rule: list_all2_induct)
  case Nil
  show ?case by simp
next
  case (Cons row rows e es)
  obtain r k1 where "del_route_row pton K row k = Inr (r, k1)" "tab k1 = tab k - {e}"
    using del_row_tab [OF assms(1) Cons(1)] by blast
  moreover obtain k2 where "act_all (del_route_row pton K) rows k1 = Inr k2" "tab k2 = tab k1 - set es"
    using Cons(3) [of k1] by blast
  ultimately show ?case by auto
qed

text \<open>The entries that the rows stand for.\<close>

definition entry :: "inet_pton \<Rightarrow> string \<Rightarrow> string \<Rightarrow> chn_net \<Rightarrow> rtentry" where
  "entry pton gw dev x =
     \<lparr>rt_dst = pton_or_zero pton (fst x), rt_gateway = pton_or_zero pton gw,
      rt_genmask = htonl (prefix_mask (snd x)), rt_dev = dev\<rparr>"

lemma rtentry_of_row:
  assumes "rr_netmask_sharp row = int n" "n \<le> 32"
  shows "rtentry_of pton row = Inr (entry pton (rr_gateway row) (rr_dev row) (rr_dst row, n))"
  using assms by (simp add: rtentry_of_def entry_def mask_loop_prefix)

lemma net_rows_entries:
  assumes "\<forall>x\<in>set nets. chn_net_ok x"
  shows "list_all2 (\<lambda>row e. rtentry_of pton row = Inr e) (map (net_row row) nets)
    (map (entry pton (rr_gateway row) (rr_dev row)) nets)"
  using assms
proof (induction nets)
  case (Cons x nets)
  have "rtentry_of pton (net_row row x) = Inr (entry pton (rr_gateway row) (rr_dev row) x)"
    using rtentry_of_row [of "net_row row x" "snd x"] Cons.prems by (simp add: net_row_def chn_net_ok_def)
  with Cons show ?case by simp
qed simp

definition halves :: "chn_net list" where
  "halves = [(''0.0.0.0'', 1), (''128.0.0.0'', 1)]"

lemma tunnel_row_entry: "rtentry_of pton (tunnel_row dst gw dev) = Inr (entry pton gw dev (dst, 1))"
  using rtentry_of_row [of "tunnel_row dst gw dev" 1] by (simp add: tunnel_row_def)

lemma set_chnroute_tab:
  assumes K: "kernel_spec K tab" and nets: "\<forall>x\<in>set nets. chn_net_ok x" "clean_buf junk" "filename \<noteq> []"
    and def: "get_default_route proc = Inr row"
  shows "\<exists>k'. set_chnroute pton K proc filename (Some (chn_text nets)) junk remote t k =
      Inr (0, t\<lparr>tb_default_gateway := rr_gateway row, tb_default_dev := rr_dev row, tb_modified := True\<rparr>, k') \<and>
     tab k \<subseteq> tab k' \<and>
     tab k' \<subseteq> tab k \<union> entry pton (rr_gateway row) (rr_dev row) ` ({(remote, 32)} \<union> set nets)"
proof -
  let ?row = "row\<lparr>rr_dst := remote, rr_netmask := ''255.255.255.255'', rr_netmask_sharp := 32\<rparr>"
  let ?e = "entry pton (rr_gateway row) (rr_dev row)"
  have "rtentry_of pton ?row = Inr (?e (remote, 32))"
    using rtentry_of_row [of ?row 32] by simp
  then obtain r k1 where k1: "add_route_row pton K ?row True k = Inr (r, k1)" "tab k \<subseteq> tab k1"
      "tab k1 \<subseteq> insert (?e (remote, 32)) (tab k)"
    using add_row_tab [OF K] by blast
  have rows: "list_all2 (\<lambda>row e. rtentry_of pton row = Inr e) (map (net_row ?row) nets) (map ?e nets)"
    using net_rows_entries [OF nets(1), of pton ?row] by simp
  obtain k2 where "act_all (\<lambda>row. add_route_row pton K row False) (map (net_row ?row) nets) k1 = Inr k2"
      and k2: "tab k1 \<subseteq> tab k2" "tab k2 \<subseteq> tab k1 \<union> set (map ?e nets)"
    using add_all_tab [OF K rows] by blast
  then have "file_loop (\<lambda>row. add_route_row pton K row False) (chn_text nets) (junk, ?row) k1 = Inr k2"
    by (simp add: file_loop_rows [OF nets(1,2)])
  moreover have "tab k \<subseteq> tab k2" "tab k2 \<subseteq> tab k \<union> ?e ` ({(remote, 32)} \<union> set nets)" using k1 k2 by auto
  ultimately show ?thesis using def k1(1) nets(3) by (auto simp: set_chnroute_def Let_def)
qed

lemma set_default_tab:
  assumes "kernel_spec K tab"
  shows "\<exists>k'. set_default_as_tunnel pton K dev gw t k = Inr (0, t\<lparr>tb_tunnel_gateway := gw\<rparr>, k') \<and>
     tab k \<subseteq> tab k' \<and> tab k' \<subseteq> tab k \<union> entry pton gw dev ` set halves"
proof -
  obtain r k1 where k1: "add_route_row pton K (tunnel_row ''0.0.0.0'' gw dev) False k = Inr (r, k1)" "tab k \<subseteq> tab k1"
      "tab k1 \<subseteq> insert (entry pton gw dev (''0.0.0.0'', 1)) (tab k)"
    using add_row_tab [OF assms tunnel_row_entry] by blast
  obtain r' k2 where k2: "add_route_row pton K (tunnel_row ''128.0.0.0'' gw dev) False k1 = Inr (r', k2)" "tab k1 \<subseteq> tab k2"
      "tab k2 \<subseteq> insert (entry pton gw dev (''128.0.0.0'', 1)) (tab k1)"
    using add_row_tab [OF assms tunnel_row_entry] by blast
  have "set_default_as_tunnel pton K dev gw t k = Inr (0, t\<lparr>tb_tunnel_gateway := gw\<rparr>, k2)"
    using k1(1) k2(1) by (simp add: set_default_as_tunnel_def)
  moreover have "tab k \<subseteq> tab k2 \<and> tab k2 \<subseteq> tab k \<union> entry pton gw dev ` set halves"
    using k1 k2 by (auto simp: halves_def)
  ultimately show ?thesis by blast
qed

lemma delete_chnroute_tab:
  assumes K: "kernel_spec K tab" and nets: "\<forall>x\<in>set nets. chn_net_ok x" "clean_buf junk" "filename \<noteq> []"
    and t: "tb_modified t"
  shows "\<exists>k'. delete_chnroute pton K filename (Some (chn_text nets)) junk t k = Inr (0, t\<lparr>tb_modified := False\<rparr>, k') \<and>
     tab k' = tab k - entry pton (tb_tunnel_gateway t) (tb_default_dev t) ` set halves
       - entry pton (tb_default_gateway t) (tb_default_dev t) ` set nets"
proof -
  let ?gw = "tb_tunnel_gateway t" and ?dev = "tb_default_dev t"
  let ?row = "tunnel_row ''128.0.0.0'' (tb_default_gateway t) ?dev"
  obtain r k1 where k1: "del_route_row pton K (tunnel_row ''0.0.0.0'' ?gw ?dev) k = Inr (r, k1)"
      "tab k1 = tab k - {entry pton ?gw ?dev (''0.0.0.0'', 1)}"
    using del_row_tab [OF K tunnel_row_entry] by blast
  obtain r' k2 where k2: "del_route_row pton K (tunnel_row ''128.0.0.0'' ?gw ?dev) k1 = Inr (r', k2)"
      "tab k2 = tab k1 - {entry pton ?gw ?dev (''128.0.0.0'', 1)}"
    using del_row_tab [OF K tunnel_row_entry] by blast
  have rows: "list_all2 (\<lambda>row e. rtentry_of pton row = Inr e) (map (net_row ?row) nets)
      (map (entry pton (tb_default_gateway t) ?dev) nets)"
    using net_rows_entries [OF nets(1), of pton ?row] by (simp add: tunnel_row_def)
  obtain k3 where k3: "act_all (del_route_row pton K) (map (net_row ?row) nets) k2 = Inr k3"
      "tab k3 = tab k2 - set (map (entry pton (tb_default_gateway t) ?dev) nets)"
    using del_all_tab [OF K rows] by blast
  have rr: "(tunnel_row ''0.0.0.0'' ?gw ?dev)\<lparr>rr_dst := ''128.0.0.0''\<rparr> = tunnel_row ''128.0.0.0'' ?gw ?dev"
      "(tunnel_row ''128.0.0.0'' ?gw ?dev)\<lparr>rr_gateway := tb_default_gateway t\<rparr> = ?row"
    by (simp_all add: tunnel_row_def)
  have "file_loop (del_route_row pton K) (chn_text nets) (junk, ?row) k2 = Inr k3"
    using k3(1) by (simp add: file_loop_rows [OF nets(1,2)])
  then have "delete_chnroute pton K filename (Some (chn_text nets)) junk t k = Inr (0, t\<lparr>tb_modified := False\<rparr>, k3)"
    using t nets(3) k1(1) k2(1) by (simp only: delete_chnroute_def Let_def rr) simp
  moreover have "tab k3 = tab k - entry pton ?gw ?dev ` set halves - entry pton (tb_default_gateway t) ?dev ` set nets"
    using k1(2) k2(2) k3(2) by (auto simp: halves_def)
  ultimately show ?thesis by blast
qed

lemma routes_restored:
  assumes K: "kernel_spec K tab" and nets: "\<forall>x\<in>set nets. chn_net_ok x" "clean_buf junk" "clean_buf junk'" "filename \<noteq> []"
    and def: "get_default_route proc = Inr row"
    and new: "tab k \<inter> entry pton (rr_gateway row) (rr_dev row) ` set nets = {}"
      "tab k \<inter> entry pton gw (rr_dev row) ` set halves = {}"
  shows "\<exists>t1 k1 t2 k2 t3 k3.
     set_chnroute pton K proc filename (Some (chn_text nets)) junk remote t k = Inr (0, t1, k1) \<and>
     set_default_as_tunnel pton K dev gw t1 k1 = Inr (0, t2, k2) \<and>
     delete_chnroute pton K filename (Some (chn_text nets)) junk' t2 k2 = Inr (0, t3, k3) \<and>
     tab k \<subseteq> tab k3 \<and>
     tab k3 \<subseteq> tab k \<union> {entry pton (rr_gateway row) (rr_dev row) (remote, 32)} \<union> entry pton gw dev ` set halves"
proof -
  let ?t1 = "t\<lparr>tb_default_gateway := rr_gateway row, tb_default_dev := rr_dev row, tb_modified := True\<rparr>"
  let ?t2 = "?t1\<lparr>tb_tunnel_gateway := gw\<rparr>"
  let ?e = "entry pton (rr_gateway row) (rr_dev row)"
  obtain k1 where k1: "set_chnroute pton K proc filename (Some (chn_text nets)) junk remote t k = Inr (0, ?t1, k1)"
      "tab k \<subseteq> tab k1" "tab k1 \<subseteq> tab k \<union> ?e ` ({(remote, 32)} \<union> set nets)"
    using set_chnroute_tab [OF K nets(1,2,4) def] by blast
  obtain k2 where k2: "set_default_as_tunnel pton K dev gw ?t1 k1 = Inr (0, ?t2, k2)"
      "tab k1 \<subseteq> tab k2" "tab k2 \<subseteq> tab k1 \<union> entry pton gw dev ` set halves"
    using set_default_tab [OF K, of pton dev gw ?t1 k1] by blast
  have m: "tb_modified ?t2" by simp
  obtain k3 where k3: "delete_chnroute pton K filename (Some (chn_text nets)) junk' ?t2 k2 =
        Inr (0, ?t2\<lparr>tb_modified := False\<rparr>, k3)"
      "tab k3 = tab k2 - entry pton gw (rr_dev row) ` set halves - ?e ` set nets"
    using delete_chnroute_tab [OF K nets(1,3,4) m, of pton k2] by auto
  have "tab k \<subseteq> tab k3" using k1(2) k2(2) k3(2) new by blast
  moreover have "tab k3 \<subseteq> tab k \<union> {?e (remote, 32)} \<union> entry pton gw dev ` set halves"
    using k1(3) k2(3) k3(2) by blast
  ultimately show ?thesis using k1(1) k2(1) k3(1) by blast
qed


text \<open>A kernel whose state is the set of its entries.\<close>

definition demo_kernel :: "rtentry set route_kernel" where
  "demo_kernel = \<lparr>rk_add = (\<lambda>r host k. if r \<in> k then (EEXIST, k) else (0, insert r k)),
     rk_del = (\<lambda>r k. if r \<in> k then (0, k - {r}) else (3, k))\<rparr>"

lemma demo_kernel_spec: "kernel_spec demo_kernel id"
  by (auto simp: kernel_spec_def demo_kernel_def EEXIST_def)


text \<open>
  The uninitialised line buffer: the scan for \<open>'/'\<close> runs over all 100 characters of the buffer and not only
  over the line, so a slash that the stack happens to hold behind the first line replaces the prefix
  length of that line: for \<open>10.0.0.0/8\<close> with the junk \<open>/0\<close> behind it, the row gets length 0.
\<close>

definition slash_junk :: string where
  "slash_junk = replicate 11 NUL @ ''/0'' @ replicate 87 NUL"

lemma stale_slash:
  "slash_loop 0 (load_line ''10.0.0.0/8'' slash_junk, RouteRow_new) =
     Inr (''10.0.0.0'' @ [NUL] @ ''8'' @ [NUL, NUL] @ ''0'' @ replicate 87 NUL,
       RouteRow_new\<lparr>rr_dst := ''10.0.0.0'', rr_netmask_sharp := 0\<rparr>)"
  by code_simp

text \<open>
  An address that \<open>inet_pton\<close> rejects: its return value is 0 and not negative, so the row is not refused but
  requests a route for \<open>0.0.0.0\<close>.
\<close>

lemma invalid_address_adds_zero:
  assumes "pton (rr_dst row) = None" "rr_netmask_sharp row = int n" "n \<le> 32"
  shows "add_route_row pton K row host k =
     (case rk_add K ((entry pton (rr_gateway row) (rr_dev row) (rr_dst row, n))\<lparr>rt_dst := 0\<rparr>) host k of
        (errno, k) \<Rightarrow> Inr (if errno = 0 \<or> errno = EEXIST then 0 else -1, k))"
  using assms by (simp add: add_route_row_def rtentry_of_row entry_def pton_or_zero_def split: prod.splits)

end
