(* ===== verification/Config.thy ===== *)
theory Config
  imports Prelude
begin

text \<open>
  Model of the configuration in \<open>src/src/SharpVpn.h\<close> and \<open>src/src/SharpVpn.cpp\<close>: the record of arguments, its default
  values, reading it from a JSON file and writing it back. The JSON library is a parameter, a
  record of the operations used, over an arbitrary type of values and of file contents; what
  is relied on of it is \<open>json_spec\<close>.
\<close>

section \<open>Arguments\<close>

datatype SharpvpnMode = SharpvpnModeServer | SharpvpnModeClient

datatype VpnStatus = VpnNotRunning | VpnConnectingServer | VpnConnected | VpnClosed

record VpnArgs =
  va_mode :: SharpvpnMode
  va_bind_host :: string
  va_bind_port :: int
  va_tunnel_ip :: string
  va_tunnel_name :: string
  va_mtu :: int
  va_download_speed :: int
  va_upload_speed :: int
  va_encryption_key :: string
  va_pid_file :: string
  va_log_file :: string
  va_chnroute_file :: string
  va_chinadns_host :: string
  va_token :: string
  va_error :: bool

definition get_default_args :: "bool \<Rightarrow> VpnArgs" where
  \<comment> \<open>\<open>error\<close> is not initialised\<close>
  "get_default_args junk =
     \<lparr>va_mode = SharpvpnModeServer, va_bind_host = ''0.0.0.0'', va_bind_port = 50010,
      va_tunnel_ip = ''10.7.0.1'', va_tunnel_name = ''tun0'', va_mtu = 1496,
      va_download_speed = 100, va_upload_speed = 100, va_encryption_key = ''my_password'',
      va_pid_file = ''/var/run/sharpvpn.pid'', va_log_file = ''sharpvpn.log'',
      va_chnroute_file = [], va_chinadns_host = [], va_token = ''default_token'', va_error = junk\<rparr>"

section \<open>The file\<close>

record ('j, 'f) json =
  js_parse :: "'f \<Rightarrow> 'j option"          \<comment> \<open>\<open>Reader::parse\<close>\<close>
  js_write :: "'j \<Rightarrow> 'f"                 \<comment> \<open>\<open>FastWriter::write\<close>\<close>
  js_null :: 'j                         \<comment> \<open>\<open>Value()\<close>\<close>
  js_isNull :: "'j \<Rightarrow> bool"
  js_get :: "string \<Rightarrow> 'j \<Rightarrow> 'j option"   \<comment> \<open>\<open>root[key]\<close>; \<open>None\<close> when \<open>root\<close> has no members and throws\<close>
  js_put :: "string \<Rightarrow> 'j \<Rightarrow> 'j \<Rightarrow> 'j"     \<comment> \<open>\<^verbatim>\<open>root[key] = value\<close>\<close>
  js_str :: "string \<Rightarrow> 'j"
  js_int :: "int \<Rightarrow> 'j"
  js_asString :: "'j \<Rightarrow> string option"   \<comment> \<open>\<open>None\<close> when it throws\<close>
  js_asInt :: "'j \<Rightarrow> int option"

definition read_str ::
  "('j, 'f) json \<Rightarrow> 'j \<Rightarrow> string \<Rightarrow> (string \<Rightarrow> VpnArgs \<Rightarrow> VpnArgs) \<Rightarrow> VpnArgs \<Rightarrow> VpnArgs outcome" where
  "read_str js root key upd args =
     bind_out (of_option Uncaught (js_get js key root)) (\<lambda>v.
     if js_isNull js v then Inr args
     else bind_out (of_option Uncaught (js_asString js v)) (\<lambda>s. Inr (upd s args)))"

definition read_int ::
  "('j, 'f) json \<Rightarrow> 'j \<Rightarrow> string \<Rightarrow> (int \<Rightarrow> VpnArgs \<Rightarrow> VpnArgs) \<Rightarrow> VpnArgs \<Rightarrow> VpnArgs outcome" where
  "read_int js root key upd args =
     bind_out (of_option Uncaught (js_get js key root)) (\<lambda>v.
     if js_isNull js v then Inr args
     else bind_out (of_option Uncaught (js_asInt js v)) (\<lambda>i. Inr (upd i args)))"

definition mode_of :: "string \<Rightarrow> SharpvpnMode" where
  "mode_of s = (if s = ''server'' then SharpvpnModeServer else SharpvpnModeClient)"

definition read_root :: "('j, 'f) json \<Rightarrow> 'j \<Rightarrow> VpnArgs \<Rightarrow> VpnArgs outcome" where
  "read_root js root args =
     bind_out (read_str js root ''mode'' (\<lambda>s. va_mode_update (\<lambda>_. mode_of s)) args) (\<lambda>args.
     bind_out (read_str js root ''server'' (\<lambda>s. va_bind_host_update (\<lambda>_. s)) args) (\<lambda>args.
     bind_out (read_int js root ''port'' (\<lambda>i. va_bind_port_update (\<lambda>_. i)) args) (\<lambda>args.
     bind_out (read_str js root ''tunnel_name'' (\<lambda>s. va_tunnel_name_update (\<lambda>_. s)) args) (\<lambda>args.
     bind_out (read_int js root ''mtu'' (\<lambda>i. va_mtu_update (\<lambda>_. i)) args) (\<lambda>args.
     bind_out (read_str js root ''tunnel_ip'' (\<lambda>s. va_tunnel_ip_update (\<lambda>_. s)) args) (\<lambda>args.
     bind_out (read_int js root ''download_speed'' (\<lambda>i. va_download_speed_update (\<lambda>_. i)) args) (\<lambda>args.
     bind_out (read_int js root ''upload_speed'' (\<lambda>i. va_upload_speed_update (\<lambda>_. i)) args) (\<lambda>args.
     bind_out (read_str js root ''password'' (\<lambda>s. va_encryption_key_update (\<lambda>_. s)) args) (\<lambda>args.
     bind_out (read_str js root ''log'' (\<lambda>s. va_log_file_update (\<lambda>_. s)) args) (\<lambda>args.
     bind_out (read_str js root ''chnroute'' (\<lambda>s. va_chnroute_file_update (\<lambda>_. s)) args) (\<lambda>args.
     bind_out (read_str js root ''chinadns_host'' (\<lambda>s. va_chinadns_host_update (\<lambda>_. s)) args) (\<lambda>args.
     read_str js root ''token'' (\<lambda>s. va_token_update (\<lambda>_. s)) args))))))))))))"

definition parse_file_args :: "('j, 'f) json \<Rightarrow> bool \<Rightarrow> 'f option \<Rightarrow> VpnArgs outcome" where
  \<comment> \<open>\<open>None\<close> for a file that cannot be opened\<close>
  "parse_file_args js junk file =
     (let args = (get_default_args junk)\<lparr>va_error := False\<rparr> in
      case file of
        None \<Rightarrow> Inr (args\<lparr>va_error := True\<rparr>)
      | Some f \<Rightarrow>
          case js_parse js f of
            None \<Rightarrow> Inr (args\<lparr>va_error := True\<rparr>)
          | Some root \<Rightarrow> read_root js root args)"

definition args_root :: "('j, 'f) json \<Rightarrow> VpnArgs \<Rightarrow> 'j" where
  "args_root js args =
     (let str = (\<lambda>k s. js_put js k (js_str js s)); int = (\<lambda>k i. js_put js k (js_int js i));
          root = js_null js;
          root = str ''server'' (va_bind_host args) root;
          root = int ''port'' (va_bind_port args) root;
          root = str ''tunnel_ip'' (va_tunnel_ip args) root;
          root = str ''tunnel_name'' (va_tunnel_name args) root;
          root = int ''mtu'' (va_mtu args) root;
          root = int ''download_speed'' (va_download_speed args) root;
          root = int ''upload_speed'' (va_upload_speed args) root;
          root = str ''password'' (va_encryption_key args) root;
          root = str ''chnroute'' (va_chnroute_file args) root;
          root = str ''chinadns_host'' (va_chinadns_host args) root;
          root = str ''token'' (va_token args) root;
          root = (if va_chinadns_host args \<noteq> [] then str ''chinadns_host'' (va_chinadns_host args) root else root);
          root = (if va_mode args = SharpvpnModeClient then str ''mode'' ''client'' root else str ''mode'' ''server'' root) in
      str ''chnroute'' (va_chnroute_file args) root)"

definition refresh_args_file :: "('j, 'f) json \<Rightarrow> bool \<Rightarrow> VpnArgs \<Rightarrow> int \<times> 'f option" where
  \<comment> \<open>the return value and what is written; \<open>opened\<close>: the file can be opened for writing\<close>
  "refresh_args_file js opened args =
     (let root = args_root js args in
      if \<not> opened then (-1, None) else (0, Some (js_write js root)))"

section \<open>What is relied on of the library\<close>

text \<open>
  \<open>obj\<close> tells which values have members: the null value and what assignments to members make of it. A
  string without a zero character and a number are read back as they were stored, and an object that was
  written is parsed to itself.
\<close>

definition plain :: "string \<Rightarrow> bool" where
  "plain s \<longleftrightarrow> CHR 0x00 \<notin> set s"

definition json_spec :: "('j, 'f) json \<Rightarrow> ('j \<Rightarrow> bool) \<Rightarrow> bool" where
  "json_spec js obj \<longleftrightarrow>
     obj (js_null js) \<and> js_isNull js (js_null js) \<and>
     (\<forall>k. js_get js k (js_null js) = Some (js_null js)) \<and>
     (\<forall>k x v. obj v \<longrightarrow> obj (js_put js k x v) \<and>
        (\<forall>k'. js_get js k' (js_put js k x v) = (if k' = k then Some x else js_get js k' v))) \<and>
     (\<forall>s. \<not> js_isNull js (js_str js s)) \<and> (\<forall>i. \<not> js_isNull js (js_int js i)) \<and>
     (\<forall>s. plain s \<longrightarrow> js_asString js (js_str js s) = Some s) \<and> (\<forall>i. js_asInt js (js_int js i) = Some i) \<and>
     (\<forall>v. obj v \<longrightarrow> js_parse js (js_write js v) = Some v)"

definition args_plain :: "VpnArgs \<Rightarrow> bool" where
  "args_plain a \<longleftrightarrow> list_all plain [va_bind_host a, va_tunnel_ip a, va_tunnel_name a, va_encryption_key a,
     va_chnroute_file a, va_chinadns_host a, va_token a]"

lemma get_put:
  assumes "json_spec js obj" "obj v"
  shows "obj (js_put js k x v)" "js_get js k' (js_put js k x v) = (if k' = k then Some x else js_get js k' v)"
  using assms unfolding json_spec_def by blast+

lemma json_values:
  assumes "json_spec js obj"
  shows "obj (js_null js)" "js_isNull js (js_null js)" "js_get js k (js_null js) = Some (js_null js)"
    "\<not> js_isNull js (js_str js s)" "\<not> js_isNull js (js_int js i)"
    "plain s \<Longrightarrow> js_asString js (js_str js s) = Some s" "js_asInt js (js_int js i) = Some i"
    "obj v \<Longrightarrow> js_parse js (js_write js v) = Some v"
  using assms unfolding json_spec_def by blast+

lemma read_str_put:
  assumes "json_spec js obj" "js_get js k root = Some (js_str js s)" "plain s"
  shows "read_str js root k f a = Inr (f s a)"
  using assms by (simp add: read_str_def json_values)

lemma read_int_put:
  assumes "json_spec js obj" "js_get js k root = Some (js_int js i)"
  shows "read_int js root k f a = Inr (f i a)"
  using assms by (simp add: read_int_def json_values)

lemma read_str_absent:
  assumes "json_spec js obj" "js_get js k root = Some (js_null js)"
  shows "read_str js root k f a = Inr a"
  using assms by (simp add: read_str_def json_values)

text \<open>The members of the written object.\<close>

definition args_member :: "('j, 'f) json \<Rightarrow> VpnArgs \<Rightarrow> string \<Rightarrow> 'j" where
  "args_member js a k =
     (if k = ''server'' then js_str js (va_bind_host a) else if k = ''port'' then js_int js (va_bind_port a)
      else if k = ''tunnel_ip'' then js_str js (va_tunnel_ip a) else if k = ''tunnel_name'' then js_str js (va_tunnel_name a)
      else if k = ''mtu'' then js_int js (va_mtu a) else if k = ''download_speed'' then js_int js (va_download_speed a)
      else if k = ''upload_speed'' then js_int js (va_upload_speed a) else if k = ''password'' then js_str js (va_encryption_key a)
      else if k = ''chnroute'' then js_str js (va_chnroute_file a) else if k = ''chinadns_host'' then js_str js (va_chinadns_host a)
      else if k = ''token'' then js_str js (va_token a)
      else if k = ''mode'' then js_str js (case va_mode a of SharpvpnModeServer \<Rightarrow> ''server'' | SharpvpnModeClient \<Rightarrow> ''client'')
      else js_null js)"

lemma args_root_get:
  assumes "json_spec js obj"
  shows "obj (args_root js a)" "js_get js k (args_root js a) = Some (args_member js a k)"
proof -
  note s = get_put [OF assms] json_values(1,3) [OF assms]
  show "obj (args_root js a)" by (simp add: args_root_def Let_def s)
  show "js_get js k (args_root js a) = Some (args_member js a k)"
    by (simp add: args_root_def args_member_def Let_def s split: SharpvpnMode.splits)
qed

text \<open>
  C37: Writing the configuration and reading it again gives back every setting, except the two that \<open>refresh_args_file\<close>
  does not write: the name of the log file, which \<open>parse_file_args\<close> would read, and that of the pid file
  come back as the defaults.
\<close>

theorem config_roundtrip:
  assumes js: "json_spec js obj" and a: "args_plain args"
  shows "\<exists>f. refresh_args_file js True args = (0, Some f) \<and>
     parse_file_args js junk (Some f) =
       Inr (args\<lparr>va_pid_file := ''/var/run/sharpvpn.pid'', va_log_file := ''sharpvpn.log'', va_error := False\<rparr>)"
proof -
  let ?r = "args_root js args"
  have str: "read_str js ?r k f x = Inr (f s x)" if "args_member js args k = js_str js s" "plain s" for k f x s
    using that by (intro read_str_put [OF js]) (simp_all add: args_root_get [OF js])
  have int: "read_int js ?r k f x = Inr (f i x)" if "args_member js args k = js_int js i" for k f x i
    using that by (intro read_int_put [OF js]) (simp add: args_root_get [OF js])
  have log: "read_str js ?r ''log'' f x = Inr x" for f x
    by (intro read_str_absent [OF js]) (simp add: args_root_get [OF js] args_member_def)
  have p: "plain (va_bind_host args)" "plain (va_tunnel_ip args)" "plain (va_tunnel_name args)"
      "plain (va_encryption_key args)" "plain (va_chnroute_file args)" "plain (va_chinadns_host args)" "plain (va_token args)"
    using a by (simp_all add: args_plain_def)
  let ?mode = "case va_mode args of SharpvpnModeServer \<Rightarrow> ''server'' | SharpvpnModeClient \<Rightarrow> ''client''"
  have m: "plain ?mode" "mode_of ?mode = va_mode args"
    by (simp_all add: plain_def mode_of_def split: SharpvpnMode.splits)
  have "read_root js ?r ((get_default_args junk)\<lparr>va_error := False\<rparr>) =
      Inr (args\<lparr>va_pid_file := ''/var/run/sharpvpn.pid'', va_log_file := ''sharpvpn.log'', va_error := False\<rparr>)"
    using p m by (simp add: read_root_def str [of "''mode''" ?mode] str [of "''server''" "va_bind_host args"]
      str [of "''tunnel_name''" "va_tunnel_name args"] str [of "''tunnel_ip''" "va_tunnel_ip args"]
      str [of "''password''" "va_encryption_key args"] str [of "''chnroute''" "va_chnroute_file args"]
      str [of "''chinadns_host''" "va_chinadns_host args"] str [of "''token''" "va_token args"]
      int log args_member_def get_default_args_def)
  then show ?thesis
    using args_root_get(1) [OF js] json_values(8) [OF js] by (simp add: refresh_args_file_def parse_file_args_def)
qed

text \<open>A small library that satisfies the specification.\<close>

datatype jv = JNull | JStr string | JInt int | JObj "(string \<times> jv) list"

fun jv_get :: "string \<Rightarrow> jv \<Rightarrow> jv option" where
  "jv_get k JNull = Some JNull"
| "jv_get k (JObj m) = Some (case map_of m k of None \<Rightarrow> JNull | Some x \<Rightarrow> x)"
| "jv_get k _ = None"

fun jv_put :: "string \<Rightarrow> jv \<Rightarrow> jv \<Rightarrow> jv" where
  "jv_put k x (JObj m) = JObj ((k, x) # m)"
| "jv_put k x _ = JObj [(k, x)]"

fun jv_obj :: "jv \<Rightarrow> bool" where
  "jv_obj JNull = True"
| "jv_obj (JObj m) = True"
| "jv_obj _ = False"

definition demo_json :: "(jv, jv) json" where
  "demo_json = \<lparr>js_parse = Some, js_write = id, js_null = JNull, js_isNull = (\<lambda>v. v = JNull), js_get = jv_get,
     js_put = jv_put, js_str = JStr, js_int = JInt,
     js_asString = (\<lambda>v. case v of JStr s \<Rightarrow> Some s | _ \<Rightarrow> None), js_asInt = (\<lambda>v. case v of JInt i \<Rightarrow> Some i | _ \<Rightarrow> None)\<rparr>"

lemma jv_obj_put: "jv_obj (jv_put k x v)"
  by (cases v) simp_all

lemma jv_get_put: "jv_obj v \<Longrightarrow> jv_get k' (jv_put k x v) = (if k' = k then Some x else jv_get k' v)"
  by (cases v) simp_all

lemma demo_json_spec: "json_spec demo_json jv_obj"
  by (simp add: json_spec_def demo_json_def jv_obj_put jv_get_put)

theorem config_roundtrip_witness:
  "\<exists>f. refresh_args_file demo_json True ((get_default_args True)\<lparr>va_mode := SharpvpnModeClient\<rparr>) = (0, Some f) \<and>
     parse_file_args demo_json False (Some f) = Inr ((get_default_args False)\<lparr>va_mode := SharpvpnModeClient\<rparr>)"
proof -
  have "args_plain ((get_default_args True)\<lparr>va_mode := SharpvpnModeClient\<rparr>)"
    by (simp add: args_plain_def plain_def get_default_args_def)
  from config_roundtrip [OF demo_json_spec this] show ?thesis by (simp add: get_default_args_def)
qed

end
