(* ===== verification/Vpn.thy ===== *)
theory Vpn
  imports VpnUsers RouteTable Config Resolver
begin

text \<open>
  Model of the life cycle of \<open>src/src/SharpVpn.cpp\<close> on Linux: construction, \<open>init\<close>, the client's side of \<open>run\<close> up to the
  start of its threads, and \<open>stop\<close>. It composes the tunnel, the reliable socket, the route table
  and the resolver. The world around is a record: the kernel's routes, \<open>/etc/resolv.conf\<close> and whether it
  can be opened. The server's side of \<open>run\<close> is \<open>func_socket_register\<close>, \<open>func_socket_turn\<close> and \<open>forward_turn\<close> of \<open>VpnUsers\<close>.
\<close>

record vpn =
  vp_mode :: SharpvpnMode
  vp_host :: string
  vp_port :: int
  vp_args :: VpnArgs
  vp_status :: VpnStatus
  vp_tunnel :: tunnel
  vp_sock :: conn
  vp_chinadns :: Chinadns
  vp_table :: route_table
  vp_running :: bool

record 'k world =
  wd_routes :: 'k
  wd_resolv :: string
  wd_resolv_r :: bool
  wd_resolv_w :: bool

definition SharpVpn_new :: "(VpnArgs \<Rightarrow> rsock) \<Rightarrow> u32 \<Rightarrow> int \<Rightarrow> bool \<Rightarrow> VpnArgs \<Rightarrow> vpn" where
  \<comment> \<open>\<open>mk\<close> constructs the socket with the speeds, the key and \<open>MAX_SEGMENT\<close> of the arguments; the next three are uninitialised values\<close>
  "SharpVpn_new mk junk_ip junk_port junk_running args =
     \<lparr>vp_mode = va_mode args, vp_host = va_bind_host args, vp_port = va_bind_port args, vp_args = args,
      vp_status = VpnNotRunning,
      vp_tunnel = SharpTunnel_new (va_tunnel_name args) (va_tunnel_ip args) (TUNNEL_MTU (va_mtu args)) junk_ip,
      vp_sock = conn_new (mk args), vp_chinadns = Chinadns_none junk_port, vp_table = RouteTable_new,
      vp_running = junk_running\<rparr>"

text \<open>\<open>tun_init\<close> is the tunnel's \<open>init\<close>, with what the system answers.\<close>

definition vpn_init ::
  "(bool \<Rightarrow> tunnel \<Rightarrow> int \<times> tunnel) \<Rightarrow> host_lookup \<Rightarrow> sockaddr \<Rightarrow> (sockaddr \<Rightarrow> bool) \<Rightarrow> vpn \<Rightarrow> int \<times> vpn" where
  "vpn_init tun_init gai junk can_bind v =
     (case tun_init (vp_mode v = SharpvpnModeServer) (vp_tunnel v) of (r, t) \<Rightarrow>
        let v = v\<lparr>vp_tunnel := t\<rparr> in
        if r < 0 then (r, v)
        else if vp_mode v = SharpvpnModeServer then
          (case bind_addr_host gai junk can_bind (vp_host v) (word_of_int (vp_port v)) (vp_sock v) of (r, c) \<Rightarrow>
             if r < 0 then (-1, v\<lparr>vp_sock := c\<rparr>)
             else (0, v\<lparr>vp_sock := snd (listen_addr c)\<rparr>))
        else (0, v))"

section \<open>The client\<close>

definition bytes_of_string :: "string \<Rightarrow> bytes" where
  "bytes_of_string s = map (\<lambda>c. of_nat (of_char c)) s"

text \<open>
  Up to the request for an address. \<open>connect\<close> is \<open>connect_addr(host, port)\<close>. The second component lists the calls of the status
  handler.
\<close>

definition client_connect ::
  "(string \<Rightarrow> u32 \<Rightarrow> conn \<Rightarrow> (int \<times> conn) outcome) \<Rightarrow> vpn \<Rightarrow> ((int \<times> vpn) \<times> VpnStatus list) outcome" where
  "client_connect connect v =
     (let v = v\<lparr>vp_running := True, vp_status := VpnConnectingServer\<rparr> in
      bind_out (connect (vp_host v) (word_of_int (vp_port v)) (vp_sock v)) (\<lambda>(r, c).
      let v = v\<lparr>vp_sock := c\<rparr> in
      if r < 0 then Inr ((-1, v), [VpnConnectingServer])
      else
        let v = v\<lparr>vp_status := VpnConnected\<rparr>; token = bytes_of_string (va_token (vp_args v)) in
        bind_out (send_package token (length token) (cn_sock (vp_sock v))) (\<lambda>(_, s).
        Inr ((0, v\<lparr>vp_sock := (vp_sock v)\<lparr>cn_sock := s\<rparr>\<rparr>), [VpnConnectingServer, VpnConnected]))))"

text \<open>
  The answer is received into the four bytes of \<open>info\<close>, which are not initialised. \<open>None\<close> while it has not arrived.
\<close>

definition recv_dhcp :: "env \<Rightarrow> bytes \<Rightarrow> vpn \<Rightarrow> (u32 \<times> vpn) option outcome" where
  "recv_dhcp e junk v =
     bind_out (recv_package e 4 (cn_sock (vp_sock v))) (\<lambda>(r, s).
     let v = v\<lparr>vp_sock := (vp_sock v)\<lparr>cn_sock := s\<rparr>\<rparr> in
     Inr (case r of
            RecvBlocked \<Rightarrow> None
          | RecvClosed \<Rightarrow> Some (of_nat (le_val junk), v)
          | RecvSegment seg \<Rightarrow> Some (of_nat (le_val (overlay seg junk)), v)))"

record 'k host_env =
  he_pton :: inet_pton
  he_kernel :: "'k route_kernel"
  he_request :: "request \<Rightarrow> bool"
  he_proc_route :: "string option"                \<comment> \<open>\<open>/proc/net/route\<close>\<close>
  he_file :: "string \<Rightarrow> string option"            \<comment> \<open>the files that can be opened\<close>
  he_junk :: string                              \<comment> \<open>the uninitialised line buffer\<close>

text \<open>What follows the answer: the tunnel's address, the resolver and the routes.\<close>

definition client_configure :: "'k host_env \<Rightarrow> u32 \<Rightarrow> vpn \<times> 'k world \<Rightarrow> (vpn \<times> 'k world) outcome" where
  "client_configure h ip st =
     (let (v, w) = st;
          args = vp_args v;
          v = v\<lparr>vp_tunnel := snd (fst (linux_set_ip (he_request h) ip (vp_tunnel v)))\<rparr>;
          (v, w) =
            (if va_chinadns_host args \<noteq> [] then
               case Chinadns_start (wd_resolv_r w) (wd_resolv_w w)
                      (Chinadns_new ''127.0.0.1'' 53 (va_chnroute_file args)) (wd_resolv w) of
                 (_, c, f, _) \<Rightarrow> (v\<lparr>vp_chinadns := c\<rparr>, w\<lparr>wd_resolv := f\<rparr>)
             else (v, w)) in
      bind_out (set_chnroute (he_pton h) (he_kernel h) (he_proc_route h) (va_chnroute_file args)
                  (he_file h (va_chnroute_file args)) (he_junk h) (vp_host v) (vp_table v) (wd_routes w)) (\<lambda>(_, t, k).
      bind_out (set_default_as_tunnel (he_pton h) (he_kernel h) (va_tunnel_name args) (tn_gateway (vp_tunnel v)) t k)
        (\<lambda>(_, t, k).
      Inr (v\<lparr>vp_table := t\<rparr>, w\<lparr>wd_routes := k\<rparr>))))"

section \<open>Stopping\<close>

definition ping_command :: "string \<Rightarrow> string" where
  \<comment> \<open>the address up to its last dot, or all of it\<close>
  "ping_command ip =
     (let pre = (if CHR ''.'' \<in> set ip then rev (tl (dropWhile (\<lambda>c. c \<noteq> CHR ''.'') (rev ip))) else ip) in
      ''timeout 0.1 '' @ ''ping -c1 '' @ pre @ ''.254'')"

text \<open>The third component lists the shell commands and the fourth the calls of the status handler.\<close>

definition vpn_stop ::
  "'k host_env \<Rightarrow> vpn \<times> 'k world \<Rightarrow> ((vpn \<times> 'k world) \<times> string list \<times> VpnStatus list) outcome" where
  "vpn_stop h st =
     (let (v, w) = st; args = vp_args v in
      if \<not> vp_running v then Inr ((v, w), [], [])
      else
        let v = v\<lparr>vp_running := False\<rparr>;
            v = v\<lparr>vp_tunnel := fst (linux_shutdown (vp_tunnel v))\<rparr> in
        bind_out
          (if va_mode args = SharpvpnModeClient \<and> vp_status v = VpnConnected then
             bind_out (delete_chnroute (he_pton h) (he_kernel h) (va_chnroute_file args)
                 (he_file h (va_chnroute_file args)) (he_junk h) (vp_table v) (wd_routes w)) (\<lambda>(_, t, k).
             Inr (v\<lparr>vp_table := t\<rparr>, w\<lparr>wd_routes := k\<rparr>))
           else Inr (v, w)) (\<lambda>(v, w).
        case Chinadns_stop (wd_resolv_w w) (vp_chinadns v) (wd_resolv w) of
          (_, c, f) \<Rightarrow>
            Inr ((v\<lparr>vp_chinadns := c, vp_sock := fst (close_addr 0 (vp_sock v)), vp_status := VpnClosed\<rparr>,
                  w\<lparr>wd_resolv := f\<rparr>), [ping_command (va_tunnel_ip args)], [VpnClosed])))"

section \<open>A session leaves the host as it was\<close>


definition demo_env :: "rtentry set host_env" where
  "demo_env = \<lparr>he_pton = (\<lambda>_. None), he_kernel = demo_kernel, he_request = (\<lambda>_. True), he_proc_route = None,
     he_file = (\<lambda>_. Some (chn_text demo_lines)), he_junk = replicate BUF_LEN NUL\<rparr>"

definition demo_vpn :: vpn where
  "demo_vpn = (SharpVpn_new (\<lambda>_. cn_sock dead_conn) 0 0 True ((get_default_args False)\<lparr>va_mode := SharpvpnModeClient,
     va_chnroute_file := ''chnroute.txt'', va_chinadns_host := ''8.8.8.8''\<rparr>))\<lparr>vp_status := VpnConnected\<rparr>"

definition demo_world :: "rtentry set world" where
  "demo_world = \<lparr>wd_routes = {}, wd_resolv = ''nameserver 1.1.1.1'', wd_resolv_r = True, wd_resolv_w = True\<rparr>"


section \<open>The address that the client gets\<close>

text \<open>
  From the server's registration to the client's tunnel. When a new user is registered while addresses are
  left, the client that receives the answer reads exactly the registered address, and, if the server's own tunnel address ends
  in \<open>.1\<close> as in the default configuration, the gateway that it derives from it is the server's tunnel address.
\<close>

lemma address_reaches_client:
  assumes new: "users_ok u" "users u t = None" "length (vu_ip_map u) < 199"
    and one: "unat (vu_local_ip u) mod 256 = 1"
    and reg: "register p t u = Inr (ip, u')"
    and recv: "recv_package e 4 (cn_sock (vp_sock v)) = Inr (RecvSegment (dhcp_bytes ip), s)" "length junk = 4"
    and os: "\<forall>r. os r"
  shows "\<exists>v'. recv_dhcp e junk v = Inr (Some (ip, v')) \<and> owners u' ip = Some p \<and>
     linux_set_ip os ip (vp_tunnel v') =
       ((0, (vp_tunnel v')\<lparr>tn_gateway := inet_ntoa (htonl (vu_local_ip u))\<rparr>), if_requests (vp_tunnel v') ip)"
proof -
  have i: "ip = get_useable_ip u" and own: "owners u' ip = Some p"
    using reg new(1,2) by (auto simp: register_def Let_def users_ok_def sm.find_set)
  obtain i where "1 \<le> i" "i < 200" "ip = htonl (vu_local_ip u + of_nat i)"
    using get_useable_ip_free [of u] new(1,3) i by blast
  then have g: "gateway_of ip = htonl (vu_local_ip u)" using gateway_of_host [OF one, of i] by simp
  have len: "length (dhcp_bytes ip) = 4" by (simp add: dhcp_bytes_def)
  then have "overlay (dhcp_bytes ip) junk = dhcp_bytes ip" using recv(2) by (simp add: overlay_def)
  moreover have "of_nat (le_val (dhcp_bytes ip)) = ip" by (simp add: dhcp_bytes_def of_nat_le_enc4)
  ultimately have "recv_dhcp e junk v = Inr (Some (ip, v\<lparr>vp_sock := (vp_sock v)\<lparr>cn_sock := s\<rparr>\<rparr>))"
    using recv(1) by (simp add: recv_dhcp_def)
  moreover have "run_requests os rs = (True, rs)" for rs using os by (intro run_requests_all) blast
  ultimately show ?thesis using own by (simp add: linux_set_ip_def g)
qed

lemma dhcp_bytes_nonempty: "dhcp_bytes ip \<noteq> []"
  by (simp add: dhcp_bytes_def le_enc_4)

text \<open>A client whose parser holds the answer with the address \<open>10.7.0.2\<close>.\<close>

definition answered_vpn :: vpn where
  "answered_vpn = demo_vpn\<lparr>vp_sock := dead_conn\<lparr>cn_sock := (cn_sock dead_conn)\<lparr>so_segment_recv :=
     \<lparr>sp_buf = seg_plain [dhcp_bytes 0x0200070a], sp_len = 10, sp_start = 0\<rparr>\<rparr>\<rparr>\<rparr>"

lemma address_reaches_client_witness:
  "\<exists>v'. recv_dhcp clear_env [0, 0, 0, 0] answered_vpn = Inr (Some (0x0200070a, v')) \<and>
     tn_gateway (snd (fst (linux_set_ip (\<lambda>_. True) 0x0200070a (vp_tunnel v')))) = inet_ntoa (htonl 0x0a070001)"
proof -
  let ?u = "vpn_users_new 0x0a070001"
  let ?s = "cn_sock (vp_sock answered_vpn)"
  have ip: "get_useable_ip ?u = 0x0200070a"
    by (simp add: get_useable_ip_def vpn_users_new_def sm_find_def upt_rec htonl_demo)
  have "users ?u [98] = None" by (simp add: vpn_users_new_def sm_find_def)
  then obtain u' where reg: "register 3 [98] ?u = Inr (0x0200070a, u')" by (simp add: register_def ip Let_def)
  have "sp_at (so_segment_recv ?s) [dhcp_bytes 0x0200070a]" by (simp add: sp_at_def answered_vpn_def)
  then obtain sp where "SegmentParser_next 4 (so_segment_recv ?s) = Inr (dhcp_bytes 0x0200070a, sp)"
    using SegmentParser_next_Cons [of _ "dhcp_bytes 0x0200070a" "[]" 4] by (auto simp: dhcp_bytes_def)
  then have recv: "recv_package clear_env 4 ?s = Inr (RecvSegment (dhcp_bytes 0x0200070a), ?s\<lparr>so_segment_recv := sp\<rparr>)"
    using dhcp_bytes_nonempty by (simp add: recv_package_def)
  have one: "users ?u [98] = None" "length (vu_ip_map ?u) < 199" "unat (vu_local_ip ?u) mod 256 = 1" "length [0, 0, 0, 0 :: u8] = 4"
    by (simp_all add: vpn_users_new_def sm_find_def)
  have l: "vu_local_ip ?u = 0x0a070001" by (simp add: vpn_users_new_def)
  obtain v' where "recv_dhcp clear_env [0, 0, 0, 0] answered_vpn = Inr (Some (0x0200070a, v'))"
      "linux_set_ip (\<lambda>_. True) 0x0200070a (vp_tunnel v') =
       ((0, (vp_tunnel v')\<lparr>tn_gateway := inet_ntoa (htonl (vu_local_ip ?u))\<rparr>), if_requests (vp_tunnel v') 0x0200070a)"
    using address_reaches_client [OF users_new_ok one(1-3) reg recv one(4), of "\<lambda>_. True"] by blast
  then show ?thesis by (intro exI [of _ v']) (simp add: l)
qed

end
