(* ===== verification/RudpLink.thy ===== *)
theory RudpLink
  imports RudpTransmit
begin

text \<open>
  Both ends of a connection together. The record \<open>link\<close> holds the two \<open>ReliableSocket\<close> objects, every data
  datagram the first end has handed to \<open>sendto\<close>, what its application queued with \<open>send_package\<close>
  and what the application of the second end got from \<open>recv_package\<close>. A step is one turn of one
  thread on either side, or the arrival of a datagram: a data datagram that was sent at some time
  (so the network may lose, repeat and reorder), or any other bytes. The lemmas show that the store of the
  sending end only ever holds packages the segment thread made, and combine this with the
  receiver's contract of \<open>RudpDelivery\<close>.
\<close>

section \<open>The sending end\<close>

definition heap_all :: "(PackageData \<Rightarrow> bool) \<Rightarrow> heap \<Rightarrow> bool" where
  "heap_all P h \<longleftrightarrow> (\<forall>a d. hp_obj h a = Some d \<longrightarrow> P d)"

lemma heap_all_empty [simp]: "heap_all P heap_empty"
  by (simp add: heap_all_def heap_empty_def)

lemma heap_all_new: "heap_all P h \<Longrightarrow> P d \<Longrightarrow> heap_new d h = (a, h') \<Longrightarrow> heap_all P h'"
  by (auto simp: heap_all_def heap_new_def split: if_splits)

lemma heap_all_put: "heap_all P h \<Longrightarrow> P d \<Longrightarrow> heap_all P (heap_put a d h)"
  by (simp add: heap_all_def heap_put_def)

lemma heap_all_delete: "heap_all P h \<Longrightarrow> heap_delete p h = Inr h' \<Longrightarrow> heap_all P h'"
  by (auto simp: heap_all_def heap_delete_def split: option.splits if_splits)

lemma heap_all_get: "heap_all P h \<Longrightarrow> heap_get p h = Inr d \<Longrightarrow> P d"
  by (auto simp: heap_all_def heap_get_def of_option_def split: option.splits)

lemma heap_all_mono: "heap_all P h \<Longrightarrow> (\<And>d. P d \<Longrightarrow> Q d) \<Longrightarrow> heap_all Q h"
  by (auto simp: heap_all_def)

lemma heap_all_qm_push:
  "heap_all P h \<Longrightarrow> PackageQueueMap_push a i (h, m) = Inr (h', m') \<Longrightarrow> heap_all P h'"
  by (auto simp: PackageQueueMap_push_def Let_def bind_out_eq_Inr_iff split: if_splits
      dest: heap_all_delete)

lemma heap_all_qm_erase:
  "heap_all P h \<Longrightarrow> PackageQueueMap_erase i (h, m) = Inr (h', m') \<Longrightarrow> heap_all P h'"
  by (auto simp: PackageQueueMap_erase_def Let_def bind_out_eq_Inr_iff split: if_splits
      dest: heap_all_delete)

text \<open>
  \<open>hist\<close> is the list of the groups of segments that became packages: package \<open>i\<close> carries the group
  at position \<open>i - 1\<close>.
\<close>

definition segs_of :: "PackageSegment list list \<Rightarrow> u64 \<Rightarrow> PackageSegment list" where
  "segs_of hist i = hist ! (unat i - 1)"

definition payload_of :: "env \<Rightarrow> SharpCrypto \<Rightarrow> PackageSegment list list \<Rightarrow> u64 \<Rightarrow> bytes" where
  "payload_of e c hist i = SharpCrypto_encrypt (ev_easy e) c (ev_nonce e i) (seg_plain (segs_of hist i))"

definition made_from :: "env \<Rightarrow> SharpCrypto \<Rightarrow> PackageSegment list list \<Rightarrow> PackageData \<Rightarrow> bool" where
  "made_from e c hist d \<longleftrightarrow> pd_type d = Data \<and> 0 < pd_package_id d \<and>
     unat (pd_package_id d) \<le> length hist \<and> pd_data d = payload_of e c hist (pd_package_id d)"

lemma segs_of_append: "0 < i \<Longrightarrow> unat i \<le> length hist \<Longrightarrow> segs_of (hist @ gs) i = segs_of hist i"
  by (auto simp: segs_of_def nth_append word_less_nat_alt)

lemma made_from_append: "made_from e c hist d \<Longrightarrow> made_from e c (hist @ gs) d"
  by (auto simp: made_from_def payload_of_def segs_of_append)

text \<open>The segments that wait: the snapshot of the segment thread, if there is one, then the live list.\<close>

definition seg_waiting :: "rsock \<Rightarrow> segmentlist" where
  "seg_waiting s =
     (case so_seg_pending s of
        None \<Rightarrow> so_segment_list s
      | Some snap \<Rightarrow> (so_segment_list s)
          \<lparr>sl_start := sl_start snap, sl_len := sl_len snap + sl_len (so_segment_list s)\<rparr>)"

definition seg_ok :: "rsock \<Rightarrow> bool" where
  "seg_ok s \<longleftrightarrow> sl_ok (seg_waiting s) \<and>
     (case so_seg_pending s of
        None \<Rightarrow> True
      | Some snap \<Rightarrow> sl_capacity snap = sl_capacity (so_segment_list s) \<and>
          sl_end snap = sl_start (so_segment_list s) \<and>
          sl_end snap = (sl_start snap + sl_len snap) mod sl_capacity snap)"

definition group_ok :: "nat \<Rightarrow> int \<Rightarrow> PackageSegment list \<Rightarrow> bool" where
  "group_ok room ms g \<longleftrightarrow> g \<noteq> [] \<and> int (length (seg_plain g)) < ms \<and>
     (\<forall>x \<in> set g. 0 < length x \<and> length x \<le> room)"

definition tx_inv ::
  "env \<Rightarrow> SharpCrypto \<Rightarrow> nat \<Rightarrow> int \<Rightarrow> PackageSegment list list \<Rightarrow> bytes list \<Rightarrow> rsock \<Rightarrow> bool" where
  "tx_inv e c room ms hist queued s \<longleftrightarrow>
     so_crypto s = c \<and> so_max_segment s = ms \<and> ms \<le> int (length (so_seg_buf s)) \<and>
     unat (so_send_id s) = length hist + 1 \<and> length hist < 2 ^ 31 \<and>
     heap_all (made_from e c hist) (so_send_heap s) \<and>
     (\<forall>g \<in> set hist. group_ok room ms g) \<and> seg_ok s \<and>
     concat hist @ sl_contents (seg_waiting s) = queued \<and>
     (\<forall>x \<in> set queued. 0 < length x \<and> length x \<le> room)"

definition tx_part :: "rsock \<Rightarrow> _" where
  "tx_part s = (so_crypto s, so_max_segment s, so_seg_buf s, so_send_id s, so_send_heap s,
     so_segment_list s, so_seg_pending s)"

lemma seg_cong:
  assumes "so_segment_list s' = so_segment_list s" "so_seg_pending s' = so_seg_pending s"
  shows "seg_waiting s' = seg_waiting s" "seg_ok s' = seg_ok s"
  using assms by (cases "so_seg_pending s"; simp add: seg_waiting_def seg_ok_def)+

lemma tx_inv_cong: "tx_part s' = tx_part s \<Longrightarrow> tx_inv e c room ms hist q s' = tx_inv e c room ms hist q s"
  using seg_cong [of s' s] by (simp add: tx_part_def tx_inv_def)

lemma tx_inv_heap:
  assumes "tx_inv e c room ms hist q s" "heap_all (made_from e c hist) (so_send_heap s')"
    "so_crypto s' = so_crypto s" "so_max_segment s' = so_max_segment s" "so_seg_buf s' = so_seg_buf s"
    "so_send_id s' = so_send_id s" "so_segment_list s' = so_segment_list s"
    "so_seg_pending s' = so_seg_pending s"
  shows "tx_inv e c room ms hist q s'"
  using assms seg_cong [of s' s] by (simp add: tx_inv_def)

section \<open>The operations of the sending end\<close>

lemma tx_inv_send:
  assumes inv: "tx_inv e c room ms hist q s" and step: "send_package buf n s = Inr (0, s')"
    and n: "0 < n" "n \<le> room" and space: "sl_len (seg_waiting s) < sl_capacity (so_segment_list s)"
  shows "tx_inv e c room ms hist (q @ [take n buf]) s'"
proof -
  let ?L = "so_segment_list s" let ?x = "take n buf"
  have s': "s' = s\<lparr>so_segment_list := PackageSegmentList_push ?x ?L\<rparr>" "length ?x = n"
    using step by (auto simp: send_package_def PackageSegment_new_def bind_out_eq_Inr_iff split: if_splits)
  have w: "seg_waiting s' = PackageSegmentList_push ?x (seg_waiting s)"
    by (cases "so_seg_pending s") (simp_all add: s' seg_waiting_def PackageSegmentList_push_def)
  have cap: "sl_capacity (seg_waiting s) = sl_capacity ?L"
    by (cases "so_seg_pending s") (simp_all add: seg_waiting_def)
  have ok: "sl_ok (seg_waiting s)" using inv by (simp add: tx_inv_def seg_ok_def)
  have "0 < sl_room (seg_waiting s)" using space cap by (simp add: sl_room_def)
  note push = PackageSegmentList_push_ok [OF ok this, of ?x]
  have "so_seg_pending s' = so_seg_pending s" "sl_capacity (so_segment_list s') = sl_capacity ?L"
    "sl_start (so_segment_list s') = sl_start ?L"
    by (simp_all add: s' PackageSegmentList_push_def)
  then have "seg_ok s'" using inv push(1)
    by (cases "so_seg_pending s") (auto simp: tx_inv_def seg_ok_def w)
  then show ?thesis using inv push(2) w n s' by (auto simp: tx_inv_def)
qed

lemma tx_inv_take:
  assumes "tx_inv e c room ms hist q s"
  shows "tx_inv e c room ms hist q (segment_take s)"
proof (cases "so_seg_pending s \<noteq> None \<or> PackageSegmentList_size (so_segment_list s) = 0")
  case True
  then show ?thesis using assms by (simp add: segment_take_def)
next
  case False
  let ?L = "so_segment_list s"
  have w: "seg_waiting s = ?L" "seg_waiting (segment_take s) = ?L" using False
    by (simp_all add: seg_waiting_def segment_take_def PackageSegmentList_copy_def PackageSegmentList_rebase_def)
  have "sl_ok ?L" using assms w by (simp add: tx_inv_def seg_ok_def)
  then have "seg_ok (segment_take s)" using False w(2)
    by (simp add: seg_ok_def segment_take_def PackageSegmentList_copy_def PackageSegmentList_rebase_def
        sl_ok_def ring_ok_def)
  then show ?thesis using assms w False by (simp add: tx_inv_def segment_take_def)
qed

text \<open>The segment thread: the snapshot becomes the next groups.\<close>

lemma ring_list_append:
  "ring_list arr cap start (m + n) = ring_list arr cap start m @ ring_list arr cap ((start + m) mod cap) n"
proof -
  have "map f [0..<m + n] = map f [0..<m] @ map (\<lambda>i. f (m + i)) [0..<n]" for f :: "nat \<Rightarrow> 'a"
    by (induction n) auto
  then show ?thesis by (simp add: ring_list_def mod_simps add.assoc)
qed

lemma seg_waiting_split:
  assumes "seg_ok s" "so_seg_pending s = Some snap"
  shows "sl_ok (snap\<lparr>sl_list := sl_list (so_segment_list s)\<rparr>)" "sl_ok (so_segment_list s)"
    "sl_contents (seg_waiting s) =
       sl_contents (snap\<lparr>sl_list := sl_list (so_segment_list s)\<rparr>) @ sl_contents (so_segment_list s)"
proof -
  let ?L = "so_segment_list s"
  have f: "sl_capacity snap = sl_capacity ?L" "sl_end snap = sl_start ?L"
    "sl_end snap = (sl_start snap + sl_len snap) mod sl_capacity snap"
    "ring_ok (sl_list ?L) (sl_capacity ?L) (sl_start snap) (sl_end ?L) (sl_len snap + sl_len ?L)"
    using assms by (auto simp: seg_ok_def seg_waiting_def sl_ok_def)
  have s: "sl_start ?L = (sl_start snap + sl_len snap) mod sl_capacity ?L" using f by simp
  show "sl_ok (snap\<lparr>sl_list := sl_list ?L\<rparr>)" using f by (simp add: sl_ok_def ring_ok_def)
  show "sl_ok ?L" using f(4) by (auto simp: sl_ok_def ring_ok_def s mod_simps add.assoc)
  show "sl_contents (seg_waiting s) = sl_contents (snap\<lparr>sl_list := sl_list ?L\<rparr>) @ sl_contents ?L"
    using assms(2) f(1) by (simp add: seg_waiting_def sl_contents_def ring_list_append s)
qed

lemma push_plain_made:
  assumes "push_plain e (seg_plain g) s = Inr s'" "heap_all (made_from e (so_crypto s) hist) (so_send_heap s)"
    and id: "unat (so_send_id s) = length hist + 1" "length hist < 2 ^ 31"
  shows "heap_all (made_from e (so_crypto s) (hist @ [g])) (so_send_heap s') \<and>
     unat (so_send_id s') = length hist + 2 \<and> so_crypto s' = so_crypto s \<and>
     so_max_segment s' = so_max_segment s \<and> so_seg_buf s' = so_seg_buf s \<and>
     so_segment_list s' = so_segment_list s \<and> so_seg_pending s' = so_seg_pending s"
proof -
  let ?i = "so_send_id s" let ?d = "data_package e (so_crypto s) ?i (seg_plain g)"
  obtain a h where n: "heap_new ?d (so_send_heap s) = (a, h)" by fastforce
  obtain h' m' where p: "PackageQueueMap_push a ?i (h, so_send_pool s) = Inr (h', m')"
      "s' = s\<lparr>so_send_heap := h', so_send_pool := m', so_send_id := ?i + 1\<rparr>"
    using assms(1) by (auto simp: push_plain_eq [OF n] bind_out_eq_Inr_iff)
  have "made_from e (so_crypto s) (hist @ [g]) ?d"
    using id(1) by (simp add: made_from_def data_package_def payload_of_def segs_of_def word_less_nat_alt)
  moreover have "heap_all (made_from e (so_crypto s) (hist @ [g])) (so_send_heap s)"
    using assms(2) made_from_append by (rule heap_all_mono)
  ultimately have "heap_all (made_from e (so_crypto s) (hist @ [g])) h'"
    using heap_all_new [OF _ _ n] heap_all_qm_push [OF _ p(1)] by blast
  moreover have "unat (?i + 1) = length hist + 2" using unat_add_small [of ?i 1] id by simp
  ultimately show ?thesis using p(2) by simp
qed

lemma push_plains_made:
  "push_plains e (map seg_plain gs) s = Inr s' \<Longrightarrow> so_crypto s = c \<Longrightarrow>
   heap_all (made_from e c hist) (so_send_heap s) \<Longrightarrow> unat (so_send_id s) = length hist + 1 \<Longrightarrow>
   length hist + length gs < 2 ^ 31 \<Longrightarrow>
   heap_all (made_from e c (hist @ gs)) (so_send_heap s') \<and>
     unat (so_send_id s') = length (hist @ gs) + 1 \<and> so_crypto s' = c \<and>
     so_max_segment s' = so_max_segment s \<and> so_seg_buf s' = so_seg_buf s \<and>
     so_segment_list s' = so_segment_list s \<and> so_seg_pending s' = so_seg_pending s"
proof (induction gs arbitrary: s hist)
  case (Cons g gs)
  then obtain s1 where s1: "push_plain e (seg_plain g) s = Inr s1" "push_plains e (map seg_plain gs) s1 = Inr s'"
    by (auto simp: bind_out_eq_Inr_iff)
  have "length hist < 2 ^ 31" using Cons.prems(5) by simp
  note one = push_plain_made [OF s1(1), of hist, unfolded Cons.prems(2), OF Cons.prems(3,4) this]
  show ?case using Cons.IH [OF s1(2), of "hist @ [g]"] one Cons.prems(2,5) by simp
qed auto

lemma tx_inv_pack:
  assumes inv: "tx_inv e c room ms hist q s" and step: "segment_pack e s = Inr s'"
    and ids: "unat (so_send_id s) + sl_capacity (so_segment_list s) \<le> 2 ^ 31"
  shows "\<exists>gs. tx_inv e c room ms (hist @ gs) q s'"
proof (cases "\<exists>snap. so_seg_pending s = Some snap \<and> window_open s")
  case False
  then have "s' = s" using step by (auto simp: segment_pack_def split: option.splits if_splits)
  then show ?thesis using inv by (metis append_Nil2)
next
  case True
  then obtain snap where snap: "so_seg_pending s = Some snap" "window_open s" by blast
  let ?L = "so_segment_list s" let ?q = "snap\<lparr>sl_list := sl_list ?L\<rparr>"
  have I: "so_crypto s = c" "so_max_segment s = ms" "ms \<le> int (length (so_seg_buf s))"
    "unat (so_send_id s) = length hist + 1" "heap_all (made_from e c hist) (so_send_heap s)"
    "\<forall>g \<in> set hist. group_ok room ms g" "seg_ok s" "concat hist @ sl_contents (seg_waiting s) = q"
    "\<forall>x \<in> set q. 0 < length x \<and> length x \<le> room"
    using inv unfolding tx_inv_def by blast+
  note W = seg_waiting_split [OF I(7) snap(1)]
  obtain plains buf where b: "segment_batch ms (so_seg_buf s) ?q = Inr (plains, buf)"
      "push_plains e plains (s\<lparr>so_seg_pending := None, so_seg_buf := buf\<rparr>) = Inr s'"
    using step snap I(2) by (auto simp: segment_pack_def bind_out_eq_Inr_iff)
  have "\<forall>x \<in> set (sl_contents ?q). int (length x) < ms - 4"
    using segment_batch_diverges [OF W(1) I(3)] b(1) by fastforce
  then obtain gs where g: "plains = map seg_plain gs" "concat gs = sl_contents ?q"
      "length buf = length (so_seg_buf s)" "[] \<notin> set gs" "\<forall>g \<in> set gs. int (length (seg_plain g)) < ms"
    using segment_batch_spec [OF W(1) I(3)] b(1) by auto
  have "length (concat gs) = sl_len snap" using g(2) by (simp add: sl_contents_def)
  moreover have "sl_len snap \<le> sl_capacity ?L" using W(1) I(7) snap(1) by (auto simp: sl_ok_def ring_ok_def seg_ok_def)
  ultimately have len: "length hist + length gs < 2 ^ 31" using length_groups [OF g(4)] ids I(4) by linarith
  note P = push_plains_made [OF b(2) [unfolded g(1)] _ _ _ len, of c, simplified, OF I(1,5)]
  have P: "heap_all (made_from e c (hist @ gs)) (so_send_heap s')" "unat (so_send_id s') = length (hist @ gs) + 1"
    "so_crypto s' = c" "so_max_segment s' = ms" "so_seg_buf s' = buf" "so_segment_list s' = ?L"
    "so_seg_pending s' = None"
    using P I(2,4) by simp_all
  have w: "seg_waiting s' = ?L" using P(6,7) by (simp add: seg_waiting_def)
  have q: "q = concat (hist @ gs) @ sl_contents ?L" using I(8) W(3) g(2) by simp
  have "group_ok room ms g" if "g \<in> set gs" for g
    unfolding group_ok_def using that g(4,5) I(9) q by auto
  then have "tx_inv e c room ms (hist @ gs) q s'"
    using P w q W(2) len I(3,6,9) g(3) by (auto simp: tx_inv_def seg_ok_def)
  then show ?thesis by blast
qed

text \<open>The main sender: what it puts on the wire is in the store.\<close>

lemma made_from_resent:
  "made_from e c hist (d\<lparr>pd_una := u, pd_send_count := n, pd_send_time := t\<rparr>) = made_from e c hist d"
  "made_from e c hist (d\<lparr>pd_una := u, pd_send_count := n\<rparr>) = made_from e c hist d"
  by (simp_all add: made_from_def)

lemma tx_inv_sender:
  assumes inv: "tx_inv e c room ms hist q s" and step: "sender_send now s = Inr (s', dgs)"
  shows "tx_inv e c room ms hist q s'" "\<forall>dg \<in> set dgs. \<exists>d. dg = pd_bytes d \<and> made_from e c hist d"
proof -
  have H: "heap_all (made_from e c hist) (so_send_heap s)" using inv by (simp add: tx_inv_def)
  obtain p pool where pop: "PackageQueueMap_pop (so_send_pool s) = (p, pool)" by fastforce
  have *: "tx_inv e c room ms hist q s' \<and> (\<forall>dg \<in> set dgs. \<exists>d. dg = pd_bytes d \<and> made_from e c hist d)"
  proof (cases "PackageQueueMap_size (so_send_pool s) = 0 \<or> p = None")
    case True
    then have "dgs = [] \<and> (s' = s \<or> s' = s\<lparr>so_send_pool := pool\<rparr>)"
      using step pop by (cases "PackageQueueMap_size (so_send_pool s) = 0") (auto simp: sender_send_def)
    then have "dgs = []" "tx_part s' = tx_part s" by (auto simp: tx_part_def)
    then show ?thesis using inv tx_inv_cong [of s' s] by simp
  next
    case False
    then obtain a where a: "p = Some a" by blast
    obtain d where d: "heap_get (Some a) (so_send_heap s) = Inr d"
      using step pop a False
      by (cases "heap_get (Some a) (so_send_heap s)") (simp_all add: sender_send_def Let_def)
    let ?d = "d\<lparr>pd_una := so_recv_ack_id s, pd_send_count := pd_send_count d + 1\<rparr>"
    let ?h = "heap_put a (?d\<lparr>pd_send_time := now\<rparr>) (so_send_heap s)"
    have m: "made_from e c hist d" using H d by (rule heap_all_get)
    then have md: "made_from e c hist ?d" "heap_all (made_from e c hist) ?h"
      using heap_all_put [OF H, of "?d\<lparr>pd_send_time := now\<rparr>" a] by (simp_all add: made_from_resent)
    define s1 where "s1 = (let s = s\<lparr>so_send_pool := pool\<rparr>; n = so_fast_start_count s + 1 in
       if so_fast_start s
       then if n = 10 then s\<lparr>so_fast_start_count := 0, so_fast_start := False\<rparr>
            else s\<lparr>so_fast_start_count := n\<rparr>
       else s)"
    have s1: "so_send_heap s1 = so_send_heap s" "tx_part s1 = tx_part s"
      by (simp_all add: s1_def Let_def tx_part_def)
    have "\<exists>w. s' = s1\<lparr>so_send_heap := ?h, so_ack_pool := w\<rparr>" "set dgs \<subseteq> {pd_bytes ?d}"
      using step pop a False d
      by (simp_all add: sender_send_def Let_def bind_out_eq_Inr_iff s1_def
          split del: if_split cong: if_cong) auto
    with md s1(2) tx_inv_heap [OF inv, of s'] show ?thesis by (auto simp: tx_part_def)
  qed
  then show "tx_inv e c room ms hist q s'" "\<forall>dg \<in> set dgs. \<exists>d. dg = pd_bytes d \<and> made_from e c hist d"
    by blast+
qed

text \<open>The acknowledgement handler only deletes from the store.\<close>

lemma tx_inv_ack_pop:
  assumes inv: "tx_inv e c room ms hist q s" and step: "ackhandler_pop s = Inr s'"
  shows "tx_inv e c room ms hist q s'"
proof (cases "so_ack_cur s \<noteq> None \<or> AckWaitList_size (so_ack_pool s) = 0")
  case True
  with step inv show ?thesis by (simp add: ackhandler_pop_def)
next
  case False
  then obtain p w d where p: "AckWaitList_pop (so_send_heap s) (so_ack_pool s) = Inr (p, w)"
      "heap_get p (so_send_heap s) = Inr d"
    using step by (auto simp: ackhandler_pop_def bind_out_eq_Inr_iff Let_def)
  show ?thesis
  proof (cases "20 < pd_send_count d")
    case True
    then obtain h m y where e: "PackageQueueMap_erase (pd_package_id d) (so_send_heap s, so_send_pool s) = Inr (h, m)"
        "s' = s\<lparr>so_ack_pool := w, so_send_heap := h, so_send_pool := m, so_send_from := y\<rparr>"
      using False p step by (auto simp: ackhandler_pop_def bind_out_eq_Inr_iff Let_def)
    have "heap_all (made_from e c hist) (so_send_heap s)" using inv by (simp add: tx_inv_def)
    with e show ?thesis by (intro tx_inv_heap [OF inv]) (auto dest: heap_all_qm_erase)
  next
    case le: False
    then have "tx_part s' = tx_part s"
      using False p step by (auto simp: ackhandler_pop_def Let_def tx_part_def)
    with inv show ?thesis using tx_inv_cong by blast
  qed
qed

lemma tx_inv_ack_check:
  assumes inv: "tx_inv e c room ms hist q s" and step: "ackhandler_check now s = Inr s'"
  shows "tx_inv e c room ms hist q s'"
proof (cases "so_ack_cur s")
  case None
  with step inv show ?thesis by (simp add: ackhandler_check_def)
next
  case (Some a)
  then obtain d where d: "heap_get (Some a) (so_send_heap s) = Inr d"
    using step by (auto simp: ackhandler_check_def bind_out_eq_Inr_iff)
  let ?w = "so_send_ack_id s < pd_package_id d \<and> \<not> acked (so_ack_recv_pool s) (pd_package_id d)"
  show ?thesis
  proof (cases ?w)
    case True
    then have "tx_part s' = tx_part s" using Some d step
      by (cases "get_ms now (pd_send_time d) < so_rto s") (auto simp: ackhandler_check_def Let_def tx_part_def)
    with inv show ?thesis using tx_inv_cong by blast
  next
    case False
    then obtain h m where e: "PackageQueueMap_erase (pd_package_id d) (so_send_heap s, so_send_pool s) = Inr (h, m)"
        "s' = s\<lparr>so_send_heap := h, so_send_pool := m, so_ack_cur := None\<rparr>"
      using Some d step
      by (auto simp: ackhandler_check_def bind_out_eq_Inr_iff Let_def simp del: de_Morgan_conj)
    have "heap_all (made_from e c hist) (so_send_heap s)" using inv by (simp add: tx_inv_def)
    with e show ?thesis by (intro tx_inv_heap [OF inv]) (auto dest: heap_all_qm_erase)
  qed
qed

text \<open>Nothing that arrives, and no read of the application, touches what is being sent.\<close>

lemma advance_tx_part:
  "advance_recv_ack s = Inr s' \<Longrightarrow> tx_part s' = tx_part s"
  "advance_send_ack s = Inr s' \<Longrightarrow> tx_part s' = tx_part s"
  by (auto simp: advance_recv_ack_def advance_send_ack_def bind_out_eq_Inr_iff tx_part_def
      simp del: advance.simps)

lemma handle_data_tx_part:
  assumes "handle_data e r s = Inr s'"
  shows "tx_part s' = tx_part s"
proof -
  obtain d where d: "PackageData_from_buf (ev_junk_time e) (so_recv_buf s) r = Inr d"
    using assms by (auto simp: handle_data_def bind_out_eq_Inr_iff)
  obtain a h where n: "heap_new d (so_heap s) = (a, h)" by fastforce
  define w where "w = (if PackageMap_find (pd_package_id d) (so_recv_pool s) = None
         \<and> so_recv_ack_id s < pd_package_id d
      then PackageMap_set (pd_package_id d) a (h, so_recv_pool s)
      else bind_out (heap_delete (Some a) h) (\<lambda>h. Inr (h, so_recv_pool s)))"
  obtain h' pool s1 where s1: "w = Inr (h', pool)" "advance_recv_ack (s\<lparr>so_heap := h', so_recv_pool := pool\<rparr>) = Inr s1"
      "advance_send_ack (s1\<lparr>so_ack_send_queue := AckQueue_push (pd_package_id d) (so_ack_send_queue s1),
         so_send_ack_id := umax (so_send_ack_id s1) (pd_una d)\<rparr>) = Inr s'"
    using assms d n unfolding w_def [symmetric]
    by (auto simp: handle_data_def Let_def bind_out_eq_Inr_iff w_def [symmetric])
  show ?thesis
    using advance_tx_part(1) [OF s1(2)] advance_tx_part(2) [OF s1(3)] by (simp add: tx_part_def)
qed

lemma handle_ack_tx_part:
  assumes "handle_ack s = Inr s'"
  shows "tx_part s' = tx_part s"
proof -
  obtain a where a: "PackageAck_load_buf (so_recv_buf s) = Inr a"
    using assms by (auto simp: handle_ack_def bind_out_eq_Inr_iff)
  obtain p m where c: "collect_acks (so_send_ack_id s) (so_send_id s) (pa_ack_list a)
      (so_ack_recv_pool s, 0) = (p, m)" by fastforce
  show ?thesis using assms a c
    by (cases "so_recv_ack_id s < pa_send_from a")
      (auto simp: handle_ack_def Let_def advance_send_ack_def bind_out_eq_Inr_iff fast_resend_def tx_part_def)
qed

lemma handle_ping_tx_part: "handle_ping now r s = Inr (s', out) \<Longrightarrow> tx_part s' = tx_part s"
  by (auto simp: handle_ping_def Let_def bind_out_eq_Inr_iff set_rto_def tx_part_def split: if_splits)

lemma receiver_step_tx_part:
  assumes "receiver_step e now dg s = Inr (s', out)"
  shows "tx_part s' = tx_part s"
proof -
  define s1 where "s1 = s\<lparr>so_recv_buf := overlay (take MAX_MTU dg) (so_recv_buf s)\<rparr>"
  have s1: "tx_part s1 = tx_part s" by (simp add: tx_part_def s1_def)
  have "tx_part s' = tx_part s1"
  proof (cases "length (take MAX_MTU dg) > 0")
    case False
    then show ?thesis using assms by (auto simp: receiver_step_def Let_def s1_def tx_part_def)
  next
    case True
    then have p: "process_package e now (length (take MAX_MTU dg)) s1 = Inr (s', out)"
      using assms by (simp add: receiver_step_def Let_def s1_def)
    then obtain t where t: "parse_package_type (so_recv_buf s1) = Inr t"
      by (auto simp: process_package_def bind_out_eq_Inr_iff)
    have "tx_part (stop_all_thread s1) = tx_part s1" by (simp add: tx_part_def stop_all_thread_def)
    with p t show ?thesis
      by (auto simp: process_package_def bind_out_eq_Inr_iff split: option.splits PackageType.splits
          dest: handle_data_tx_part handle_ack_tx_part handle_ping_tx_part)
  qed
  with s1 show ?thesis by simp
qed

lemma recv_package_tx_part:
  assumes "recv_package e room s = Inr (res, s')"
  shows "tx_part s' = tx_part s"
proof -
  obtain seg sp where n: "SegmentParser_next room (so_segment_recv s) = Inr (seg, sp)"
    using assms by (auto simp: recv_package_def bind_out_eq_Inr_iff)
  obtain i r where w: "recv_wait (so_worker_running s) (so_recv_pool s) (so_recv_ack_id s) (so_recv_id s) = (i, r)"
    by fastforce
  show ?thesis using assms n w
    by (cases "length seg \<noteq> 0"; cases r)
      (auto simp: recv_package_def Let_def bind_out_eq_Inr_iff tx_part_def)
qed

section \<open>The two ends and the network\<close>

record link =
  lk_a :: rsock            \<comment> \<open>the end that sends\<close>
  lk_b :: rsock            \<comment> \<open>the end that receives\<close>
  lk_net :: "bytes set"    \<comment> \<open>every data datagram sent so far\<close>
  lk_queued :: "bytes list" \<comment> \<open>the segments \<open>send_package\<close> took\<close>
  lk_out :: "bytes list"   \<comment> \<open>the segments \<open>recv_package\<close> returned\<close>

definition link_new :: "rsock \<Rightarrow> rsock \<Rightarrow> link" where
  "link_new a b = \<lparr>lk_a = a, lk_b = b, lk_net = {}, lk_queued = [], lk_out = []\<rparr>"

text \<open>
  \<open>room\<close> is the size of the buffer the reader passes. The application of the first end keeps fewer
  than a list's capacity of segments waiting, and identifiers stay below \<open>2 ^ 31\<close>; a data package
  reaches the second end before it is a whole pool ahead of the reader. Both ends may receive any
  other datagram; the first end any datagram at all.
\<close>

inductive link_step :: "env \<Rightarrow> env \<Rightarrow> nat \<Rightarrow> link \<Rightarrow> link \<Rightarrow> bool" for ea eb room where
  lk_send: "send_package buf n (lk_a l) = Inr (0, a) \<Longrightarrow> 0 < n \<Longrightarrow> n \<le> room \<Longrightarrow>
     sl_len (seg_waiting (lk_a l)) < sl_capacity (so_segment_list (lk_a l)) \<Longrightarrow>
     link_step ea eb room l (l\<lparr>lk_a := a, lk_queued := lk_queued l @ [take n buf]\<rparr>)"
| lk_take: "link_step ea eb room l (l\<lparr>lk_a := segment_take (lk_a l)\<rparr>)"
| lk_pack: "segment_pack ea (lk_a l) = Inr a \<Longrightarrow>
     unat (so_send_id (lk_a l)) + sl_capacity (so_segment_list (lk_a l)) \<le> 2 ^ 31 \<Longrightarrow>
     link_step ea eb room l (l\<lparr>lk_a := a\<rparr>)"
| lk_tick: "sender_tick now (lk_a l) = (a, dgs) \<Longrightarrow> link_step ea eb room l (l\<lparr>lk_a := a\<rparr>)"
| lk_sender: "sender_send now (lk_a l) = Inr (a, dgs) \<Longrightarrow>
     link_step ea eb room l (l\<lparr>lk_a := a, lk_net := lk_net l \<union> set dgs\<rparr>)"
| lk_ack_sender: "ack_sender_step (lk_a l) = (a, dgs) \<Longrightarrow> link_step ea eb room l (l\<lparr>lk_a := a\<rparr>)"
| lk_ack_pop: "ackhandler_pop (lk_a l) = Inr a \<Longrightarrow> link_step ea eb room l (l\<lparr>lk_a := a\<rparr>)"
| lk_ack_check: "ackhandler_check now (lk_a l) = Inr a \<Longrightarrow> link_step ea eb room l (l\<lparr>lk_a := a\<rparr>)"
| lk_back: "receiver_step ea now dg (lk_a l) = Inr (a, dgs) \<Longrightarrow> link_step ea eb room l (l\<lparr>lk_a := a\<rparr>)"
| lk_back_read: "recv_package ea n (lk_a l) = Inr (res, a) \<Longrightarrow> link_step ea eb room l (l\<lparr>lk_a := a\<rparr>)"
| lk_data: "pd_bytes d \<in> lk_net l \<Longrightarrow>
     unat (pd_package_id d) < unat (so_recv_id (lk_b l)) + pm_capacity (so_recv_pool (lk_b l)) \<Longrightarrow>
     receiver_step eb now (pd_bytes d) (lk_b l) = Inr (b, dgs) \<Longrightarrow> link_step ea eb room l (l\<lparr>lk_b := b\<rparr>)"
| lk_control: "parse_package_type (overlay (take MAX_MTU dg) (so_recv_buf (lk_b l))) \<noteq> Inr (Some Data) \<Longrightarrow>
     receiver_step eb now dg (lk_b l) = Inr (b, dgs) \<Longrightarrow> so_recv_ack_id b = so_recv_ack_id (lk_b l) \<Longrightarrow>
     link_step ea eb room l (l\<lparr>lk_b := b\<rparr>)"
| lk_b_sends: "tx_step eb (lk_b l) b \<Longrightarrow> link_step ea eb room l (l\<lparr>lk_b := b\<rparr>)"
| lk_read: "recv_package eb room (lk_b l) = Inr (RecvSegment seg, b) \<Longrightarrow>
     link_step ea eb room l (l\<lparr>lk_b := b, lk_out := lk_out l @ [seg]\<rparr>)"
| lk_read_none: "recv_package eb room (lk_b l) = Inr (res, b) \<Longrightarrow> res \<in> {RecvBlocked, RecvClosed} \<Longrightarrow>
     link_step ea eb room l (l\<lparr>lk_b := b\<rparr>)"

definition fresh_end :: "nat \<Rightarrow> bytes \<Rightarrow> int \<Rightarrow> rsock \<Rightarrow> bool" where
  "fresh_end cap key ms s \<longleftrightarrow> 0 < cap \<and> cap < 2 ^ 32 \<and>
     (\<exists>j64 jseg j8 down up. cap \<le> length j64 \<and> cap \<le> length jseg \<and> 1600 \<le> length j8 \<and>
        rx_part s = rx_part (rsock_new cap j64 jseg j8 down up key ms) \<and>
        tx_part s = tx_part (rsock_new cap j64 jseg j8 down up key ms))"

definition link_inv :: "env \<Rightarrow> env \<Rightarrow> nat \<Rightarrow> SharpCrypto \<Rightarrow> int \<Rightarrow> rsock \<Rightarrow> link \<Rightarrow> PackageSegment list list \<Rightarrow> bool" where
  "link_inv ea eb room c ms b0 l hist \<longleftrightarrow>
     tx_inv ea c room ms hist (lk_queued l) (lk_a l) \<and>
     (\<forall>dg \<in> lk_net l. \<exists>d. dg = pd_bytes d \<and> made_from ea c hist d) \<and>
     rx_reach eb room (so_send_id (lk_a l)) (payload_of ea c hist) b0 (lk_b l) (lk_out l)"

lemma rx_reach_mono:
  assumes "rx_reach e room lim payload s0 s out" "lim \<le> lim'"
    "\<And>i. 0 < i \<Longrightarrow> i < lim \<Longrightarrow> payload' i = payload i"
  shows "rx_reach e room lim' payload' s0 s out"
  using assms(1)
proof (induction rule: rx_reach.induct)
  case (rx_data s out d now s' dgs)
  have "pd_package_id d < lim'" using rx_data(5) assms(2) by (rule order.strict_trans2)
  with rx_data assms(3) show ?case by (intro rx_reach.rx_data [OF rx_data(8), of d now]) auto
qed (blast intro: rx_reach.intros)+

text \<open>Bytes on the wire determine what the receiver reads.\<close>

lemma pd_bytes_inj:
  assumes "pd_bytes d = pd_bytes d'"
  shows "pd_type d = pd_type d' \<and> pd_package_id d = pd_package_id d' \<and> pd_data d = pd_data d'"
proof -
  have "pd_length d = pd_length d'" using assms by (metis length_pd_bytes)
  then have "d\<lparr>pd_type := Data, pd_send_count := 0, pd_send_time := (0, 0)\<rparr>
      = d'\<lparr>pd_type := Data, pd_send_count := 0, pd_send_time := (0, 0)\<rparr>"
    using PackageData_roundtrip [of "(0, 0)" d "[]"] PackageData_roundtrip [of "(0, 0)" d' "[]"] assms by simp
  moreover have "pd_type d = pd_type d'"
    using pd_bytes_type [of d "[]"] pd_bytes_type [of d' "[]"] assms by simp
  ultimately show ?thesis
    by (metis PackageData.select_convs(2,4) PackageData.surjective PackageData.update_convs(1,5,6))
qed

section \<open>The invariant of the connection\<close>

text \<open>A step of the first end that makes no new package.\<close>

lemma link_inv_a:
  assumes inv: "link_inv ea eb room c ms b0 l hist" and tx: "tx_inv ea c room ms hist q a"
    and net: "\<forall>dg \<in> dgs. \<exists>d. dg = pd_bytes d \<and> made_from ea c hist d"
  shows "link_inv ea eb room c ms b0 (l\<lparr>lk_a := a, lk_net := lk_net l \<union> dgs, lk_queued := q\<rparr>) hist"
proof -
  have "unat (so_send_id a) = unat (so_send_id (lk_a l))" using inv tx by (simp add: link_inv_def tx_inv_def)
  then have "so_send_id a = so_send_id (lk_a l)" using word_unat_eq_iff by blast
  with inv tx net show ?thesis unfolding link_inv_def by simp blast
qed

lemma link_inv_a_frame:
  assumes inv: "link_inv ea eb room c ms b0 l hist" and part: "tx_part a = tx_part (lk_a l)"
  shows "link_inv ea eb room c ms b0 (l\<lparr>lk_a := a\<rparr>) hist"
proof -
  have "tx_inv ea c room ms hist (lk_queued l) a"
    using inv tx_inv_cong [OF part] by (simp add: link_inv_def)
  from link_inv_a [OF inv this, of "{}"] show ?thesis by simp
qed

lemma link_inv_b:
  assumes "link_inv ea eb room c ms b0 l hist"
    and "rx_reach eb room (so_send_id (lk_a l)) (payload_of ea c hist) b0 b out"
  shows "link_inv ea eb room c ms b0 (l\<lparr>lk_b := b, lk_out := out\<rparr>) hist"
  using assms by (simp add: link_inv_def)

lemma link_inv_pack:
  assumes inv: "link_inv ea eb room c ms b0 l hist" and step: "segment_pack ea (lk_a l) = Inr a"
    and ids: "unat (so_send_id (lk_a l)) + sl_capacity (so_segment_list (lk_a l)) \<le> 2 ^ 31"
  shows "\<exists>hist'. link_inv ea eb room c ms b0 (l\<lparr>lk_a := a\<rparr>) hist'"
proof -
  have tx: "tx_inv ea c room ms hist (lk_queued l) (lk_a l)" using inv by (simp add: link_inv_def)
  obtain gs where gs: "tx_inv ea c room ms (hist @ gs) (lk_queued l) a"
    using tx_inv_pack [OF tx step ids] by blast
  have id: "unat (so_send_id (lk_a l)) = length hist + 1" "unat (so_send_id a) = length (hist @ gs) + 1"
    using tx gs by (simp_all add: tx_inv_def)
  have "so_send_id (lk_a l) \<le> so_send_id a" using id by (simp add: word_le_nat_alt)
  moreover have "payload_of ea c (hist @ gs) i = payload_of ea c hist i" if "0 < i" "i < so_send_id (lk_a l)" for i
    using that id(1) by (simp add: payload_of_def segs_of_append word_less_nat_alt)
  moreover have "rx_reach eb room (so_send_id (lk_a l)) (payload_of ea c hist) b0 (lk_b l) (lk_out l)"
    using inv by (simp add: link_inv_def)
  ultimately have "rx_reach eb room (so_send_id a) (payload_of ea c (hist @ gs)) b0 (lk_b l) (lk_out l)"
    by (rule rx_reach_mono [rotated])
  moreover have "\<forall>dg \<in> lk_net l. \<exists>d. dg = pd_bytes d \<and> made_from ea c (hist @ gs) d"
    using inv made_from_append unfolding link_inv_def by blast
  ultimately show ?thesis using gs unfolding link_inv_def by (intro exI [of _ "hist @ gs"]) simp
qed

lemma link_inv_net:
  assumes inv: "link_inv ea eb room c ms b0 l hist" and d: "pd_bytes d \<in> lk_net l"
  shows "made_from ea c hist d"
proof -
  obtain d' where "pd_bytes d = pd_bytes d'" "made_from ea c hist d'"
    using inv d unfolding link_inv_def by blast
  with pd_bytes_inj show ?thesis unfolding made_from_def by metis
qed

lemma link_inv_data:
  assumes inv: "link_inv ea eb room c ms b0 l hist" and d: "pd_bytes d \<in> lk_net l"
    and win: "unat (pd_package_id d) < unat (so_recv_id (lk_b l)) + pm_capacity (so_recv_pool (lk_b l))"
    and step: "receiver_step eb now (pd_bytes d) (lk_b l) = Inr (b, dgs)"
  shows "link_inv ea eb room c ms b0 (l\<lparr>lk_b := b\<rparr>) hist"
proof -
  have m: "made_from ea c hist d" using inv d by (rule link_inv_net)
  have "unat (so_send_id (lk_a l)) = length hist + 1" using inv by (simp add: link_inv_def tx_inv_def)
  then have "pd_package_id d < so_send_id (lk_a l)" using m by (simp add: made_from_def word_less_nat_alt)
  moreover have "rx_reach eb room (so_send_id (lk_a l)) (payload_of ea c hist) b0 (lk_b l) (lk_out l)"
    using inv by (simp add: link_inv_def)
  ultimately have "rx_reach eb room (so_send_id (lk_a l)) (payload_of ea c hist) b0 b (lk_out l)"
    using m win step by (intro rx_data [of _ _ _ _ _ "lk_b l" _ d now b dgs]) (auto simp: made_from_def)
  from link_inv_b [OF inv this] show ?thesis by simp
qed

lemma link_inv_step:
  assumes "link_step ea eb room l l'" "link_inv ea eb room c ms b0 l hist"
  shows "\<exists>hist'. link_inv ea eb room c ms b0 l' hist'"
  using assms
proof (induction rule: link_step.induct)
  case (lk_send buf n l a)
  then have "tx_inv ea c room ms hist (lk_queued l @ [take n buf]) a"
    by (intro tx_inv_send) (simp_all add: link_inv_def)
  from link_inv_a [OF lk_send(5) this, of "{}"] show ?case by auto
next
  case (lk_take l)
  then have "tx_inv ea c room ms hist (lk_queued l) (segment_take (lk_a l))"
    by (intro tx_inv_take) (simp add: link_inv_def)
  from link_inv_a [OF lk_take this, of "{}"] show ?case by auto
next
  case (lk_pack l a)
  then show ?case by (intro link_inv_pack)
next
  case (lk_tick now l a dgs)
  then have "tx_part a = tx_part (lk_a l)"
    by (auto simp: sender_tick_def Let_def tx_part_def split: if_splits)
  with lk_tick(2) show ?case by (blast intro: link_inv_a_frame)
next
  case (lk_sender now l a dgs)
  then have tx: "tx_inv ea c room ms hist (lk_queued l) (lk_a l)" by (simp add: link_inv_def)
  from link_inv_a [OF lk_sender(2) tx_inv_sender [OF tx lk_sender(1)]] show ?case by auto
next
  case (lk_ack_sender l a dgs)
  then have "tx_part a = tx_part (lk_a l)" by (auto simp: ack_sender_step_def Let_def tx_part_def)
  with lk_ack_sender(2) show ?case by (blast intro: link_inv_a_frame)
next
  case (lk_ack_pop l a)
  then have "tx_inv ea c room ms hist (lk_queued l) a"
    by (intro tx_inv_ack_pop [OF _ lk_ack_pop(1)]) (simp add: link_inv_def)
  from link_inv_a [OF lk_ack_pop(2) this, of "{}"] show ?case by auto
next
  case (lk_ack_check now l a)
  then have "tx_inv ea c room ms hist (lk_queued l) a"
    by (intro tx_inv_ack_check [OF _ lk_ack_check(1)]) (simp add: link_inv_def)
  from link_inv_a [OF lk_ack_check(2) this, of "{}"] show ?case by auto
next
  case (lk_back now dg l a dgs)
  with receiver_step_tx_part show ?case by (blast intro: link_inv_a_frame)
next
  case (lk_back_read n l res a)
  with recv_package_tx_part show ?case by (blast intro: link_inv_a_frame)
next
  case (lk_data d l now b dgs)
  then show ?case by (blast intro: link_inv_data)
next
  case (lk_control dg l now b dgs)
  then have "rx_reach eb room (so_send_id (lk_a l)) (payload_of ea c hist) b0 b (lk_out l)"
    by (intro rx_control [of _ _ _ _ _ "lk_b l" _ dg now b dgs]) (simp_all add: link_inv_def)
  from link_inv_b [OF lk_control(4) this] show ?case by auto
next
  case (lk_b_sends l b)
  then have "rx_reach eb room (so_send_id (lk_a l)) (payload_of ea c hist) b0 b (lk_out l)"
    by (intro rx_tx [of _ _ _ _ _ "lk_b l" _ b]) (simp_all add: link_inv_def)
  from link_inv_b [OF lk_b_sends(2) this] show ?case by auto
next
  case (lk_read l seg b)
  then have "rx_reach eb room (so_send_id (lk_a l)) (payload_of ea c hist) b0 b (lk_out l @ [seg])"
    by (intro rx_recv [of _ _ _ _ _ "lk_b l"]) (simp_all add: link_inv_def)
  from link_inv_b [OF lk_read(2) this] show ?case by auto
next
  case (lk_read_none l res b)
  then have "rx_reach eb room (so_send_id (lk_a l)) (payload_of ea c hist) b0 b (lk_out l)"
    by (intro rx_wait [of _ _ _ _ _ "lk_b l" _ res b]) (simp_all add: link_inv_def)
  from link_inv_b [OF lk_read_none(3) this] show ?case by auto
qed

lemma link_inv_start:
  assumes a: "fresh_end capa key ms a0" and ms: "ms \<le> 1600"
  shows "link_inv ea eb room (SharpCrypto_new key) ms b0 (link_new a0 b0) []"
proof -
  obtain j64 jseg j8 down up where j: "capa \<le> length jseg" "1600 \<le> length j8" "0 < capa"
      "tx_part a0 = tx_part (rsock_new capa j64 jseg j8 down up key ms)"
    using a unfolding fresh_end_def by blast
  have "tx_inv ea (SharpCrypto_new key) room ms [] [] (rsock_new capa j64 jseg j8 down up key ms)"
    using j(1-3) ms
    by (simp add: tx_inv_def rsock_new_def seg_ok_def seg_waiting_def PackageSegmentList_new_def sl_ok_def
        ring_ok_def sl_contents_def MAX_MTU_def)
  then have "tx_inv ea (SharpCrypto_new key) room ms [] [] a0" using tx_inv_cong [OF j(4)] by simp
  then show ?thesis by (simp add: link_inv_def link_new_def rx_start)
qed

lemma link_inv_reach:
  assumes "(link_step ea eb room)\<^sup>*\<^sup>* (link_new a0 b0) l" "fresh_end capa key ms a0" "ms \<le> 1600"
  shows "\<exists>hist. link_inv ea eb room (SharpCrypto_new key) ms b0 l hist"
  using assms(1)
proof (induction rule: rtranclp_induct)
  case base
  show ?case using link_inv_start [OF assms(2,3)] by blast
next
  case (step l l')
  then show ?case using link_inv_step by blast
qed

text \<open>What the first end made is a stream the second end can read.\<close>

lemma stream_of_hist:
  assumes tx: "tx_inv ea c room ms hist q a" and box: "secretbox_spec (ev_easy ea) (ev_open eb)"
    and nonce: "\<forall>i. length (ev_nonce ea i) = crypto_secretbox_NONCEBYTES"
    and ms: "ms + int (sizeof_base + sizeof_data + SHARPVPN_CRYPTO_OVERHEAD) \<le> int MAX_MTU"
  shows "stream_ok eb room (so_send_id a) c (payload_of ea c hist) (segs_of hist)"
proof -
  have id: "unat (so_send_id a) = length hist + 1" "length hist < 2 ^ 31" using tx by (simp_all add: tx_inv_def)
  have lim: "0 < so_send_id a" "so_send_id a \<le> 2 ^ 31"
    using id by (simp_all add: word_less_nat_alt word_le_nat_alt)
  have g: "group_ok room ms (segs_of hist i)" if "0 < i" "i < so_send_id a" for i
  proof -
    have "unat i - 1 < length hist" using that id by (simp add: word_less_nat_alt)
    then show ?thesis using tx by (simp add: tx_inv_def segs_of_def)
  qed
  have "length (payload_of ea c hist i) = length (seg_plain (segs_of hist i)) + SHARPVPN_CRYPTO_OVERHEAD"
      "SharpCrypto_decrypt (ev_open eb) c (payload_of ea c hist i) = Inr (Some (seg_plain (segs_of hist i)))" for i
    using nonce length_encrypt [OF box] decrypt_encrypt [OF box] by (simp_all add: payload_of_def)
  moreover have "length (seg_plain (segs_of hist i)) + SHARPVPN_CRYPTO_OVERHEAD + sizeof_base + sizeof_data \<le> MAX_MTU"
    if "0 < i" "i < so_send_id a" for i
    using g [OF that] ms unfolding group_ok_def by linarith
  moreover have "n \<le> 1600" if "n + SHARPVPN_CRYPTO_OVERHEAD + sizeof_base + sizeof_data \<le> MAX_MTU" for n
    using that by (simp add: MAX_MTU_def)
  ultimately show ?thesis using g lim unfolding stream_ok_def group_ok_def by simp
qed

lemma stream_upto_hist: "length hist < 2 ^ 31 \<Longrightarrow> n \<le> length hist \<Longrightarrow>
    stream_upto (segs_of hist) (n + 1) = concat (take n hist)"
proof (induction n)
  case (Suc n)
  have "unat (of_nat (Suc n) :: u64) = Suc n" using Suc.prems by (simp add: unat_of_nat del: of_nat_Suc)
  then have "segs_of hist (of_nat (Suc n)) = hist ! n" by (simp add: segs_of_def)
  with Suc show ?case by (simp add: stream_upto_Suc take_Suc_conv_app_nth)
qed (simp add: stream_upto_def)

text \<open>The receiver's invariant on the second end, for the stream the first end made.\<close>

lemma link_rx:
  assumes box: "secretbox_spec (ev_easy ea) (ev_open eb)"
    and nonce: "\<forall>i. length (ev_nonce ea i) = crypto_secretbox_NONCEBYTES"
    and ms: "ms + int (sizeof_base + sizeof_data + SHARPVPN_CRYPTO_OVERHEAD) \<le> int MAX_MTU"
    and b: "fresh_end capb key msb b0"
    and inv: "link_inv ea eb room (SharpCrypto_new key) ms b0 l hist"
  defines "c \<equiv> SharpCrypto_new key"
  shows "stream_ok eb room (so_send_id (lk_a l)) c (payload_of ea c hist) (segs_of hist)"
    "rx_inv (so_send_id (lk_a l)) (payload_of ea c hist) (segs_of hist) c (lk_b l) (lk_out l)"
proof -
  have tx: "tx_inv ea c room ms hist (lk_queued l) (lk_a l)"
    and rx: "rx_reach eb room (so_send_id (lk_a l)) (payload_of ea c hist) b0 (lk_b l) (lk_out l)"
    using inv by (simp_all add: link_inv_def c_def)
  show str: "stream_ok eb room (so_send_id (lk_a l)) c (payload_of ea c hist) (segs_of hist)"
    by (rule stream_of_hist [OF tx box nonce ms])
  obtain j64 jseg j8 down up where j: "0 < capb" "capb < 2 ^ 32" "capb \<le> length j64" "1600 \<le> length j8"
      "rx_part b0 = rx_part (rsock_new capb j64 jseg j8 down up key msb)"
    using b unfolding fresh_end_def by blast
  show "rx_inv (so_send_id (lk_a l)) (payload_of ea c hist) (segs_of hist) c (lk_b l) (lk_out l)"
    using rx_reach_inv [OF rx str rx_inv_new [OF j stream_lim(1) [OF str], folded c_def]] .
qed

lemma link_out_prefix:
  assumes tx: "tx_inv ea c room ms hist q a"
    and rx: "rx_inv (so_send_id a) payload (segs_of hist) c b out"
  shows "\<exists>rest. out @ rest = q"
proof -
  have id: "unat (so_send_id a) = length hist + 1" "length hist < 2 ^ 31" "\<exists>w. q = concat hist @ w"
    using tx by (auto simp: tx_inv_def)
  obtain rest where r: "out @ rest = stream_upto (segs_of hist) (unat (so_recv_id b))"
    using rx_invD(13) [OF rx] by blast
  have "unat (so_recv_id b) \<le> length hist + 1" using recv_id_bound [OF rx] id(1) by simp
  then obtain rest' where "stream_upto (segs_of hist) (length hist + 1) = out @ rest @ rest'"
    using stream_prefix r by (metis append.assoc)
  then have "concat hist = out @ rest @ rest'" using stream_upto_hist [OF id(2), of "length hist"] by simp
  with id(3) show ?thesis by auto
qed

lemma link_out_complete:
  assumes tx: "tx_inv ea c room ms hist q a" and none: "sl_len (seg_waiting a) = 0"
    and rx: "rx_inv (so_send_id a) payload (segs_of hist) c b out"
    and str: "stream_ok eb room (so_send_id a) c payload (segs_of hist)"
    and got: "so_recv_ack_id b + 1 = so_send_id a"
    and blk: "recv_package eb room b = Inr (res, b')" "res \<in> {RecvBlocked, RecvClosed}"
  shows "out = q"
proof -
  have id: "unat (so_send_id a) = length hist + 1" "length hist < 2 ^ 31" "q = concat hist"
    using tx none by (auto simp: tx_inv_def sl_contents_def)
  have "unat (so_recv_ack_id b) + 1 = length hist + 1"
    using u64_inc [OF rx_invD(8) [OF rx]] got id(1) by simp
  moreover have "out = stream_upto (segs_of hist) (unat (so_recv_ack_id b) + 1)"
    using rx_inv_recv [OF rx str] blk by auto
  ultimately show ?thesis using stream_upto_hist [OF id(2), of "length hist"] id(3) by simp
qed

section \<open>A concrete connection\<close>

abbreviation demo_step :: "link \<Rightarrow> link \<Rightarrow> bool" where
  "demo_step \<equiv> link_step clear_env clear_env 1600"

lemma fresh_sock_end: "fresh_end 8 [1, 2, 3] 1408 fresh_sock"
proof -
  have "MAX_SEGMENT 1496 = 1408" by (simp add: MAX_SEGMENT_def sizeof_defs crypto_sizes)
  then have "rx_part fresh_sock = rx_part (rsock_new 8 (replicate 8 0) (replicate 8 []) (replicate 1600 0) 100 100 [1, 2, 3] 1408)"
    "tx_part fresh_sock = tx_part (rsock_new 8 (replicate 8 0) (replicate 8 []) (replicate 1600 0) 100 100 [1, 2, 3] 1408)"
    by (simp_all add: fresh_sock_def rx_part_def tx_part_def)
  then show ?thesis unfolding fresh_end_def
    by (intro conjI exI [of _ "replicate 8 0"] exI [of _ "replicate 8 []"] exI [of _ "replicate 1600 0"]
        exI [of _ 100]) simp_all
qed

lemma demo_crypto: "secretbox_spec (ev_easy clear_env) (ev_open clear_env)"
    "\<forall>i. length (ev_nonce clear_env i) = crypto_secretbox_NONCEBYTES"
    "(1408 :: int) + int (sizeof_base + sizeof_data + SHARPVPN_CRYPTO_OVERHEAD) \<le> int MAX_MTU"
  using clear_secretbox by (simp_all add: clear_env_def sizeof_defs crypto_sizes MAX_MTU_def)

definition demo_queued :: "bytes \<Rightarrow> rsock" where
  "demo_queued x = fresh_sock\<lparr>so_segment_list := PackageSegmentList_push x (so_segment_list fresh_sock)\<rparr>"

definition demo_data :: "bytes \<Rightarrow> PackageData" where
  "demo_data x = data_package clear_env (SharpCrypto_new [1, 2, 3]) 1 (seg_plain [x])"

lemma demo_queued_step: "send_package x (length x) fresh_sock = Inr (0, demo_queued x)"
  by (simp add: send_package_def demo_queued_def PackageSegment_new_def fresh_sock_def rsock_new_def)

text \<open>The link after the first segment was queued.\<close>

definition demo_first :: "bytes \<Rightarrow> link" where
  "demo_first x = (link_new fresh_sock fresh_sock)\<lparr>lk_a := demo_queued x, lk_queued := [x]\<rparr>"

lemma demo_first_step:
  assumes "0 < length x" "length x \<le> 1000"
  shows "demo_step (link_new fresh_sock fresh_sock) (demo_first x)"
proof -
  have room: "sl_len (seg_waiting fresh_sock) < sl_capacity (so_segment_list fresh_sock)"
    by (simp add: seg_waiting_def fresh_sock_def rsock_new_def PackageSegmentList_new_def)
  show ?thesis
    using lk_send [of x "length x" "link_new fresh_sock fresh_sock" "demo_queued x" 1600 clear_env clear_env] demo_queued_step assms room
    by (simp add: link_new_def demo_first_def)
qed

lemma demo_first_steps:
  assumes x: "0 < length x" "length x \<le> 1000" and steps: "demo_step\<^sup>*\<^sup>* (demo_first x) l"
  shows "demo_step\<^sup>*\<^sup>* (link_new fresh_sock fresh_sock) l"
  by (rule converse_rtranclp_into_rtranclp [where r = demo_step]) (rule demo_first_step [OF x], rule steps)

lemma demo_packed:
  assumes x: "0 < length x" "length x \<le> 1000"
  obtains a where "segment_pack clear_env (segment_take (demo_queued x)) = Inr a"
    "sl_len (seg_waiting a) = 0" "so_send_id a = 2" "so_fast_start a" "so_recv_ack_id a = 0"
    "fst (PackageQueueMap_pop (so_send_pool a)) = Some 0"
    "PackageQueueMap_size (so_send_pool a) \<noteq> 0" "heap_get (Some 0) (so_send_heap a) = Inr (demo_data x)"
proof -
  let ?s = "segment_take (demo_queued x)"
  let ?q = "PackageSegmentList_push x (so_segment_list fresh_sock)"
  let ?snap = "PackageSegmentList_copy ?q"
  have s: "so_seg_pending ?s = Some ?snap" "sl_list (so_segment_list ?s) = sl_list ?q" "window_open ?s"
      "so_max_segment ?s = 1408" "so_seg_buf ?s = replicate 1600 0"
    by (simp_all add: segment_take_def demo_queued_def PackageSegmentList_size_def PackageSegmentList_rebase_def
        PackageSegmentList_push_def window_open_def fresh_sock_def rsock_new_def MAX_SEGMENT_def sizeof_defs
        crypto_sizes MAX_MTU_def)
  have q: "?snap\<lparr>sl_list := sl_list ?q\<rparr> = ?q" by (simp add: PackageSegmentList_copy_def)
  have ok: "sl_ok ?q" "sl_contents ?q = [x]"
    by (simp_all add: sl_ok_def ring_ok_def sl_contents_def ring_list_def PackageSegmentList_push_def
        PackageSegmentList_new_def fresh_sock_def rsock_new_def)
  obtain gs buf where g: "segment_batch 1408 (replicate 1600 0) ?q = Inr (map seg_plain gs, buf)"
      "concat gs = [x]" "[] \<notin> set gs"
    using segment_batch_spec [OF ok(1), of 1408 "replicate 1600 0"] ok(2) x(2) by auto
  have "length gs \<le> 1" using length_groups [OF g(3)] g(2) by simp
  then have gs: "gs = [[x]]" using g(2) by (cases gs) auto
  define s1 where "s1 = ?s\<lparr>so_seg_pending := None, so_seg_buf := buf\<rparr>"
  have f: "so_send_id s1 = 1" "so_send_heap s1 = heap_empty" "so_send_pool s1 = PackageQueueMap_new 8"
      "so_crypto s1 = SharpCrypto_new [1, 2, 3]" "so_fast_start s1" "so_recv_ack_id s1 = 0"
      "so_seg_pending s1 = None" "sl_len (so_segment_list s1) = 0"
    by (simp_all add: s1_def segment_take_def demo_queued_def fresh_sock_def rsock_new_def
        PackageSegmentList_size_def PackageSegmentList_push_def PackageSegmentList_rebase_def)
  obtain h where h: "heap_new (demo_data x) heap_empty = (0, h)" "hp_obj h 0 = Some (demo_data x)"
    by (simp add: heap_new_def heap_empty_def)
  obtain m where m: "PackageQueueMap_push 0 1 (h, PackageQueueMap_new 8) = Inr (h, m)"
      "fst (PackageQueueMap_pop m) = Some 0" "PackageQueueMap_size m = 1"
    by (simp add: PackageQueueMap_push_def PackageQueueMap_new_def slot_def PackageQueueMap_pop_def
        PackageQueueMap_index_def PackageQueueMap_size_def)
  let ?a = "s1\<lparr>so_send_heap := h, so_send_pool := m, so_send_id := 2\<rparr>"
  have "push_plain clear_env (seg_plain [x]) s1 = Inr ?a"
  proof -
    have n: "heap_new (data_package clear_env (so_crypto s1) (so_send_id s1) (seg_plain [x])) (so_send_heap s1) = (0, h)"
      using h(1) by (simp only: f demo_data_def)
    show ?thesis unfolding push_plain_eq [OF n] f m(1) by simp
  qed
  then have "segment_pack clear_env ?s = Inr ?a"
    using g(1) gs s q by (simp add: segment_pack_def s1_def)
  then show thesis
    by (rule that) (simp_all add: f m h seg_waiting_def heap_get_def)
qed

text \<open>The segment is queued, packed, sent, received and read.\<close>

lemma demo_sent:
  assumes x: "0 < length x" "length x \<le> 1000"
  obtains l where "demo_step\<^sup>*\<^sup>* (demo_first x) l" "lk_queued l = [x]"
    "lk_out l = []" "lk_b l = fresh_sock" "so_send_id (lk_a l) = 2" "sl_len (seg_waiting (lk_a l)) = 0"
    "pd_bytes ((demo_data x)\<lparr>pd_una := 0, pd_send_count := 1\<rparr>) \<in> lk_net l"
proof -
  let ?l1 = "demo_first x"
  let ?l2 = "?l1\<lparr>lk_a := segment_take (demo_queued x)\<rparr>"
  obtain a where a: "segment_pack clear_env (segment_take (demo_queued x)) = Inr a"
    "sl_len (seg_waiting a) = 0" "so_send_id a = 2" "so_fast_start a" "so_recv_ack_id a = 0"
    "fst (PackageQueueMap_pop (so_send_pool a)) = Some 0"
    "PackageQueueMap_size (so_send_pool a) \<noteq> 0" "heap_get (Some 0) (so_send_heap a) = Inr (demo_data x)"
    by (rule demo_packed [OF x])
  let ?l3 = "?l2\<lparr>lk_a := a\<rparr>"
  let ?d = "(demo_data x)\<lparr>pd_una := 0, pd_send_count := 1\<rparr>"
  obtain a' dgs where a': "sender_send (0, 0) a = Inr (a', dgs)" "pd_bytes ?d \<in> set dgs"
      "so_send_id a' = 2" "seg_waiting a' = seg_waiting a"
  proof -
    define h where "h = heap_put 0 (?d\<lparr>pd_send_time := (0, 0)\<rparr>) (so_send_heap a)"
    have d: "(demo_data x)\<lparr>pd_una := so_recv_ack_id a, pd_send_count := pd_send_count (demo_data x) + 1\<rparr> = ?d"
      using a(5) by (simp add: demo_data_def data_package_def)
    have "\<exists>w. AckWaitList_push 0 h (so_ack_pool a) = Inr w"
      by (simp add: AckWaitList_push_def h_def heap_put_def heap_get_def Let_def)
    then obtain w where w: "AckWaitList_push 0 h (so_ack_pool a) = Inr w" by blast
    obtain pool where pop: "PackageQueueMap_pop (so_send_pool a) = (Some 0, pool)"
      using a(6) by (metis prod.collapse)
    have n: "pd_send_count (demo_data x) = 0" by (simp add: demo_data_def data_package_def)
    define s1 where "s1 = a\<lparr>so_send_pool := pool\<rparr>"
    define s2 where "s2 = (if so_fast_start_count a + 1 = 10
       then s1\<lparr>so_fast_start_count := 0, so_fast_start := False\<rparr>
       else s1\<lparr>so_fast_start_count := so_fast_start_count a + 1\<rparr>)"
    have snd: "sender_send (0, 0) a = Inr (s2\<lparr>so_send_heap := h, so_ack_pool := w\<rparr>, [pd_bytes ?d, pd_bytes ?d])"
      unfolding sender_send_def using a(4,5,7,8) w
      by (simp add: pop n h_def s2_def s1_def) (simp add: Let_def)
    have fr: "so_segment_list s2 = so_segment_list a" "so_seg_pending s2 = so_seg_pending a" "so_send_id s2 = 2"
      by (simp_all add: s2_def s1_def a(3))
    then have "seg_waiting (s2\<lparr>so_send_heap := h, so_ack_pool := w\<rparr>) = seg_waiting a"
      by (intro seg_cong(1)) simp_all
    with fr(3) show thesis by (intro that [OF snd]) simp_all
  qed
  have "demo_step ?l1 ?l2" using lk_take [of clear_env clear_env 1600 ?l1] by (simp add: demo_first_def)
  moreover have "demo_step ?l2 ?l3"
    using lk_pack [of clear_env ?l2 a clear_env 1600] a(1)
    by (simp add: segment_take_def demo_queued_def fresh_sock_def rsock_new_def PackageSegmentList_size_def
        PackageSegmentList_push_def PackageSegmentList_rebase_def PackageSegmentList_new_def)
  moreover have "demo_step ?l3 (?l3\<lparr>lk_a := a', lk_net := set dgs\<rparr>)"
    using lk_sender [of "(0, 0)" ?l3 a' dgs clear_env clear_env 1600] a'(1) by (simp add: link_new_def demo_first_def)
  ultimately have "demo_step\<^sup>*\<^sup>* ?l1 (?l3\<lparr>lk_a := a', lk_net := set dgs\<rparr>)"
    by (meson converse_rtranclp_into_rtranclp rtranclp.rtrancl_refl)
  moreover define l where "l = ?l3\<lparr>lk_a := a', lk_net := set dgs\<rparr>"
  ultimately have "demo_step\<^sup>*\<^sup>* ?l1 l" by simp
  moreover have "lk_queued l = [x]" "lk_out l = []" "lk_b l = fresh_sock" "lk_a l = a'" "lk_net l = set dgs"
    by (simp_all add: l_def link_new_def demo_first_def)
  ultimately show thesis using a' a(2) that by metis
qed

lemma advance_keeps_running:
  "advance_recv_ack s = Inr s' \<Longrightarrow> so_worker_running s' = so_worker_running s"
  "advance_send_ack s = Inr s' \<Longrightarrow> so_worker_running s' = so_worker_running s"
  by (auto simp: advance_recv_ack_def advance_send_ack_def bind_out_eq_Inr_iff simp del: advance.simps)

lemma handle_data_keeps_running:
  assumes "handle_data e r s = Inr s'"
  shows "so_worker_running s' = so_worker_running s"
proof -
  obtain d where d: "PackageData_from_buf (ev_junk_time e) (so_recv_buf s) r = Inr d"
    using assms by (auto simp: handle_data_def bind_out_eq_Inr_iff)
  obtain a h1 where n: "heap_new d (so_heap s) = (a, h1)" by fastforce
  obtain h pool s1 where s1: "advance_recv_ack (s\<lparr>so_heap := h, so_recv_pool := pool\<rparr>) = Inr s1"
      "advance_send_ack (s1\<lparr>so_ack_send_queue := AckQueue_push (pd_package_id d) (so_ack_send_queue s1),
        so_send_ack_id := umax (so_send_ack_id s1) (pd_una d)\<rparr>) = Inr s'"
    using assms d n by (simp only: handle_data_def Let_def bind_out_Inr prod.case bind_out_eq_Inr_iff)
      (auto simp: bind_out_eq_Inr_iff)
  show ?thesis using advance_keeps_running(1) [OF s1(1)] advance_keeps_running(2) [OF s1(2)] by simp
qed

lemma data_keeps_running:
  assumes "receiver_step e now (pd_bytes d) s = Inr (s', out)" "pd_type d = Data"
  shows "so_worker_running s' = so_worker_running s"
proof -
  let ?s = "s\<lparr>so_recv_buf := overlay (take MAX_MTU (pd_bytes d)) (so_recv_buf s)\<rparr>"
  have "parse_package_type (overlay (take MAX_MTU (pd_bytes d)) (so_recv_buf s)) = Inr (Some Data)"
    using assms(2) by (simp add: parse_package_type_def overlay_def pd_bytes_def get_le_def le_val_enc decode_type_def MAX_MTU_def)
  moreover have "0 < length (take MAX_MTU (pd_bytes d))" by (simp add: length_pd_bytes pd_length_def sizeof_defs MAX_MTU_def)
  ultimately obtain r where "handle_data e r ?s = Inr s'" using assms(1)
    by (auto simp: receiver_step_def process_package_def Let_def bind_out_eq_Inr_iff)
  then show ?thesis using handle_data_keeps_running by fastforce
qed

lemma demo_run:
  assumes x: "0 < length x" "length x \<le> 1000"
  obtains l0 b1 l res b where "demo_step\<^sup>*\<^sup>* (demo_first x) l0" "lk_queued l0 = [x]" "lk_out l0 = []"
    "recv_package clear_env 1600 (lk_b l0) = Inr (RecvSegment x, b1)" "so_worker_running (lk_b l0)"
    "demo_step\<^sup>*\<^sup>* (link_new fresh_sock fresh_sock) l" "lk_queued l = [x]"
    "lk_out l = [x]" "sl_len (seg_waiting (lk_a l)) = 0" "so_recv_ack_id (lk_b l) + 1 = so_send_id (lk_a l)"
    "recv_package clear_env 1600 (lk_b l) = Inr (res, b)" "res \<in> {RecvBlocked, RecvClosed}"
proof -
  let ?c = "SharpCrypto_new [1, 2, 3]" let ?d = "(demo_data x)\<lparr>pd_una := 0, pd_send_count := 1\<rparr>"
  obtain l where l0: "demo_step\<^sup>*\<^sup>* (demo_first x) l" and l: "demo_step\<^sup>*\<^sup>* (link_new fresh_sock fresh_sock) l" "lk_queued l = [x]"
    "lk_out l = []" "lk_b l = fresh_sock" "so_send_id (lk_a l) = 2" "sl_len (seg_waiting (lk_a l)) = 0"
    "pd_bytes ?d \<in> lk_net l"
    using demo_sent [OF x] demo_first_steps [OF x] by metis
  obtain hist where inv: "link_inv clear_env clear_env 1600 ?c 1408 fresh_sock l hist"
    using link_inv_reach [OF l(1) fresh_sock_end] by auto
  note R = link_rx [OF demo_crypto fresh_sock_end inv]
  have tx: "tx_inv clear_env ?c 1600 1408 hist [x] (lk_a l)" using inv l(2) by (simp add: link_inv_def)
  have hist: "length hist = 1" "concat hist = [x]"
    using tx l(5,6) by (auto simp: tx_inv_def sl_contents_def)
  have "stream_upto (segs_of hist) (1 + 1) = concat (take 1 hist)"
    using hist(1) by (intro stream_upto_hist) simp_all
  then have up: "stream_upto (segs_of hist) 2 = [x]" using hist by (simp add: numeral_2_eq_2)
  have fr: "so_recv_id fresh_sock = 1" "so_recv_ack_id fresh_sock = 0" "pm_capacity (so_recv_pool fresh_sock) = 8"
    by (simp_all add: fresh_sock_def rsock_new_def PackageMap_new_def)
  have m: "made_from clear_env ?c hist ?d" using link_inv_net [OF inv l(7)] .
  have id: "pd_package_id ?d = 1" by (simp add: demo_data_def data_package_def)
  let ?rx = "rx_inv 2 (payload_of clear_env ?c hist) (segs_of hist) ?c"
  have R': "stream_ok clear_env 1600 2 ?c (payload_of clear_env ?c hist) (segs_of hist)" "?rx fresh_sock []"
    using R unfolding l(3,4,5) .
  have "\<exists>b. receiver_step clear_env (0, 0) (pd_bytes ?d) fresh_sock = Inr (b, []) \<and> ?rx b [] \<and> 1 \<le> so_recv_ack_id b"
    using rx_inv_data [OF R'(2,1), of ?d "(0, 0)"] m fr unfolding made_from_def id by auto
  then obtain b where b: "receiver_step clear_env (0, 0) (pd_bytes ?d) fresh_sock = Inr (b, [])" "?rx b []"
      "1 \<le> so_recv_ack_id b" by blast
  have ack: "so_recv_ack_id b = 1"
    using b(3) rx_invD(8) [OF b(2)] by (simp add: word_le_nat_alt word_less_nat_alt word_unat_eq_iff)
  obtain res b1 where b1: "recv_package clear_env 1600 b = Inr (res, b1)" "so_recv_ack_id b1 = 1"
      "case res of RecvSegment seg \<Rightarrow> ?rx b1 ([] @ [seg])
       | _ \<Rightarrow> ?rx b1 [] \<and> [] = stream_upto (segs_of hist) (unat (1 :: u64) + 1)"
    using rx_inv_recv [OF b(2) R'(1)] unfolding ack by blast
  obtain seg where seg: "res = RecvSegment seg" "?rx b1 [seg]"
    using b1(3) up by (cases res) (auto simp: numeral_2_eq_2)
  have "seg = x"
    using link_out_prefix [OF tx, of "payload_of clear_env ?c hist" b1 "[seg]"] seg(2) l(5) by auto
  note seg = seg [unfolded this]
  obtain res' b2 where b2: "recv_package clear_env 1600 b1 = Inr (res', b2)"
      "case res' of RecvSegment seg \<Rightarrow> ?rx b2 ([x] @ [seg])
       | _ \<Rightarrow> ?rx b2 [x] \<and> [x] = stream_upto (segs_of hist) (unat (so_recv_ack_id b1) + 1)"
    using rx_inv_recv [OF seg(2) R'(1)] by blast
  have "res' \<in> {RecvBlocked, RecvClosed}"
    using b2(2) link_out_prefix [OF tx, of "payload_of clear_env ?c hist" b2] l(5) by (cases res') fastforce+
  moreover have arrive: "demo_step l (l\<lparr>lk_b := b\<rparr>)"
    using b(1) l(4,7) fr id by (intro lk_data [of ?d l clear_env "(0, 0)" b "[]"]) simp_all
  moreover have "demo_step (l\<lparr>lk_b := b\<rparr>) (l\<lparr>lk_b := b1, lk_out := [x]\<rparr>)"
    using lk_read [of clear_env 1600 "l\<lparr>lk_b := b\<rparr>" x b1 clear_env] b1(1) seg(1) l(3) by simp
  ultimately have run: "demo_step\<^sup>*\<^sup>* (link_new fresh_sock fresh_sock) (l\<lparr>lk_b := b1, lk_out := [x]\<rparr>)"
    using l(1) by (meson rtranclp.rtrancl_into_rtrancl)
  have run0: "demo_step\<^sup>*\<^sup>* (demo_first x) (l\<lparr>lk_b := b\<rparr>)"
    using l0 arrive by (rule rtranclp.rtrancl_into_rtrancl)
  have "pd_type ?d = Data" by (simp add: demo_data_def data_package_def)
  then have "so_worker_running b" using data_keeps_running [OF b(1)] by (simp add: fresh_sock_def)
  then show thesis
    using that [OF run0 _ _ _ _ run _ _ _ _ _ \<open>res' \<in> {RecvBlocked, RecvClosed}\<close>] l(2,3,5,6) b1(1,2) b2(1) seg(1) by simp
qed

lemma demo_delivered:
  assumes "0 < length x" "length x \<le> 1000"
  obtains l res b where "demo_step\<^sup>*\<^sup>* (link_new fresh_sock fresh_sock) l" "lk_queued l = [x]"
    "lk_out l = [x]" "sl_len (seg_waiting (lk_a l)) = 0" "so_recv_ack_id (lk_b l) + 1 = so_send_id (lk_a l)"
    "recv_package clear_env 1600 (lk_b l) = Inr (res, b)" "res \<in> {RecvBlocked, RecvClosed}"
  by (rule demo_run [OF assms])

lemma demo_arrived:
  assumes x: "0 < length x" "length x \<le> 1000"
  obtains l b where "demo_step\<^sup>*\<^sup>* (demo_first x) l" "demo_step\<^sup>*\<^sup>* (link_new fresh_sock fresh_sock) l"
    "lk_queued l = [x]" "lk_out l = []" "recv_package clear_env 1600 (lk_b l) = Inr (RecvSegment x, b)" "so_worker_running (lk_b l)"
  using demo_run [OF x] demo_first_steps [OF x] by metis

text \<open>What the reader got in any state is a prefix of what was queued.\<close>

lemma link_prefix:
  assumes "secretbox_spec (ev_easy ea) (ev_open eb)"
    and "\<forall>i. length (ev_nonce ea i) = crypto_secretbox_NONCEBYTES"
    and "ms + int (sizeof_base + sizeof_data + SHARPVPN_CRYPTO_OVERHEAD) \<le> int MAX_MTU"
    and "fresh_end capa key ms a0" "fresh_end capb key msb b0"
    and "(link_step ea eb room)\<^sup>*\<^sup>* (link_new a0 b0) l"
  shows "\<exists>rest. lk_out l @ rest = lk_queued l"
proof -
  have "ms \<le> 1600" using assms(3) by (simp add: MAX_MTU_def)
  then obtain hist where inv: "link_inv ea eb room (SharpCrypto_new key) ms b0 l hist"
    using link_inv_reach [OF assms(6,4)] by blast
  then have "tx_inv ea (SharpCrypto_new key) room ms hist (lk_queued l) (lk_a l)" by (simp add: link_inv_def)
  then show ?thesis using link_rx(2) [OF assms(1-3,5) inv] by (rule link_out_prefix)
qed





end
