(* ===== verification/VpnServer.thy ===== *)
theory VpnServer
  imports Vpn RudpLink
begin

text \<open>
  Model of the server's side of \<open>run\<close> in \<open>src/src/SharpVpn.cpp\<close> and of what it composes: the thread that accepts connections and
  starts a \<open>func_socket\<close> for each, on the state of \<open>VpnUsers\<close>. The properties join \<open>accept_connection\<close> of \<open>RudpConnect\<close> with the
  users' maps and with the end-to-end delivery of \<open>RudpLink\<close>.
\<close>

section \<open>The accepting thread\<close>

definition server_run :: "vpn \<Rightarrow> int \<times> vpn" where
  \<comment> \<open>\<open>run\<close> itself only starts the threads\<close>
  "server_run v = (0, v\<lparr>vp_running := True\<rparr>)"

text \<open>
  One turn of the thread: the datagram is what \<open>select\<close> and \<open>recvfrom\<close> deliver, \<open>p\<close> the address at which the allocator puts the
  new connection. The result is the connection that gets a thread, if any.
\<close>

definition server_accept ::
  "rsock \<Rightarrow> (sockaddr \<Rightarrow> bool) \<Rightarrow> bytes \<times> sockaddr \<Rightarrow> nat \<Rightarrow> vpn \<times> vpn_users \<Rightarrow> (nat option \<times> vpn \<times> vpn_users) outcome" where
  "server_accept blank can_bind msg p st =
     (let (v, u) = st in
      bind_out (accept_connection blank can_bind msg (vp_sock v)) (\<lambda>(c, client_socket, out).
      let v = v\<lparr>vp_sock := c\<rparr> in
      case client_socket of
        None \<Rightarrow> Inr (None, v, u)
      | Some new \<Rightarrow> Inr (Some p, v, u\<lparr>vu_heap := (vu_heap u)(p \<mapsto> new)\<rparr>)))"

text \<open>The loop on the requests that arrive, with the addresses of new connections; the result lists the started threads.\<close>

fun server_loop ::
  "rsock \<Rightarrow> (sockaddr \<Rightarrow> bool) \<Rightarrow> ((bytes \<times> sockaddr) \<times> nat) list \<Rightarrow> vpn \<times> vpn_users \<Rightarrow> (nat list \<times> vpn \<times> vpn_users) outcome" where
  "server_loop blank can_bind [] st = Inr ([], st)"
| "server_loop blank can_bind ((msg, p) # ms) st =
     (if \<not> vp_running (fst st) then Inr ([], st)
      else bind_out (server_accept blank can_bind msg p st) (\<lambda>(t, st).
           bind_out (server_loop blank can_bind ms st) (\<lambda>(ts, st).
             Inr ((case t of None \<Rightarrow> ts | Some p \<Rightarrow> p # ts), st))))"

section \<open>What the accepted connection is\<close>

lemma owners_allocated: "users_ok u \<Longrightarrow> vu_heap u p = None \<Longrightarrow> p \<notin> ran (owners u)"
  by (auto simp: users_ok_def)

lemma server_accept_reach:
  assumes "vpn_reach e ip u" "vu_heap u p = None" "server_accept blank can_bind msg p (v, u) = Inr (t, v', u')"
  shows "vpn_reach e ip u' \<and> users u' = users u \<and> owners u' = owners u \<and> vp_running v' = vp_running v"
proof -
  obtain c cs out where a: "accept_connection blank can_bind msg (vp_sock v) = Inr (c, cs, out)"
    using assms(3) by (auto simp: server_accept_def bind_out_eq_Inr_iff)
  show ?thesis using assms a vpn_reach.accept [OF assms(1,2)]
    by (cases cs) (auto simp: server_accept_def Let_def)
qed

lemma server_loop_reach:
  "server_loop blank can_bind ms (v, u) = Inr (ts, v', u') \<Longrightarrow> vpn_reach e ip u \<Longrightarrow>
   distinct (map snd ms) \<Longrightarrow> \<forall>p \<in> snd ` set ms. vu_heap u p = None \<Longrightarrow>
   vpn_reach e ip u' \<and> users u' = users u \<and> set ts \<subseteq> snd ` set ms"
proof (induction ms arbitrary: v u ts)
  case (Cons mp ms)
  obtain msg p where mp: "mp = (msg, p)" by fastforce
  show ?case
  proof (cases "vp_running v")
    case False
    then show ?thesis using Cons.prems by (simp add: mp)
  next
    case True
    obtain t v1 u1 ts1 where s: "server_accept blank can_bind msg p (v, u) = Inr (t, v1, u1)"
        "server_loop blank can_bind ms (v1, u1) = Inr (ts1, v', u')" "ts = (case t of None \<Rightarrow> ts1 | Some p \<Rightarrow> p # ts1)"
      using Cons.prems(1) True by (auto simp: mp bind_out_eq_Inr_iff)
    have n: "vu_heap u p = None" using Cons.prems(4) by (simp add: mp)
    note r = server_accept_reach [OF Cons.prems(2) n s(1)]
    have t: "t = None \<or> t = Some p" "\<And>q. q \<noteq> p \<Longrightarrow> vu_heap u1 q = vu_heap u q"
      using s(1) by (auto simp: server_accept_def Let_def bind_out_eq_Inr_iff split: option.splits)
    have "\<forall>q \<in> snd ` set ms. vu_heap u1 q = None"
      using Cons.prems(3,4) t(2) by (force simp: mp)
    then have "vpn_reach e ip u' \<and> users u' = users u1 \<and> set ts1 \<subseteq> snd ` set ms"
      using Cons.IH [OF s(2)] r Cons.prems(3) by (simp add: mp)
    then show ?thesis using r t(1) s(3) by (auto simp: mp)
  qed
qed simp

text \<open>Both ends of a handshake are new sockets with the agreed key.\<close>

lemma accepted_fresh:
  assumes "accept_connection blank can_bind msg srv = Inr (srv', Some new, out)"
    and "blank = rsock_new cap j64 jseg j8 down up key0 ms"
    and "0 < cap" "cap < 2 ^ 32" "cap \<le> length j64" "cap \<le> length jseg" "1600 \<le> length j8"
  shows "fresh_end cap (sc_key (so_crypto (cn_sock srv))) ms (cn_sock new)"
proof -
  let ?key = "sc_key (so_crypto (cn_sock srv))"
  obtain v po where new: "new = ReliableSocket_server blank v (snd msg) (fst (cn_local srv), of_nat po) 200 ?key"
    using assms(1) by (auto simp: accept_connection_def Let_def bind_out_eq_Inr_iff split: if_splits)
  have "rx_part (cn_sock new) = rx_part (rsock_new cap j64 jseg j8 down up ?key ms)"
    "tx_part (cn_sock new) = tx_part (rsock_new cap j64 jseg j8 down up ?key ms)"
    by (simp_all add: new ReliableSocket_server_def conn_new_def Let_def set_rto_def assms(2) rsock_new_def rx_part_def
        tx_part_def sc_key_rekey)
  then show ?thesis unfolding fresh_end_def using assms(3-7) by blast
qed

lemma connected_fresh:
  assumes "connect_addr net sent now can_bind server cl = Inr ((0, cl'), sends)" "fresh_end cap key ms (cn_sock cl)"
  shows "fresh_end cap key ms (cn_sock cl')"
proof -
  have "rx_part (cn_sock cl') = rx_part (cn_sock cl)" "tx_part (cn_sock cl') = tx_part (cn_sock cl)"
    using assms(1)
    by (auto simp: connect_addr_def Let_def bind_out_eq_Inr_iff set_rto_def rx_part_def tx_part_def split: if_splits option.splits)
  with assms(2) show ?thesis by (simp add: fresh_end_def)
qed

section \<open>Properties\<close>

text \<open>
  C6: Every request gets a server. In any state that the server's threads reach, a connection request that
  arrives while a port is free is accepted: the new connection talks to the address the request came
  from, its workers run, no user and no address changes, and whatever the client then sends as its
  token, registering it leads to a reachable state again, so the invariant on users and addresses goes
  on.
\<close>

theorem requests_accepted:
  assumes "vpn_reach e ip u" "vu_heap u p = None" "length (vu_ip_map u) < 199"
    and "so_type (cn_sock (vp_sock v)) = AcceptableSocket" "cn_free_port_now (vp_sock v) < 100"
    and "k < 100" "can_bind (fst (cn_local (vp_sock v)), of_nat (k + free_port_start))"
  shows "\<exists>v' u' c. server_accept blank can_bind (PackageConnectionCreate_bytes w, src) p (v, u) = Inr (Some p, v', u') \<and>
     vu_heap u' p = Some c \<and> cn_connected c = src \<and> is_alive (cn_sock c) \<and> vpn_reach e ip u' \<and>
     users u' = users u \<and> owners u' = owners u \<and>
     {u2. \<exists>junk r. func_socket_register e junk p u' = Inr (r, u2)} \<subseteq> Collect (vpn_reach e ip)"
proof -
  obtain po now' where a: "accept_connection blank can_bind (PackageConnectionCreate_bytes w, src) (vp_sock v) =
     Inr ((vp_sock v)\<lparr>cn_connected := src, cn_free_port_now := now'\<rparr>,
       Some (ReliableSocket_server blank (smin w (so_upload_speed (cn_sock (vp_sock v)))) src
         (fst (cn_local (vp_sock v)), of_nat po) 200 (sc_key (so_crypto (cn_sock (vp_sock v))))),
       [(PackageConnectionCreateR_bytes (smin w (so_upload_speed (cn_sock (vp_sock v)))) (of_nat po), src)])"
    using accept_request [where can_bind = can_bind, OF assms(4-7), of blank w src] by blast
  define c where "c = ReliableSocket_server blank (smin w (so_upload_speed (cn_sock (vp_sock v)))) src
         (fst (cn_local (vp_sock v)), of_nat po) 200 (sc_key (so_crypto (cn_sock (vp_sock v))))"
  define v' where "v' = v\<lparr>vp_sock := (vp_sock v)\<lparr>cn_connected := src, cn_free_port_now := now'\<rparr>\<rparr>"
  define u' where "u' = u\<lparr>vu_heap := (vu_heap u)(p \<mapsto> c)\<rparr>"
  have s: "server_accept blank can_bind (PackageConnectionCreate_bytes w, src) p (v, u) = Inr (Some p, v', u')"
    by (simp add: server_accept_def a c_def [symmetric] v'_def u'_def)
  note r = server_accept_reach [OF assms(1,2) s]
  have c: "cn_connected c = src" "is_alive (cn_sock c)"
    by (simp_all add: c_def ReliableSocket_server_def conn_new_def Let_def set_rto_def is_alive_def)
  have "p \<notin> ran (owners u')" using owners_allocated [OF vpn_reach_ok [OF assms(1)] assms(2)] by (simp add: u'_def)
  then have "vpn_reach e ip u2" if "func_socket_register e junk p u' = Inr (x, u2)" for junk x u2
    using vpn_reach.register [OF _ _ _ that] r assms(3) by (simp add: u'_def)
  then show ?thesis using s r c by (intro exI [of _ v'] exI [of _ u'] exI [of _ c]) (auto simp: u'_def)
qed

definition demo_listening :: vpn where
  "demo_listening = demo_vpn\<lparr>vp_sock := demo_server\<rparr>"

theorem requests_accepted_witness:
  "\<exists>v' u' c. server_accept fresh_sock (\<lambda>_. True) (PackageConnectionCreate_bytes 50, (9, 7)) 3 (demo_listening, vpn_users_new 0x0a070001)
       = Inr (Some 3, v', u') \<and> vu_heap u' 3 = Some c \<and> cn_connected c = (9, 7) \<and> is_alive (cn_sock c)"
proof -
  have u: "vu_heap (vpn_users_new 0x0a070001) 3 = None" "length (vu_ip_map (vpn_users_new 0x0a070001)) < 199"
    by (simp_all add: vpn_users_new_def)
  have v: "so_type (cn_sock (vp_sock demo_listening)) = AcceptableSocket" "cn_free_port_now (vp_sock demo_listening) < 100"
    by (simp_all add: demo_listening_def demo_server_def conn_new_def)
  show ?thesis
    using requests_accepted [OF vpn_reach.start [of clear_env] u v, where k = 0 and can_bind = "\<lambda>_. True" and blank = fresh_sock
        and w = 50 and src = "(9, 7)"] by auto
qed


definition demo_blank :: rsock where
  "demo_blank = rsock_new 8 (replicate 8 0) (replicate 8 []) (replicate 1600 0) 100 100 [1, 2, 3] 1408"


end
