(* ===== verification/VpnLogin.thy ===== *)
theory VpnLogin
  imports VpnServer
begin

text \<open>
  The log-in of a client from end to end: the token that \<open>run\<close> of the client sends, its way over the connection, \<open>func_socket\<close> of the
  server (\<open>src/src/SharpVpn.cpp\<close>), and the way of the assigned address back. It joins the links of \<open>RudpLink\<close> in both directions with the
  operations of \<open>VpnUsers\<close> and \<open>Vpn\<close>.
\<close>

section \<open>Reading with a smaller buffer\<close>

lemma SegmentParser_next_room:
  assumes "SegmentParser_next r sp = Inr (seg, sp')"
  shows "length seg \<le> r" "length seg \<le> r' \<Longrightarrow> SegmentParser_next r' sp = Inr (seg, sp')"
  using assms by (auto simp: SegmentParser_next_def bind_out_eq_Inr_iff split: if_splits)

lemma recv_package_room:
  assumes "recv_package e r s = Inr (RecvSegment seg, s')" "length seg \<le> r'"
  shows "recv_package e r' s = Inr (RecvSegment seg, s')"
proof -
  obtain seg1 sp where n: "SegmentParser_next r (so_segment_recv s) = Inr (seg1, sp)"
    using assms(1) by (auto simp: recv_package_def bind_out_eq_Inr_iff)
  show ?thesis
  proof (cases "seg1 = []")
    case False
    then show ?thesis using assms n SegmentParser_next_room(2) [OF n, of r'] by (auto simp: recv_package_def)
  next
    case True
    then have n': "SegmentParser_next r' (so_segment_recv s) = Inr (seg1, sp)" using SegmentParser_next_room(2) [OF n] by simp
    obtain i res where w: "recv_wait (so_worker_running s) (so_recv_pool s) (so_recv_ack_id s) (so_recv_id s) = (i, res)" by fastforce
    show ?thesis
    proof (cases res)
      case (Inr x)
      then show ?thesis using assms(1) n n' w True by (simp add: recv_package_def)
    next
      case (Inl x)
      obtain d sp1 h pool sp2 where p: "heap_get (PackageMap_index i (so_recv_pool s)) (so_heap s) = Inr d"
          "SegmentParser_load (ev_open e) (so_crypto s) (pd_data d) sp = Inr sp1"
          "PackageMap_erase (to_int_and_back i) (so_heap s, so_recv_pool s) = Inr (h, pool)"
          "SegmentParser_next r sp1 = Inr (seg, sp2)"
          "s' = s\<lparr>so_segment_recv := sp2, so_heap := h, so_recv_pool := pool, so_recv_id := i + 1\<rparr>"
        using assms(1) n w True Inl by (auto simp: recv_package_def Let_def bind_out_eq_Inr_iff)
      then show ?thesis using SegmentParser_next_room(2) [OF p(4) assms(2)] n' w True Inl
        by (simp add: recv_package_def Let_def)
    qed
  qed
qed

lemma recv_wait_result: "recv_wait r pool a i = (j, Inr res) \<Longrightarrow> res \<in> {RecvClosed, RecvBlocked} \<and> (r \<longrightarrow> res \<noteq> RecvClosed)"
proof (induction r pool a i rule: recv_wait.induct)
  case (1 r pool a i)
  show ?case
    using 1(1) 1(2) recv_wait.simps [of r pool a i] by (auto split: if_splits)
qed

lemma recv_package_length:
  assumes "recv_package e r s = Inr (RecvSegment seg, s')"
  shows "length seg \<le> r"
proof -
  obtain i res where w: "recv_wait (so_worker_running s) (so_recv_pool s) (so_recv_ack_id s) (so_recv_id s) = (i, res)" by fastforce
  show ?thesis using assms w
    by (cases res) (auto simp: recv_package_def Let_def bind_out_eq_Inr_iff split: if_splits dest: recv_wait_result SegmentParser_next_room(1))
qed

lemma recv_package_running:
  assumes "recv_package e r s = Inr (res, s')" "is_alive s"
  shows "res \<noteq> RecvClosed"
proof -
  obtain i w where w: "recv_wait (so_worker_running s) (so_recv_pool s) (so_recv_ack_id s) (so_recv_id s) = (i, w)" by fastforce
  have "w \<noteq> Inr RecvClosed" using recv_wait_result w assms(2) by (fastforce simp: is_alive_def)
  then show ?thesis using assms(1) w
    by (cases w) (auto simp: recv_package_def Let_def bind_out_eq_Inr_iff split: if_splits)
qed

text \<open>The first segment that an end reads is the first one that the other end queued.\<close>

lemma first_segment:
  assumes "secretbox_spec (ev_easy ea) (ev_open eb)" "\<forall>i. length (ev_nonce ea i) = crypto_secretbox_NONCEBYTES"
    and "ms + int (sizeof_base + sizeof_data + SHARPVPN_CRYPTO_OVERHEAD) \<le> int MAX_MTU"
    and "fresh_end capa key ms a0" "fresh_end capb key msb b0"
    and "(link_step ea eb room)\<^sup>*\<^sup>* (link_new a0 b0) l" "lk_queued l = x # q" "lk_out l = []"
    and "recv_package eb r (lk_b l) = Inr (RecvSegment seg, b)" "r \<le> room"
  shows "seg = x"
proof -
  have "length seg \<le> room" using recv_package_length [OF assms(9)] assms(10) by linarith
  then have "link_step ea eb room l (l\<lparr>lk_b := b, lk_out := lk_out l @ [seg]\<rparr>)"
    using recv_package_room [OF assms(9)] by (intro lk_read)
  then have "(link_step ea eb room)\<^sup>*\<^sup>* (link_new a0 b0) (l\<lparr>lk_b := b, lk_out := lk_out l @ [seg]\<rparr>)"
    using assms(6) by (rule rtranclp.rtrancl_into_rtrancl [rotated])
  from link_prefix [OF assms(1-5) this] show ?thesis using assms(7,8) by simp
qed

section \<open>The two halves of the log-in\<close>

lemma read_token_of:
  assumes "0 \<notin> set token" "length token < length junk" "junk ! length token = 0"
  shows "read_token junk (RecvSegment token) = Inr token"
proof -
  have j: "drop (length token) junk = 0 # drop (Suc (length token)) junk"
    using assms(2,3) by (metis Cons_nth_drop_Suc)
  have "takeWhile (\<lambda>b. b \<noteq> 0) (token @ 0 # ys) = token" for ys
    using assms(1) by (induction token) auto
  then show ?thesis by (simp add: read_token_def c_string_def overlay_def j)
qed

lemma send_on_maps: "send_on p buf n v = Inr v' \<Longrightarrow> vu_user_map v' = vu_user_map v \<and> vu_ip_map v' = vu_ip_map v"
  by (auto simp: send_on_def bind_out_eq_Inr_iff)

lemma register_received:
  assumes ok: "users_ok u" "p \<notin> ran (owners u)" "length (vu_ip_map u) < 199"
    and c: "vu_heap u p = Some c" "is_alive (cn_sock c)"
    and r: "func_socket_register e junk p u = Inr (Some ip, u')"
    and tok: "\<forall>seg s. recv_package e TOKEN_LEN (cn_sock c) = Inr (RecvSegment seg, s) \<longrightarrow> read_token junk (RecvSegment seg) = Inr token"
  shows "users u' = (users u)(token \<mapsto> ip) \<and> owners u' = (owners u)(ip \<mapsto> p) \<and> users_ok u'"
proof -
  obtain res s where s: "recv_package e TOKEN_LEN (cn_sock c) = Inr (res, s)"
    using r c by (auto simp: func_socket_register_def bind_out_eq_Inr_iff sock_at_def)
  define v1 where "v1 = u\<lparr>vu_heap := (vu_heap u)(p \<mapsto> c\<lparr>cn_sock := s\<rparr>)\<rparr>"
  have "res \<noteq> RecvBlocked" using r c s by (auto simp: func_socket_register_def sock_at_def)
  then obtain seg where seg: "res = RecvSegment seg" using recv_package_running [OF s c(2)] by (cases res) auto
  have t: "read_token junk (RecvSegment seg) = Inr token" using tok s seg by blast
  have ok1: "users_ok v1" "vu_heap v1 p = Some (c\<lparr>cn_sock := s\<rparr>)" "p \<notin> ran (owners v1)" "length (vu_ip_map v1) < 199"
    using heap_upd_ok [OF ok(1)] ok by (simp_all add: v1_def)
  obtain v2 where v2: "register p token v1 = Inr (ip, v2)" "send_on p (dhcp_bytes ip) 4 v2 = Inr u'"
    using r c s t seg by (auto simp: func_socket_register_def sock_at_def v1_def bind_out_eq_Inr_iff)
  have "users_ok v2" "users v2 = (users v1)(token \<mapsto> ip)" "owners v2 = (owners v1)(ip \<mapsto> p)"
    using register_ok [OF ok1(1-3), of token] ok1(4) v2(1) by auto
  then show ?thesis using send_on_maps [OF v2(2)] send_on_ok [OF _ v2(2)] by (simp add: v1_def)
qed

lemma answer_received:
  assumes "recv_dhcp e junk v = Inr (Some (ip', v'))" "is_alive (cn_sock (vp_sock v))" "length junk = 4"
    and "\<And>seg s. recv_package e 4 (cn_sock (vp_sock v)) = Inr (RecvSegment seg, s) \<Longrightarrow> seg = dhcp_bytes ip"
  shows "ip' = ip"
proof -
  obtain res s where s: "recv_package e 4 (cn_sock (vp_sock v)) = Inr (res, s)"
    using assms(1) by (auto simp: recv_dhcp_def bind_out_eq_Inr_iff)
  then obtain seg where seg: "res = RecvSegment seg"
    using assms(1) recv_package_running [OF s assms(2)] by (cases res) (auto simp: recv_dhcp_def)
  then have "seg = dhcp_bytes ip" using assms(4) s by blast
  moreover have "overlay (dhcp_bytes ip) junk = dhcp_bytes ip" using assms(3) by (simp add: overlay_def dhcp_bytes_def)
  moreover have "of_nat (le_val (dhcp_bytes ip)) = ip" by (simp add: dhcp_bytes_def of_nat_le_enc4)
  ultimately show ?thesis using assms(1) s seg by (simp add: recv_dhcp_def)
qed

section \<open>Properties\<close>



end
