(* ===== verification/VpnPackets.thy ===== *)
theory VpnPackets
  imports VpnLogin
begin

text \<open>
  The way of a packet from the tunnel of one host to the tunnel of the other, in both directions: the turn of the thread that reads the
  tunnel (\<open>forward_turn\<close> of \<open>VpnUsers\<close>), the connection (\<open>RudpLink\<close>), and a turn of the other host's \<open>func_socket\<close>.
\<close>

lemma link_queued_grows: "link_step ea eb room l l' \<Longrightarrow> \<exists>ys. lk_queued l' = lk_queued l @ ys"
  by (induction rule: link_step.induct) simp_all

lemma link_queued_steps: "(link_step ea eb room)\<^sup>*\<^sup>* l l' \<Longrightarrow> \<exists>ys. lk_queued l' = lk_queued l @ ys"
proof (induction rule: rtranclp_induct)
  case (step y z)
  then show ?case using link_queued_grows [OF step.hyps(2)] by auto
qed simp

text \<open>
  Where a packet goes: the server looks its destination up in \<open>ip_map\<close>, the client has one connection. The turn is then
  \<open>send_package\<close> of the whole packet on that connection.
\<close>

definition carries :: "bool \<Rightarrow> nat \<Rightarrow> SharpPackageParser \<Rightarrow> vpn_users \<Rightarrow> nat option" where
  "carries server own parser u = (if server then owners u (ih_daddr (pp_hdr parser)) else Some own)"

lemma turn_sends:
  assumes "forward_turn server own pkt (buf, u) = Inr (buf', u')" "pkt \<noteq> []" "carries server own parser u = Some q"
    and "vu_heap u q = Some c" "is_alive (cn_sock c)"
    and "parse_package (overlay (take MAX_MTU pkt) buf) = Inr parser" "pp_ip_type parser = ipv4" "\<not> pp_multicast parser"
  shows "\<exists>s. send_package (overlay (take MAX_MTU pkt) buf) (length (take MAX_MTU pkt)) (cn_sock c) = Inr (0, s) \<and>
     vu_heap u' q = Some (c\<lparr>cn_sock := s\<rparr>)"
proof -
  have ne: "take MAX_MTU pkt \<noteq> []" using assms(2) by (simp add: MAX_MTU_def)
  obtain r s where "send_package (overlay (take MAX_MTU pkt) buf) (length (take MAX_MTU pkt)) (cn_sock c) = Inr (r, s)"
      "vu_heap u' q = Some (c\<lparr>cn_sock := s\<rparr>)"
    using assms ne by (auto simp: forward_turn_def carries_def Let_def send_on_def sock_at_def bind_out_eq_Inr_iff split: if_splits)
  moreover then have "r = 0" using assms(5) by (auto simp: send_package_def is_alive_def bind_out_eq_Inr_iff)
  ultimately show ?thesis by blast
qed

text \<open>The other host writes to its tunnel what \<open>recv_package\<close> returns.\<close>

lemma turn_writes:
  assumes turn: "func_socket_turn e soft p u = Inr (PumpWrite w, u')" and c: "vu_heap u p = Some c"
  shows "\<exists>s. recv_package e MAX_MTU (cn_sock c) = Inr (RecvSegment w, s) \<and> vu_heap u' p = Some (c\<lparr>cn_sock := s\<rparr>)"
proof -
  have alive: "is_alive (cn_sock c)" using turn c by (auto simp: func_socket_turn_def sock_at_def split: if_splits)
  then obtain res s where s: "recv_package e MAX_MTU (cn_sock c) = Inr (res, s)"
    using turn c by (auto simp: func_socket_turn_def sock_at_def bind_out_eq_Inr_iff)
  then show ?thesis using turn c alive by (cases res) (auto simp: func_socket_turn_def sock_at_def split: if_splits)
qed

lemma take_overlay_same: "take (length p) (overlay p buf) = p"
  by (simp add: overlay_def)

section \<open>Properties\<close>


lemma demo_forward:
  "\<exists>uc'. forward_turn False 7 demo_packet (replicate 1600 0, (vpn_users_new ip)\<lparr>vu_heap := [7 \<mapsto> conn_new fresh_sock]\<rparr>) =
       Inr (overlay demo_packet (replicate 1600 0), uc') \<and> vu_heap uc' 7 = Some (conn_new (demo_queued demo_packet))"
proof -
  let ?buf = "overlay demo_packet (replicate 1600 0)"
  have to: "packet_to 0x0200070a demo_packet"
    by (simp add: packet_to_def demo_packet_def MAX_MTU_def le_enc_4)
  obtain parser where parser: "parse_package ?buf = Inr parser" "pp_ip_type parser = ipv4" "\<not> pp_multicast parser"
    using parse_packet_to [OF to, of "replicate 1600 0"] by auto
  have t: "take MAX_MTU demo_packet = demo_packet" "demo_packet \<noteq> []" by (simp_all add: demo_packet_def MAX_MTU_def)
  have "send_package ?buf (length demo_packet) fresh_sock = Inr (0, demo_queued demo_packet)"
    using demo_queued_step [of demo_packet] by (simp add: send_package_def PackageSegment_new_def take_overlay_same overlay_def split: if_splits)
  then show ?thesis using parser t
    by (simp add: forward_turn_def send_on_def sock_at_def conn_new_def)
qed


end
