(* ===== verification/Daemon.thy ===== *)
theory Daemon
  imports RouteTable Config
begin

text \<open>
  Model of \<open>src/src/DaemonRuntime.cpp\<close> and of the argument handling of \<open>src/src/main.cpp\<close>. The pid file is an
  optional string (\<open>None\<close>: it does not exist or cannot be read); \<open>kill\<close>, \<open>unlink\<close> and \<open>freopen\<close> answer through arguments.
\<close>

section \<open>The pid file\<close>

datatype DaemonMode = daemon_null | daemon_start | daemon_stop | daemon_restart

record DaemonRuntime =
  dr_pid_file :: string
  dr_log_file :: string
  dr_pid :: int

definition DaemonRuntime_new :: "string \<Rightarrow> string \<Rightarrow> int \<Rightarrow> DaemonRuntime" where
  "DaemonRuntime_new pid_f log_f junk = \<lparr>dr_pid_file = pid_f, dr_log_file = log_f, dr_pid = junk\<rparr>"

text \<open>\<^verbatim>\<open>fs >> pid\<close> on an \<open>int\<close>: \<open>None\<close> when the stream fails.\<close>

definition extract_int :: "string \<Rightarrow> int option" where
  "extract_int s =
     (let s = dropWhile is_space s;
          neg = (s \<noteq> [] \<and> hd s = CHR ''-'');
          s = (if s \<noteq> [] \<and> (hd s = CHR ''-'' \<or> hd s = CHR ''+'') then tl s else s);
          i = (if neg then - int (fst (digits_base 10 0 s)) else int (fst (digits_base 10 0 s))) in
      if s = [] \<or> 10 \<le> digit_of (hd s) then None
      else if i < - (2 ^ 31) \<or> 2 ^ 31 \<le> i then None else Some i)"

text \<open>
  The test for a running program reads the number from a stream only when the stream is bad, and then the
  extraction fails.
\<close>

definition write_pid_file :: "bool \<Rightarrow> bool \<Rightarrow> DaemonRuntime \<Rightarrow> string option \<Rightarrow> int \<times> string option" where
  \<comment> \<open>\<open>opened\<close>, \<open>written\<close>: the file can be opened for writing, and the number written\<close>
  "write_pid_file opened written d file =
     (let bad = (file = None); extracted = \<not> bad in
      if bad \<and> extracted then (-1, file)
      else if \<not> opened then (-1, file)
      else if \<not> written then (-1, Some [])
      else (0, Some (string_of_int (dr_pid d))))"

text \<open>The 200 polls with signal 0; \<open>gone i\<close>: the \<open>i\<close>-th one fails with \<open>ESRCH\<close>.\<close>

fun poll_loop :: "(nat \<Rightarrow> bool) \<Rightarrow> nat \<Rightarrow> nat \<Rightarrow> bool" where
  "poll_loop gone i 0 = False"
| "poll_loop gone i (Suc n) = (if gone i then True else poll_loop gone (i + 1) n)"

definition ESRCH :: nat where "ESRCH = 3"

record kill_env =
  ke_term :: "int \<Rightarrow> nat"          \<comment> \<open>\<^verbatim>\<open>kill(pid, SIGTERM)\<close>: the error number, 0 for none\<close>
  ke_gone :: "int \<Rightarrow> nat \<Rightarrow> bool"
  ke_unlink :: bool

text \<open>The return value, the process that got \<open>SIGTERM\<close> and the file.\<close>

definition daemon_stop_op :: "kill_env \<Rightarrow> string option \<Rightarrow> int \<times> int option \<times> string option" where
  "daemon_stop_op e file =
     (case file of
        None \<Rightarrow> (-1, None, file)
      | Some s \<Rightarrow>
          case extract_int s of
            None \<Rightarrow> (-1, None, file)
          | Some pid \<Rightarrow>
              if pid > 0 then
                if ke_term e pid \<noteq> 0 then (if ke_term e pid = ESRCH then (0, Some pid, file) else (-1, Some pid, file))
                else if \<not> poll_loop (ke_gone e pid) 0 200 then (-1, Some pid, file)
                else if \<not> ke_unlink e then (-1, Some pid, file)
                else (0, Some pid, None)
              else (-1, None, file))"

text \<open>
  \<open>start\<close>, as the child sees it: \<open>fork\<close> gave it 0, the parent waits for the signal that tells it to exit.
  The list holds the signals sent to the parent. The first argument is what \<open>fork\<close> returns; in the
  parent the function does not return.
\<close>

datatype start_result = StartReturns int | StartExits

definition daemon_start_op ::
  "int \<Rightarrow> int \<Rightarrow> bool \<Rightarrow> bool \<Rightarrow> bool \<Rightarrow> bool \<Rightarrow> DaemonRuntime \<Rightarrow> string option \<Rightarrow>
   start_result \<times> DaemonRuntime \<times> string option \<times> nat" where
  \<comment> \<open>\<open>self\<close> is \<open>getpid()\<close>, the last component the number of \<open>SIGINT\<close> sent to the parent\<close>
  "daemon_start_op forked self opened written out_ok err_ok d file =
     (let d = d\<lparr>dr_pid := forked\<rparr> in
      if forked = -1 then (StartReturns (-1), d, file, 0)
      else if forked > 0 then (StartExits, d, file, 0)
      else
        let d = d\<lparr>dr_pid := self\<rparr> in
        case write_pid_file opened written d file of (r, file) \<Rightarrow>
          if r \<noteq> 0 then (StartReturns (-1), d, file, 1)
          else if \<not> out_ok then (StartReturns (-1), d, file, 1)
          else if \<not> err_ok then (StartReturns (-1), d, file, 1)
          else (StartReturns 0, d, file, 1))"

section \<open>Command line\<close>

text \<open>
  The loop over \<open>argv\<close>, from index 1. \<^verbatim>\<open>args[i+1]\<close> behind the last argument is the null pointer, from which neither
  \<open>strcmp\<close> nor the string constructor can read. \<open>load\<close> is \<open>parse_file_args\<close> on a file name. An unknown word is skipped.
\<close>

fun args_loop ::
  "(string \<Rightarrow> VpnArgs outcome) \<Rightarrow> string list \<Rightarrow> VpnArgs \<times> DaemonMode \<Rightarrow> (int + VpnArgs \<times> DaemonMode) outcome" where
  "args_loop load [] st = Inr (Inr st)"
| "args_loop load [a] st = (if a = ''-c'' \<or> a = ''-d'' then Inl NullDeref else Inr (Inr st))"
| "args_loop load (a # b # rest) (vpn_args, mode) =
     (if a = ''-c'' then bind_out (load b) (\<lambda>vpn_args. args_loop load rest (vpn_args, mode))
      else if a = ''-d'' then
        (if b = ''start'' then args_loop load rest (vpn_args, daemon_start)
         else if b = ''stop'' then args_loop load rest (vpn_args, daemon_stop)
         else if b = ''restart'' then args_loop load rest (vpn_args, daemon_restart)
         else Inr (Inl (-1)))
      else args_loop load (b # rest) (vpn_args, mode))"

datatype main_action =
    MainReturns int                                 \<comment> \<open>\<open>main\<close> returns\<close>
  | MainStop VpnArgs                                \<comment> \<open>stop the daemon, return -1\<close>
  | MainRun bool bool VpnArgs                       \<comment> \<open>stop a daemon first; start one before \<open>run\<close>\<close>

definition main_plan :: "(string \<Rightarrow> VpnArgs outcome) \<Rightarrow> VpnArgs \<Rightarrow> string list \<Rightarrow> main_action outcome" where
  \<comment> \<open>\<open>junk\<close> is the uninitialised \<open>vpn_args\<close>; the list is \<open>argv\<close> without the program's name\<close>
  "main_plan load junk argv =
     bind_out (args_loop load argv (junk\<lparr>va_error := True\<rparr>, daemon_null)) (\<lambda>r.
     Inr (case r of
            Inl code \<Rightarrow> MainReturns code
          | Inr (vpn_args, mode) \<Rightarrow>
              if va_error vpn_args then MainReturns (-1)
              else if mode = daemon_stop then MainStop vpn_args
              else MainRun (mode = daemon_restart) (mode = daemon_start \<or> mode = daemon_restart) vpn_args))"

section \<open>Properties\<close>

lemma poll_loop_iff: "poll_loop gone i n \<longleftrightarrow> (\<exists>j < n. gone (i + j))"
proof (induction n arbitrary: i)
  case (Suc n)
  show ?case
  proof (cases "gone i")
    case False
    have "(\<exists>j < n. gone (i + 1 + j)) \<longleftrightarrow> (\<exists>j < Suc n. gone (i + j))"
    proof
      assume "\<exists>j < n. gone (i + 1 + j)"
      then obtain j where "j < n" "gone (i + 1 + j)" by blast
      then show "\<exists>j < Suc n. gone (i + j)" by (intro exI [of _ "Suc j"]) simp
    next
      assume "\<exists>j < Suc n. gone (i + j)"
      then obtain j where j: "j < Suc n" "gone (i + j)" by blast
      with False have "j \<noteq> 0" by (intro notI) simp
      then obtain k where "j = Suc k" by (cases j) auto
      with j show "\<exists>j < n. gone (i + 1 + j)" by (intro exI [of _ k]) simp
    qed
    then show ?thesis using False Suc.IH [of "i + 1"] by simp
  qed (auto intro: exI [of _ 0])
qed simp

lemma extract_string_of_nat:
  assumes "n < 2 ^ 31"
  shows "extract_int (string_of_nat n) = Some (int n)"
proof -
  obtain d t where s: "string_of_nat n = digit_char d # t" "d < 10" using string_of_nat_hd by metis
  have "digits_base 10 0 (string_of_nat n) = (n, [])" using digits_base_string [of 10 0 n "[]"] by simp
  then show ?thesis using assms s(1) digit_char_plain [OF s(2)] digit_of_char [OF s(2)] s(2)
    by (simp add: extract_int_def)
qed

text \<open>
  The daemon that was started is the one that is stopped. After a successful \<open>start\<close>, \<open>stop\<close> sends \<open>SIGTERM\<close> to exactly the
  process that wrote the file; it returns 0 and removes the file if the process is seen gone in
  one of the 200 polls and the file can be removed, and otherwise it returns -1 and keeps it.
\<close>

lemma daemon_stop_reaches:
  assumes start: "daemon_start_op forked self opened written out_ok err_ok d file = (StartReturns 0, d', file', sigs)"
    and self: "0 < self" "self < 2 ^ 31" and alive: "ke_term e self = 0"
  shows "daemon_stop_op e file' =
     (if (\<exists>j < 200. ke_gone e self j) \<and> ke_unlink e then (0, Some self, None) else (-1, Some self, file'))"
proof -
  have f: "file' = Some (string_of_int self)"
    using start by (auto simp: daemon_start_op_def write_pid_file_def Let_def split: if_splits prod.splits)
  have "extract_int (string_of_int self) = Some self"
    using self extract_string_of_nat [of "nat self"] by (simp add: string_of_int_def nat_less_iff)
  then show ?thesis using self alive by (simp add: f daemon_stop_op_def poll_loop_iff)
qed

lemma daemon_stop_reaches_witness:
  "daemon_stop_op \<lparr>ke_term = (\<lambda>_. 0), ke_gone = (\<lambda>_ i. i = 7), ke_unlink = True\<rparr> (Some (string_of_int 4711)) =
     (0, Some 4711, None)"
proof -
  have "daemon_start_op 0 4711 True True True True (DaemonRuntime_new ''p'' ''l'' 0) None =
      (StartReturns 0, \<lparr>dr_pid_file = ''p'', dr_log_file = ''l'', dr_pid = 4711\<rparr>, Some (string_of_int 4711), 1)"
    by (simp add: daemon_start_op_def write_pid_file_def DaemonRuntime_new_def)
  from daemon_stop_reaches [OF this, of "\<lparr>ke_term = (\<lambda>_. 0), ke_gone = (\<lambda>_ i. i = 7), ke_unlink = True\<rparr>"]
  show ?thesis by (simp add: exI [of _ 7])
qed

text \<open>
  The check for a program that is already running never finds one: whatever number the pid file
  holds, it is overwritten.
\<close>

lemma pid_file_overwritten: "write_pid_file True True d (Some s) = (0, Some (string_of_int (dr_pid d)))"
  by (simp add: write_pid_file_def)

text \<open>An option without its argument reads through the null pointer at the end of \<open>argv\<close>.\<close>

lemma missing_argument: "main_plan load junk [''-c''] = Inl NullDeref" "main_plan load junk [''-d''] = Inl NullDeref"
  by (simp_all add: main_plan_def)

text \<open>Without a configuration file, or with one that cannot be read, nothing is run.\<close>

lemma no_config_no_run:
  assumes "main_plan load junk argv = Inr (MainRun r s a)"
  shows "\<not> va_error a"
proof -
  obtain x where "args_loop load argv (junk\<lparr>va_error := True\<rparr>, daemon_null) = Inr x"
    using assms by (auto simp: main_plan_def bind_out_eq_Inr_iff)
  then show ?thesis using assms by (cases x) (auto simp: main_plan_def split: if_splits)
qed

end
