(* ===== verification/RoutePlatforms.thy ===== *)
theory RoutePlatforms
  imports RouteTable
begin

text \<open>
  Model of the Windows and macOS parts of \<open>src/src/RouteTable.cpp\<close>. On Windows the table keeps a row of the system's
  forward table as a template and changes its destination and mask for every request; on macOS
  each request is a message on a routing socket whose answer is ignored. \<open>junk\<close> arguments are uninitialised memory.
\<close>

section \<open>Windows\<close>

record MIB_IPFORWARDROW =
  fw_dest :: u32
  fw_mask :: u32
  fw_next_hop :: u32
  fw_if_index :: nat
  fw_metric :: nat

record 'k win_kernel =
  wk_table :: "'k \<Rightarrow> MIB_IPFORWARDROW list option"            \<comment> \<open>\<open>GetIpForwardTable\<close>\<close>
  wk_create :: "MIB_IPFORWARDROW \<Rightarrow> 'k \<Rightarrow> bool \<times> 'k"          \<comment> \<open>\<open>CreateIpForwardEntry\<close>: \<open>NO_ERROR\<close>\<close>
  wk_delete :: "MIB_IPFORWARDROW \<Rightarrow> 'k \<Rightarrow> bool \<times> 'k"

record win_table =
  wt_default_route_row :: "MIB_IPFORWARDROW option"       \<comment> \<open>\<open>None\<close>: the null pointer\<close>
  wt_default_origin_backup :: MIB_IPFORWARDROW
  wt_tunnel_route :: MIB_IPFORWARDROW
  wt_modified :: bool

definition last_default :: "MIB_IPFORWARDROW list \<Rightarrow> MIB_IPFORWARDROW \<Rightarrow> MIB_IPFORWARDROW" where
  \<comment> \<open>the copy of the last entry for destination 0, or what \<open>malloc\<close> gave\<close>
  "last_default rows junk = fold (\<lambda>r acc. if fw_dest r = 0 then r else acc) rows junk"

definition win_init_table :: "'k win_kernel \<Rightarrow> MIB_IPFORWARDROW \<Rightarrow> win_table \<Rightarrow> 'k \<Rightarrow> int \<times> win_table" where
  "win_init_table W junk t k =
     (case wk_table W k of
        None \<Rightarrow> (-1, t)
      | Some rows \<Rightarrow>
          let r = last_default rows junk in
          (0, t\<lparr>wt_default_route_row := Some r, wt_default_origin_backup := r, wt_modified := True\<rparr>))"

definition pton_or :: "u32 \<Rightarrow> inet_pton \<Rightarrow> string \<Rightarrow> u32" where
  "pton_or junk pton s = (case pton s of Some a \<Rightarrow> a | None \<Rightarrow> junk)"

definition win_mask :: "u32 \<Rightarrow> inet_pton \<Rightarrow> RouteRow \<Rightarrow> u32 outcome" where
  "win_mask junk pton row =
     (if rr_netmask_sharp row = -1 then Inr (pton_or junk pton (rr_netmask row))
      else bind_out (mask_loop 0 (nat (rr_netmask_sharp row)) 0) (\<lambda>m. Inr (htonl m)))"

text \<open>The template with the destination and mask of a row; the gateway is computed and not used.\<close>

definition win_request :: "u32 \<Rightarrow> inet_pton \<Rightarrow> RouteRow \<Rightarrow> win_table \<Rightarrow> (MIB_IPFORWARDROW \<times> win_table) outcome" where
  "win_request junk pton row t =
     bind_out (win_mask junk pton row) (\<lambda>m.
     bind_out (of_option NullDeref (wt_default_route_row t)) (\<lambda>r.
     let r = r\<lparr>fw_dest := pton_or junk pton (rr_dst row), fw_mask := m\<rparr> in
     Inr (r, t\<lparr>wt_default_route_row := Some r\<rparr>)))"

definition win_add_route_row ::
  "u32 \<Rightarrow> inet_pton \<Rightarrow> 'k win_kernel \<Rightarrow> RouteRow \<Rightarrow> win_table \<times> 'k \<Rightarrow> (int \<times> win_table \<times> 'k) outcome" where
  "win_add_route_row junk pton W row st =
     (let (t, k) = st in
      bind_out (win_request junk pton row t) (\<lambda>(r, t).
      case wk_create W r k of (ok, k) \<Rightarrow> Inr (if ok then 0 else -1, t, k)))"

definition win_del_route_row ::
  "u32 \<Rightarrow> inet_pton \<Rightarrow> 'k win_kernel \<Rightarrow> RouteRow \<Rightarrow> win_table \<times> 'k \<Rightarrow> (int \<times> win_table \<times> 'k) outcome" where
  "win_del_route_row junk pton W row st =
     (let (t, k) = st in
      bind_out (win_request junk pton row t) (\<lambda>(r, t).
      case wk_delete W r k of (ok, k) \<Rightarrow> Inr (if ok then 0 else -1, t, k)))"

definition win_add_route_row_complete ::
  "u32 \<Rightarrow> MIB_IPFORWARDROW \<Rightarrow> inet_pton \<Rightarrow> 'k win_kernel \<Rightarrow> RouteRow \<Rightarrow> nat \<Rightarrow> 'k \<Rightarrow> (int \<times> 'k) outcome" where
  \<comment> \<open>\<open>dev\<close> is the row's interface number; the result of the request is only logged\<close>
  "win_add_route_row_complete junk junk_row pton W row dev k =
     (case wk_table W k of
        None \<Rightarrow> Inr (-1, k)
      | Some rows \<Rightarrow>
          bind_out (win_mask junk pton row) (\<lambda>m.
          let r = (last_default rows junk_row)\<lparr>fw_next_hop := pton_or junk pton (rr_gateway row),
                fw_dest := pton_or junk pton (rr_dst row), fw_mask := m, fw_if_index := dev, fw_metric := 100\<rparr> in
          Inr (0, snd (wk_create W r k))))"

definition win_get_default_route :: RouteRow where
  \<comment> \<open>the device is the constant 7, kept apart here\<close>
  "win_get_default_route = RouteRow_new\<lparr>rr_dst := ''0.0.0.0'', rr_gateway := ''10.0.0.1''\<rparr>"

text \<open>Deleting every default route; the flag tells whether all requests succeeded.\<close>

fun del_defaults :: "'k win_kernel \<Rightarrow> MIB_IPFORWARDROW list \<Rightarrow> 'k \<Rightarrow> bool \<times> 'k" where
  "del_defaults W [] k = (True, k)"
| "del_defaults W (r # rs) k =
     (if fw_dest r = 0 then
        (case wk_delete W r k of (ok, k) \<Rightarrow> if ok then del_defaults W rs k else (False, k))
      else del_defaults W rs k)"

definition dns_command :: "nat \<Rightarrow> string \<Rightarrow> string" where
  "dns_command dev src = ''netsh interface ip set dns name='' @ string_of_nat dev @ '' source='' @ src"

definition win_set_default_as_tunnel ::
  "'k win_kernel \<Rightarrow> nat \<Rightarrow> string \<Rightarrow> win_table \<times> 'k \<Rightarrow> (int \<times> (win_table \<times> 'k) \<times> string list) outcome" where
  "win_set_default_as_tunnel W tunnel gw st =
     (let (t, k) = st in
      case wk_table W k of
        None \<Rightarrow> Inr (-1, (t, k), [])
      | Some rows \<Rightarrow>
          case del_defaults W rows k of (ok, k) \<Rightarrow>
            if \<not> ok then Inr (-1, (t, k), [])
            else
              bind_out (of_option NullDeref (wt_default_route_row t)) (\<lambda>r.
              Inr (0, (t\<lparr>wt_tunnel_route := r\<lparr>fw_dest := 0, fw_if_index := tunnel\<rparr>\<rparr>, k),
                [''route add 0.0.0.0 mask 0.0.0.0 '' @ gw @ '' if '' @ string_of_nat tunnel,
                 dns_command tunnel ''static addr=127.0.0.1'',
                 dns_command (fw_if_index (wt_default_origin_backup t)) ''static addr=127.0.0.1''])))"

definition win_delete_chnroute ::
  "u32 \<Rightarrow> inet_pton \<Rightarrow> 'k win_kernel \<Rightarrow> string \<Rightarrow> string option \<Rightarrow> string \<Rightarrow> win_table \<times> 'k \<Rightarrow>
   (int \<times> (win_table \<times> 'k) \<times> string list) outcome" where
  "win_delete_chnroute junk pton W filename file buf st =
     (let (t, k) = st in
      if \<not> wt_modified t then Inr (0, (t, k), [])
      else
        let k = snd (wk_delete W (wt_tunnel_route t) k); k = snd (wk_create W (wt_default_origin_backup t) k) in
        if filename = [] then Inr (0, (t, k), [])
        else
          case file of
            None \<Rightarrow> Inr (-1, (t, k), [])
          | Some s \<Rightarrow>
              bind_out (file_loop (win_del_route_row junk pton W) s (buf, RouteRow_new) (t, k)) (\<lambda>(t, k).
              Inr (0, (t\<lparr>wt_modified := False\<rparr>, k),
                [dns_command (fw_if_index (wt_default_origin_backup t)) ''dhcp''])))"

text \<open>
  A row that was added is deleted again by the same entry: the template may have served other rows in
  between, since both requests set the two fields in which they differ.
\<close>

lemma win_request_entry:
  assumes "win_request junk pton row t = Inr (r, t1)" "wt_default_route_row t2 = Some r'"
    and "\<exists>d m. r' = r\<lparr>fw_dest := d, fw_mask := m\<rparr>"
  shows "\<exists>t3. win_request junk pton row t2 = Inr (r, t3)"
  using assms by (auto simp: win_request_def bind_out_eq_Inr_iff of_option_eq_Inr_iff Let_def)

text \<open>Without a default route the template is uninitialised memory.\<close>

lemma win_no_default: "\<forall>r\<in>set rows. fw_dest r \<noteq> 0 \<Longrightarrow> last_default rows junk = junk"
  by (induction rows) (auto simp: last_default_def)

section \<open>macOS\<close>

datatype rtm_type = RTM_ADD | RTM_DELETE

record rt_msg =
  rm_type :: rtm_type
  rm_dst :: u32
  rm_gateway :: u32
  rm_netmask :: u32

text \<open>
  The message of a request. The buffer comes from \<open>new\<close>, so an address that \<open>inet_pton\<close> rejects is whatever was
  there. The device of the row is not part of the message.
\<close>

definition mac_message :: "u32 \<Rightarrow> inet_pton \<Rightarrow> rtm_type \<Rightarrow> RouteRow \<Rightarrow> rt_msg outcome" where
  "mac_message junk pton ty row =
     bind_out (win_mask junk pton row) (\<lambda>m.
     Inr \<lparr>rm_type = ty, rm_dst = pton_or junk pton (rr_dst row), rm_gateway = pton_or junk pton (rr_gateway row),
          rm_netmask = m\<rparr>)"

definition mac_add_route_row :: "u32 \<Rightarrow> inet_pton \<Rightarrow> (rt_msg \<Rightarrow> 'k \<Rightarrow> 'k) \<Rightarrow> RouteRow \<Rightarrow> 'k \<Rightarrow> (int \<times> 'k) outcome" where
  "mac_add_route_row junk pton rtsock row k =
     bind_out (mac_message junk pton RTM_ADD row) (\<lambda>m. Inr (0, rtsock m k))"

definition mac_del_route_row :: "u32 \<Rightarrow> inet_pton \<Rightarrow> (rt_msg \<Rightarrow> 'k \<Rightarrow> 'k) \<Rightarrow> RouteRow \<Rightarrow> 'k \<Rightarrow> (int \<times> 'k) outcome" where
  "mac_del_route_row junk pton rtsock row k =
     bind_out (mac_message junk pton RTM_DELETE row) (\<lambda>m. Inr (0, rtsock m k))"

text \<open>
  The answer to the question for the default route: the addresses that \<open>rtm_addrs\<close> announces follow each other,
  each rounded up to eight bytes by its length byte; gateway and interface are numbers 1 and 4 of
  eight. The name of the interface is read as a C string four bytes into its address, where the
  link-level address has its type and not yet its name.
\<close>

definition ROUNDUP :: "nat \<Rightarrow> nat" where
  "ROUNDUP a = (if a mod 8 \<noteq> 0 then a div 8 * 8 + 8 else a)"

function rti_info :: "bytes \<Rightarrow> nat \<Rightarrow> nat \<Rightarrow> nat \<Rightarrow> nat option list outcome" where
  "rti_info buf addrs i sa =
     (if 8 \<le> i then Inr []
      else if addrs div 2 ^ i mod 2 = 1 then
        (if length buf \<le> sa then Inl OutOfBounds
         else
           let l = unat (buf ! sa) in
           bind_out (rti_info buf addrs (i + 1) (sa + (if l \<noteq> 0 then ROUNDUP l else 8))) (\<lambda>r. Inr (Some sa # r)))
      else bind_out (rti_info buf addrs (i + 1) sa) (\<lambda>r. Inr (None # r)))"
  by pat_completeness auto
termination
  by (relation "measure (\<lambda>(_, _, i, _). 8 - i)") auto

declare rti_info.simps [simp del]

definition c_bytes :: "bytes \<Rightarrow> string outcome" where
  "c_bytes b = (if 0 \<in> set b then Inr (map (\<lambda>x. char_of (unat x)) (takeWhile (\<lambda>x. x \<noteq> 0) b)) else Inl OutOfBounds)"

definition mac_get_default_route :: "bytes \<Rightarrow> nat \<Rightarrow> RouteRow outcome" where
  \<comment> \<open>\<open>buf\<close>: what follows the message header in the buffer\<close>
  "mac_get_default_route buf addrs =
     bind_out (rti_info buf addrs 0 0) (\<lambda>info.
     case info ! 1 of
       None \<Rightarrow> Inr (RouteRow_new\<lparr>rr_dst := ''err gateway''\<rparr>)
     | Some g \<Rightarrow>
         bind_out (get_le 4 (g + 4) buf) (\<lambda>a.
         let row = RouteRow_new\<lparr>rr_gateway := inet_ntoa (of_nat a)\<rparr> in
         case info ! 4 of
           None \<Rightarrow> Inr (row\<lparr>rr_dst := ''err interface''\<rparr>)
         | Some f \<Rightarrow>
             bind_out (c_bytes (drop (f + 4) buf)) (\<lambda>name.
             Inr (row\<lparr>rr_dev := name, rr_dst := ''0.0.0.0'', rr_netmask := ''0.0.0.0'', rr_netmask_sharp := 0\<rparr>))))"

text \<open>The eight entries are there whenever the addresses lie inside the buffer.\<close>

lemma rti_info_length: "i \<le> 8 \<Longrightarrow> rti_info buf addrs i sa = Inr r \<Longrightarrow> length r = 8 - i"
proof (induction "8 - i" arbitrary: i sa r)
  case 0
  then show ?case by (simp add: rti_info.simps [of _ _ 8])
next
  case (Suc d)
  then have i: "\<not> 8 \<le> i" "d = 8 - (i + 1)" "i + 1 \<le> 8" by simp_all
  obtain sa' r' x where "rti_info buf addrs (i + 1) sa' = Inr r'" "r = x # r'"
    using Suc.prems(2) i(1)
    by (auto simp: rti_info.simps [of buf addrs i] bind_out_eq_Inr_iff Let_def split: if_splits)
  then show ?case using Suc.hyps(1) [OF i(2,3), of sa' r'] i by simp
qed

end
