(* ===== verification/Timing.thy ===== *)
theory Timing
  imports RudpSend
begin

text \<open>
  Model of the time arithmetic of \<open>src/src/rudp/TimeMarco.h\<close> and of \<open>wait_time\<close> in
  \<open>src/src/rudp/pthread_wrapper/ConditionVariable.cpp\<close>. The differences \<open>get_ms\<close> and \<open>get_us\<close> are in \<open>RudpSocket\<close>.
\<close>

record timespec =
  ts_sec :: int
  ts_nsec :: int

text \<open>The absolute time up to which \<open>wait_time\<close> waits, \<open>ts\<close> milliseconds after \<open>now\<close>.\<close>

definition wait_deadline :: "nat \<Rightarrow> timespec \<Rightarrow> timespec" where
  "wait_deadline ts now =
     (let tv = now\<lparr>ts_nsec := ts_nsec now + int ts * 1000000\<rparr> in
      if ts_nsec tv \<ge> 1000000000 then tv\<lparr>ts_sec := ts_sec tv + 1, ts_nsec := ts_nsec tv - 1000000000\<rparr> else tv)"

definition ns_of :: "timespec \<Rightarrow> int" where
  "ns_of t = ts_sec t * 1000000000 + ts_nsec t"

definition normal :: "timespec \<Rightarrow> bool" where
  \<comment> \<open>what \<open>pthread_cond_timedwait\<close> accepts\<close>
  "normal t \<longleftrightarrow> 0 \<le> ts_nsec t \<and> ts_nsec t < 1000000000"

text \<open>\<^verbatim>\<open>set_time_ms(tv, m)\<close> of the \<open>timeval\<close> with the given seconds and microseconds: both assignments go to \<open>tv_sec\<close>.\<close>

definition set_time_ms :: "nat \<Rightarrow> int \<times> int \<Rightarrow> int \<times> int" where
  "set_time_ms m tv = (let tv = (int m div 1000, snd tv) in (int m mod 1000, snd tv))"

text \<open>
  The deadline is always the right instant; it is in the form that the wait accepts for every delay of at
  most a second, and never for one of two seconds or more.
\<close>

lemma wait_deadline_instant: "ns_of (wait_deadline ts now) = ns_of now + int ts * 1000000"
  by (simp add: wait_deadline_def ns_of_def Let_def)

lemma wait_deadline_normal:
  assumes "normal now"
  shows "ts \<le> 1000 \<Longrightarrow> normal (wait_deadline ts now)" "2000 \<le> ts \<Longrightarrow> \<not> normal (wait_deadline ts now)"
  using assms by (auto simp: wait_deadline_def normal_def Let_def)

text \<open>
  A delay of \<open>m\<close> milliseconds below a second is set as \<open>m\<close> seconds, and the microseconds keep what they
  were.
\<close>

lemma set_time_ms_short: "m < 1000 \<Longrightarrow> set_time_ms m tv = (int m, snd tv)"
  by (simp add: set_time_ms_def)

section \<open>Windows\<close>

text \<open>\<open>timeGetTime\<close> counts milliseconds in 32 bits, the performance counter counts ticks of the given frequency.\<close>

definition win_get_ms :: "u32 \<Rightarrow> u32 \<Rightarrow> u32" where
  "win_get_ms tv_a tv_b = tv_a - tv_b"

definition win_set_time_ms :: "u32 \<Rightarrow> u32" where
  "win_set_time_ms m = m"

definition win_get_us :: "int \<Rightarrow> int \<Rightarrow> int \<Rightarrow> int" where
  "win_get_us cpu_frequency s1 s0 = c_div ((s1 - s0) * 1000000) cpu_frequency"

text \<open>Differences survive the wrap-around of the counter, and both platforms measure the same delays up to one unit.\<close>

lemma win_get_ms_wrap: "e < 2 ^ 32 \<Longrightarrow> unat (win_get_ms (t + of_nat e) t) = e"
  by (simp add: win_get_ms_def unat_of_nat take_bit_nat_eq_self)

text \<open>A clock reading of \<open>timeGetTime\<close>, as \<open>gettimeofday\<close> reports the same instant \<open>ms\<close> milliseconds after \<open>base\<close>.\<close>

definition tv_after :: "timeval \<Rightarrow> nat \<Rightarrow> timeval" where
  "tv_after base ms = (fst base + int ms div 1000, snd base + int ms mod 1000 * 1000)"

lemma get_ms_platforms:
  assumes "a \<le> b" "b - a < 2 ^ 32"
  shows "get_ms (tv_after base b) (tv_after base a) = int (unat (win_get_ms (of_nat b) (of_nat a)))"
proof -
  have d: "c_div (x * 1000) 1000 = x" for x :: int
    by (cases x "0::int" rule: linorder_cases) (simp_all add: c_div_def sgn_if abs_mult)
  have m: "int ms div 1000 * 1000 + int ms mod 1000 = int ms" for ms by presburger
  have "get_ms (tv_after base b) (tv_after base a) =
      (int b div 1000 - int a div 1000) * 1000 + c_div ((int b mod 1000 - int a mod 1000) * 1000) 1000"
    by (simp add: get_ms_def tv_after_def algebra_simps)
  also have "\<dots> = (int b div 1000 * 1000 + int b mod 1000) - (int a div 1000 * 1000 + int a mod 1000)"
    unfolding d by (simp add: algebra_simps)
  also have "\<dots> = int (b - a)" unfolding m using assms(1) by simp
  finally have "get_ms (tv_after base b) (tv_after base a) = int (b - a)" .
  moreover have "(of_nat b :: u32) = of_nat a + of_nat (b - a)" using assms(1) by (metis le_add_diff_inverse of_nat_add)
  ultimately show ?thesis using win_get_ms_wrap [OF assms(2), of "of_nat a"] by simp
qed

lemma win_get_us_exact:
  assumes "0 < f"
  shows "win_get_us (f * 1000000) s1 s0 = c_div (s1 - s0) f"
proof -
  have "sgn ((s1 - s0) * 1000000) = sgn (s1 - s0)" "\<bar>(s1 - s0) * 1000000\<bar> = \<bar>s1 - s0\<bar> * 1000000"
    by (simp_all only: sgn_mult abs_mult) simp_all
  moreover have "sgn (f * 1000000) = sgn f" "\<bar>f * 1000000\<bar> = \<bar>f\<bar> * 1000000" using assms by (simp_all add: sgn_mult)
  ultimately show ?thesis unfolding win_get_us_def c_div_def by (simp only: div_mult_mult2)
qed

end
