(* ===== verification/TcpFilter.thy ===== *)
theory TcpFilter
  imports Segments Tunnel
begin

text \<open>
  Model of \<open>src/src/rudp/tcp_engine/TcpFilter.cpp\<close>, an unfinished transport that carries data in raw TCP
  segments (the build does not include it): the queue of captured frames, the extraction of a
  payload, and the segments it injects. What libpcap captures and what libnet answers are arguments; libnet takes ports in
  host order and total lengths, as its manual says.
\<close>

definition SIZE_ETHERNET :: nat where "SIZE_ETHERNET = 14"

definition IP_HL :: "nat \<Rightarrow> nat" where "IP_HL vhl = vhl mod 16"

definition TH_OFF :: "nat \<Rightarrow> nat" where "TH_OFF offx2 = offx2 div 16"

record TcpFilter =
  tf_dev :: string
  tf_port :: int
  tf_seq :: u32
  tf_package_list :: segmentlist

definition TcpFilter_new :: "PackageSegment list \<Rightarrow> string \<Rightarrow> int \<Rightarrow> TcpFilter" where
  "TcpFilter_new junk dev port =
     \<lparr>tf_dev = dev, tf_port = port, tf_seq = 1, tf_package_list = PackageSegmentList_new junk 10000\<rparr>"

definition firewall_rule :: "string \<Rightarrow> TcpFilter \<Rightarrow> string" where
  "firewall_rule op t = ''/sbin/iptables -t filter '' @ op @ '' INPUT -p tcp --dport '' @ string_of_int (tf_port t) @ '' -j DROP''"

definition init_firewall :: "TcpFilter \<Rightarrow> int \<times> string" where
  "init_firewall t = (0, firewall_rule ''-A'' t)"

definition restore_firewall :: "TcpFilter \<Rightarrow> int \<times> string" where
  "restore_firewall t = (0, firewall_rule ''-D'' t)"

text \<open>
  The answers of the capture library: \<open>pcap_lookupnet\<close>, \<open>pcap_open_live\<close>, \<open>pcap_compile\<close>, \<open>pcap_setfilter\<close>, in this order. The result
  is the return value and the firewall command that is run, if it comes to that.
\<close>

definition tcp_init :: "bool list \<Rightarrow> TcpFilter \<Rightarrow> int \<times> string option" where
  "tcp_init oks t = (if False \<in> set oks then (-1, None) else (0, Some (snd (init_firewall t))))"

definition get_package :: "bytes \<Rightarrow> TcpFilter \<Rightarrow> TcpFilter" where
  \<comment> \<open>\<open>frame\<close> has the length that the header announces\<close>
  "get_package frame t =
     (if length frame = 0 then t
      else t\<lparr>tf_package_list := PackageSegmentList_push frame (tf_package_list t)\<rparr>)"

text \<open>
  \<^verbatim>\<open>recv\<close> on the popped frame. The payload begins behind the three headers, but \<open>memcpy\<close> adds their size a
  second time. The test \<^verbatim>\<open>ip->ip_vhl & 0xf0 == 0x40\<close> is \<^verbatim>\<open>ip_vhl & (0xf0 == 0x40)\<close>, so the address is never stored.
\<close>

definition tcp_payload :: "bytes \<Rightarrow> (int \<times> bytes) outcome" where
  "tcp_payload buf =
     bind_out (get_le 1 SIZE_ETHERNET buf) (\<lambda>vhl.
     let size_ip = IP_HL vhl * 4 in
     if size_ip < 20 then Inr (-1, [])
     else
       bind_out (get_le 1 (SIZE_ETHERNET + size_ip + 12) buf) (\<lambda>offx2.
       let size_tcp = TH_OFF offx2 * 4 in
       if size_tcp < 4 then Inr (-1, [])
       else
         let hdr = SIZE_ETHERNET + size_ip + size_tcp; len = int (length buf) - int hdr in
         if len < 0 \<or> length buf < 2 * hdr + nat len then Inl OutOfBounds
         else Inr (len, take (nat len) (drop (2 * hdr) buf))))"

definition tcp_recv :: "TcpFilter \<Rightarrow> ((int \<times> bytes) \<times> TcpFilter) option outcome" where
  \<comment> \<open>\<open>None\<close>: waits on the condition variable\<close>
  "tcp_recv t =
     (if PackageSegmentList_size (tf_package_list t) = 0 then Inr None
      else
        case PackageSegmentList_pop (tf_package_list t) of
          (None, q) \<Rightarrow> Inl NullDeref
        | (Some seg, q) \<Rightarrow>
            bind_out (tcp_payload seg) (\<lambda>r. Inr (Some (r, t\<lparr>tf_package_list := q\<rparr>))))"

text \<open>
  \<open>pcap_loop\<close> hands over every captured frame until \<open>pcap_breakloop\<close>; \<open>stop\<close> is that call, so the frames captured
  before it are the argument of \<open>tcp_run\<close>.
\<close>

definition tcp_run :: "bytes list \<Rightarrow> TcpFilter \<Rightarrow> TcpFilter" where
  "tcp_run frames t = fold get_package frames t"

section \<open>Sending\<close>

text \<open>The segment and the IP header that libnet is asked to build.\<close>

record tcp_out =
  to_sport :: u16
  to_dport :: u16
  to_seq :: u32
  to_win :: u16
  to_tcp_len :: nat
  to_payload :: bytes

record ip_out =
  io_len :: nat
  io_id :: u16
  io_ttl :: nat
  io_src :: u32
  io_dst :: u32

record libnet =
  ln_prand :: "u16 \<times> u16"                   \<comment> \<open>the two identifiers drawn\<close>
  ln_build_tcp :: "tcp_out \<Rightarrow> bool"
  ln_build_ipv4 :: "ip_out \<Rightarrow> bool"
  ln_ipaddr :: u32
  ln_write :: "tcp_out \<Rightarrow> ip_out option \<Rightarrow> int"

definition LIBNET_TCP_H :: nat where "LIBNET_TCP_H = 20"

definition LIBNET_IPV4_H :: nat where "LIBNET_IPV4_H = 20"

definition raw_port :: "u16 \<Rightarrow> u16" where
  \<comment> \<open>\<open>sin_port\<close> of an address as the number that the host reads\<close>
  "raw_port p = of_nat (bswap 2 (unat p))"

text \<open>
  The result is the number of bytes written, what was built, and whether the engine was destroyed. The first
  identifier is drawn and not used. Only a TCP segment that cannot be built ends the function; the
  other two errors are logged.
\<close>

definition tcp_send ::
  "libnet \<Rightarrow> bytes \<Rightarrow> sockaddr \<Rightarrow> TcpFilter \<Rightarrow> ((int \<times> (tcp_out \<times> ip_out option) option \<times> bool) \<times> TcpFilter)" where
  "tcp_send ln buf addr t =
     (let dport = raw_port (snd addr);
          seg = \<lparr>to_sport = word_of_int (tf_port t), to_dport = dport, to_seq = tf_seq t, to_win = 1024,
                 to_tcp_len = LIBNET_TCP_H, to_payload = buf\<rparr>;
          t = t\<lparr>tf_seq := tf_seq t + 1\<rparr> in
      if \<not> ln_build_tcp ln seg then ((-1, None, False), t)
      else
        let ip = \<lparr>io_len = LIBNET_IPV4_H, io_id = snd (ln_prand ln), io_ttl = 64, io_src = ln_ipaddr ln, io_dst = fst addr\<rparr>;
            built = (if ln_build_ipv4 ln ip then Some ip else None) in
        ((ln_write ln seg built, Some (seg, built), True), t))"

text \<open>The frames of a capture are queued in order, empty ones apart, while the list has room.\<close>

lemma tcp_run_contents:
  "sl_ok (tf_package_list t) \<Longrightarrow> length (filter (\<lambda>f. f \<noteq> []) frames) \<le> sl_room (tf_package_list t) \<Longrightarrow>
   sl_contents (tf_package_list (tcp_run frames t)) = sl_contents (tf_package_list t) @ filter (\<lambda>f. f \<noteq> []) frames"
proof (induction frames arbitrary: t)
  case (Cons f fs)
  show ?case
  proof (cases "f = []")
    case True
    then show ?thesis using Cons by (simp add: tcp_run_def get_package_def)
  next
    case False
    then have r: "0 < sl_room (tf_package_list t)" using Cons.prems(2) by simp
    note push = PackageSegmentList_push_ok [OF Cons.prems(1) r, of f]
    have "sl_contents (tf_package_list (tcp_run fs (get_package f t))) =
        sl_contents (tf_package_list (get_package f t)) @ filter (\<lambda>f. f \<noteq> []) fs"
      using Cons.prems(2) False push by (intro Cons.IH) (simp_all add: get_package_def)
    then show ?thesis using False push by (simp add: tcp_run_def get_package_def)
  qed
qed (simp add: tcp_run_def)

text \<open>The destination port is stored in network order and passed on as it is, so its bytes are exchanged on the wire.\<close>

lemma tcp_send_port:
  assumes "tcp_send ln buf (a, 80) t = ((n, Some (seg, ip), d), t')"
  shows "to_dport seg = 20480"
proof -
  have "raw_port 80 = 20480" by code_simp
  then show ?thesis using assms by (auto simp: tcp_send_def Let_def split: if_splits)
qed

text \<open>The IP header announces its own 20 bytes, whatever follows.\<close>

lemma tcp_send_length:
  assumes "tcp_send ln buf addr t = ((n, Some (seg, Some ip), d), t')"
  shows "io_len ip = 20" "to_payload seg = buf" "0 < length buf \<Longrightarrow> io_len ip < LIBNET_IPV4_H + LIBNET_TCP_H + length buf"
  using assms by (auto simp: tcp_send_def Let_def LIBNET_IPV4_H_def LIBNET_TCP_H_def split: if_splits)

text \<open>When the segment cannot be built, the engine is not destroyed, but the sequence number is used up.\<close>

lemma tcp_send_leaks:
  assumes "tcp_send ln buf addr t = ((n, None, d), t')"
  shows "n = -1" "\<not> d" "tf_seq t' = tf_seq t + 1"
  using assms by (auto simp: tcp_send_def Let_def split: if_splits)

text \<open>
  Whenever a frame is long enough for its own headers, reading its payload leaves the frame: the doubled offset
  puts the end of the copy behind the end of the buffer by the size of the headers.
\<close>

lemma tcp_payload_over_reads:
  assumes "tcp_payload buf = Inr (r, data)"
  shows "r = -1 \<and> data = []"
proof (rule ccontr)
  assume n: "\<not> (r = -1 \<and> data = [])"
  obtain vhl offx2 where "SIZE_ETHERNET \<le> SIZE_ETHERNET + IP_HL vhl * 4 + TH_OFF offx2 * 4"
    "let hdr = SIZE_ETHERNET + IP_HL vhl * 4 + TH_OFF offx2 * 4; len = int (length buf) - int hdr in
       \<not> (len < 0 \<or> length buf < 2 * hdr + nat len)"
    using assms n by (auto simp: tcp_payload_def bind_out_eq_Inr_iff Let_def split: if_splits)
  then show False by (simp add: Let_def SIZE_ETHERNET_def) linarith
qed

end
