(* ===== verification/PipeLogger.thy ===== *)
theory PipeLogger
  imports Pthread Tunnel
begin

text \<open>
  Model of \<open>src/src/PipeLogger.cpp\<close> and \<open>PipeLogger.h\<close>, the logging of the Windows build: messages are collected in a string stream
  and written to a pipe that a window of the program reads. Every operator runs inside the critical
  section \<open>cs\<close> of the logger, so it is one step. The pipe is the list of the bytes not yet read.
\<close>

record PipeLogger =
  pl_cs :: CriticalSection
  pl_ss :: string
  pl_pd :: string

definition PipeLogger_new :: PipeLogger where
  "PipeLogger_new = \<lparr>pl_cs = win_Mutex_new, pl_ss = [], pl_pd = []\<rparr>"

definition pl_flush :: "PipeLogger \<Rightarrow> PipeLogger" where
  "pl_flush l = l\<lparr>pl_pd := pl_pd l @ pl_ss l, pl_ss := []\<rparr>"

text \<open>
  An operator of thread \<open>t\<close> with what it does inside the critical section; \<open>None\<close> when it has to wait for another thread.
\<close>

definition pl_locked :: "tid \<Rightarrow> (PipeLogger \<Rightarrow> PipeLogger outcome) \<Rightarrow> PipeLogger \<Rightarrow> PipeLogger outcome option" where
  "pl_locked t body l =
     (case win_Mutex_lock t (pl_cs l) of
        None \<Rightarrow> None
      | Some cs \<Rightarrow>
          Some (bind_out (body (l\<lparr>pl_cs := cs\<rparr>)) (\<lambda>l.
            case win_Mutex_unlock t (pl_cs l) of None \<Rightarrow> Inl Uncaught | Some cs \<Rightarrow> Inr (l\<lparr>pl_cs := cs\<rparr>))))"

definition log_int :: "tid \<Rightarrow> int \<Rightarrow> PipeLogger \<Rightarrow> PipeLogger outcome option" where
  "log_int t v = pl_locked t (\<lambda>l. Inr (l\<lparr>pl_ss := pl_ss l @ string_of_int v\<rparr>))"

definition log_double :: "('d \<Rightarrow> string) \<Rightarrow> tid \<Rightarrow> 'd \<Rightarrow> PipeLogger \<Rightarrow> PipeLogger outcome option" where
  \<comment> \<open>\<open>fmt\<close> is the stream's formatting\<close>
  "log_double fmt t v = pl_locked t (\<lambda>l. Inr (l\<lparr>pl_ss := pl_ss l @ fmt v\<rparr>))"

text \<open>\<^verbatim>\<open>_Val[strlen(_Val) - 1]\<close> of the empty string lies in front of it.\<close>

definition log_cstr :: "tid \<Rightarrow> string \<Rightarrow> PipeLogger \<Rightarrow> PipeLogger outcome option" where
  "log_cstr t v = pl_locked t (\<lambda>l.
     let l = l\<lparr>pl_ss := pl_ss l @ v\<rparr> in
     if v = [] then Inl OutOfBounds
     else if last v = CHR 0x0A then Inr (pl_flush l) else Inr l)"

definition log_string :: "tid \<Rightarrow> string \<Rightarrow> PipeLogger \<Rightarrow> PipeLogger outcome option" where
  "log_string t v = pl_locked t (\<lambda>l. Inr (l\<lparr>pl_ss := pl_ss l @ v\<rparr>))"

definition log_dword :: "tid \<Rightarrow> nat \<Rightarrow> PipeLogger \<Rightarrow> PipeLogger outcome option" where
  "log_dword t v = pl_locked t (\<lambda>l. Inr (l\<lparr>pl_ss := pl_ss l @ string_of_int (int v)\<rparr>))"

definition log_line :: string where
  \<comment> \<open>what \<open>LOG(security)\<close> begins with\<close>
  "log_line = [CHR 0x0D, CHR 0x0A]"

definition read_pipe :: "nat \<Rightarrow> PipeLogger \<Rightarrow> (string \<times> PipeLogger) option" where
  \<comment> \<open>\<open>ReadFile\<close> waits while the pipe is empty\<close>
  "read_pipe max_len l = (if pl_pd l = [] then None else Some (take max_len (pl_pd l), l\<lparr>pl_pd := drop max_len (pl_pd l)\<rparr>))"

section \<open>What a reader sees\<close>

lemma pl_locked_free:
  assumes "pl_cs l = win_Mutex_new" "\<And>l'. pl_cs (f l') = pl_cs l'"
  shows "pl_locked t (\<lambda>l. Inr (f l)) l = Some (Inr ((f (l\<lparr>pl_cs := \<lparr>cs_owner = Some t, cs_count = 1\<rparr>\<rparr>))\<lparr>pl_cs := win_Mutex_new\<rparr>))"
  using assms by (simp add: pl_locked_def win_Mutex_lock_def win_Mutex_unlock_def win_Mutex_new_def)

text \<open>One \<^verbatim>\<open>LOG(..) << m\<close> of a string, run without interruption.\<close>

definition log_message :: "tid \<Rightarrow> string \<Rightarrow> PipeLogger \<Rightarrow> PipeLogger outcome option" where
  "log_message t m l =
     (case log_cstr t log_line l of
        Some (Inr l) \<Rightarrow> log_string t m l
      | r \<Rightarrow> r)"

lemma log_message_eq:
  assumes "pl_cs l = win_Mutex_new"
  shows "log_message t m l = Some (Inr (l\<lparr>pl_pd := pl_pd l @ pl_ss l @ log_line, pl_ss := m\<rparr>))"
proof -
  have "log_cstr t log_line l = Some (Inr (l\<lparr>pl_pd := pl_pd l @ pl_ss l @ log_line, pl_ss := []\<rparr>))"
    using assms by (simp add: log_cstr_def pl_locked_def win_Mutex_lock_def win_Mutex_unlock_def win_Mutex_new_def Let_def
        log_line_def pl_flush_def)
  then show ?thesis using assms
    by (simp add: log_message_def log_string_def pl_locked_def win_Mutex_lock_def win_Mutex_unlock_def win_Mutex_new_def)
qed

text \<open>
  The line break is written in front of a message and the stream is flushed with it, so the pipe holds every
  message but the last one: a message becomes visible when the next one begins.
\<close>

fun log_messages :: "tid \<Rightarrow> string list \<Rightarrow> PipeLogger \<Rightarrow> PipeLogger outcome option" where
  "log_messages t [] l = Some (Inr l)"
| "log_messages t (m # ms) l =
     (case log_message t m l of Some (Inr l) \<Rightarrow> log_messages t ms l | r \<Rightarrow> r)"

lemma log_delayed:
  "pl_cs l = win_Mutex_new \<Longrightarrow>
   log_messages t (ms @ [m]) l =
     Some (Inr (l\<lparr>pl_pd := pl_pd l @ pl_ss l @ concat (map (\<lambda>x. log_line @ x) ms) @ log_line, pl_ss := m\<rparr>))"
proof (induction ms arbitrary: l)
  case Nil
  then show ?case by (simp add: log_message_eq)
next
  case (Cons x xs)
  then show ?case using Cons.IH [of "l\<lparr>pl_pd := pl_pd l @ pl_ss l @ log_line, pl_ss := x\<rparr>"]
    by (simp add: log_message_eq)
qed

text \<open>Logging an empty C string reads in front of it.\<close>

lemma log_empty_faults: "pl_cs l = win_Mutex_new \<Longrightarrow> log_cstr t [] l = Some (Inl OutOfBounds)"
  by (simp add: log_cstr_def pl_locked_def win_Mutex_lock_def win_Mutex_new_def)

text \<open>No byte is lost or invented: reading in pieces gives what was flushed.\<close>

lemma read_pipe_pieces:
  "read_pipe n l = Some (s, l') \<Longrightarrow> s @ pl_pd l' = pl_pd l \<and> length s \<le> n \<and> pl_ss l' = pl_ss l"
  by (auto simp: read_pipe_def split: if_splits)

end
