(* ===== verification/Spec2Isabelle.thy ===== *)
theory Spec2Isabelle
  imports RudpTracking RudpGiveUp RudpThreads Buffers DnsOptions VpnPackets Daemon RoutePlatforms Timing TcpFilter PipeLogger
begin

text \<open>
  A verification development for SharpVPN, a point-to-multipoint VPN in C++ that carries the packets of a tunnel
  device over a reliable protocol on UDP and can run a DNS relay that prefers Chinese servers
  for Chinese names. Paths below are relative to \<open>src/src\<close>.

  \<^bold>\<open>The program and its parts.\<close> \<open>main.cpp\<close> reads the configuration, optionally becomes a daemon (\<open>DaemonRuntime.cpp\<close>), and runs a
  \<open>SharpVpn\<close>. The server accepts \<open>ReliableSocket\<close> connections (\<open>rudp/ReliableSocket.cpp\<close>), identifies each client by a token, assigns it an
  address of its tunnel's network, and forwards packets between its tunnel device (\<open>SharpTunnel.cpp\<close>) and the connection that owns
  the destination address. The client connects, sends its token, configures its tunnel with the address it
  gets, replaces \<open>/etc/resolv.conf\<close> and starts the relay (\<open>chinadns/chinadns-cpp.h\<close>, \<open>chinadns/chinadns.c\<close>), and changes its routes (\<open>RouteTable.cpp\<close>). A \<open>ReliableSocket\<close>
  runs five worker threads over shared containers (\<open>rudp/NetStruct.cpp\<close>, \<open>rudp/Package.h\<close>): sender, acknowledgement sender,
  acknowledgement handler, receiver and segment packer. Payloads are encrypted by \<open>SharpCrypto.cpp\<close>.

  \<^bold>\<open>Conventions.\<close> What C++ leaves undefined (an access outside a buffer, a deleted object, a null pointer, a
  bad shift), an uncaught exception and a loop that cannot end are values of the type \<open>outcome\<close> of
  \<open>Prelude\<close>, so that a statement with \<open>Inr\<close> says that none of them happens. Integers have the width of the code (\<open>u8\<close>,
  \<open>u16\<close>, \<open>u32\<close>, \<open>u64\<close>) wherever wrap-around can matter. Uninitialised memory is an argument named \<open>junk\<close>. Libraries and the
  operating system are arguments: libsodium (\<open>secretbox_spec\<close>), jsoncpp (\<open>json_spec\<close>), the kernel's route table (\<open>kernel_spec\<close>), name resolution, \<open>inet_pton\<close>,
  \<open>inet_aton\<close>, \<open>dn_expand\<close>, libpcap, libnet, clocks, and the success of system calls. A worker thread is a set of functions, one per turn of its loop or per
  part between two waits; theorems on concurrency quantify over their interleavings. Mutexes and condition variables are
  state that threads share (\<open>Pthread\<close>); elsewhere a critical section is one step.

  \<^bold>\<open>Theories.\<close>
  \<^item> \<open>Prelude\<close>: machine types, outcomes, byte order, the bounded \<open>advance\<close> loop. \<open>RingBuffer\<close>: circular arrays and the locale \<open>fifo\<close>. \<open>StdMap\<close>:
    \<open>std::map\<close> and the locale \<open>dict\<close>.
  \<^item> \<open>Package\<close> (\<open>rudp/Package.h\<close>): wire formats and \<open>AckQueue\<close>, which interprets \<open>fifo\<close>; snapshots that share their array.
    \<open>Crypto\<close>: key and framing. \<open>NetStruct\<close>: the store of heap objects, \<open>IdSet\<close>, \<open>PackageMap\<close> with its refinement of a map,
    \<open>PackageQueueMap\<close>. \<open>WaitList\<close>: \<open>AckWaitList\<close> against its list specification. \<open>Segments\<close>: the segment list (again \<open>fifo\<close>), the
    parser, the packing loop and when it ends.
  \<^item> \<open>RudpSocket\<close>, \<open>RudpSend\<close>, \<open>RudpConnect\<close>: the state and all threads of \<open>ReliableSocket\<close>, connecting, accepting and closing.
    \<open>RudpReceive\<close>: any datagram is processed with loops that end and without moving the window illegally. \<open>RudpDelivery\<close>: the relation \<open>rx_reach\<close>
    of interleaved executions, its invariant, in-order delivery and its progress. \<open>RudpTransmit\<close>: what the sending
    threads produce. \<open>RudpConnect\<close> also shows that both ends of a handshake agree.
  \<^item> \<open>RudpLink\<close>: two ends and a network that loses, repeats, reorders and injects, the relation \<open>link_step\<close>, its invariant, and delivery from one
    end's queue to the other end's reader. \<open>RudpRefs\<close>, \<open>RudpCounts\<close>, \<open>RudpTracking\<close>: the reference counts and send counts of the packages to send, in
    every state that the relation \<open>snd_step\<close> reaches. \<open>RudpGiveUp\<close>: packages that were sent too often. \<open>RudpThreads\<close>: the threads with their
    addresses, the pacing of the sender and the receiver around \<open>select\<close>.
  \<^item> \<open>Pthread\<close> (\<open>rudp/pthread_wrapper\<close>): mutexes, condition variables, the waiting loop as the relation \<open>monitor_step\<close> and the locale
    \<open>quiet_loop\<close>; \<open>Workers\<close> interprets it on the sender, the acknowledgement handler and the reader. \<open>Buffers\<close>: which arrays constructors
    allocate and destructors free.
  \<^item> \<open>NsParser\<close>, \<open>ChnRoute\<close>, \<open>ChinaDns\<close>, \<open>DnsRelay\<close>, \<open>DnsMain\<close>: the relay: message parser, route list and binary search, query table, delay
    queue and filter, the two handlers with invariant, safety and the way of an answer to its client, and the start of the relay. \<open>DnsOptions\<close>: its command line. \<open>Resolver\<close>: the
    class that switches \<open>/etc/resolv.conf\<close>.
  \<^item> \<open>Tunnel\<close>: the tunnel device on three platforms. \<open>RouteTable\<close>: routes on Linux and what a client restores; \<open>RoutePlatforms\<close>: Windows and macOS.
  \<^item> \<open>VpnUsers\<close>: users, addresses and forwarding of the server, with the relation \<open>vpn_reach\<close> and its invariant. \<open>Config\<close>: arguments and their
    file. \<open>Vpn\<close>: construction, \<open>init\<close>, the client's \<open>run\<close> and \<open>stop\<close>, composed of the parts above. \<open>VpnServer\<close>: the
    server's accept loop, joined with the users' maps and with delivery. \<open>VpnLogin\<close> and \<open>VpnPackets\<close>: the log-in of a
    client and the way of a packet from tunnel to tunnel, over a connection in both directions. \<open>Daemon\<close>: pid file and command line.
  \<^item> \<open>Timing\<close>: deadlines and the clocks of both platforms. \<open>TcpFilter\<close>: the unfinished TCP transport. \<open>PipeLogger\<close>: the logger of the Windows build.

  \<^bold>\<open>Bounds and fuel.\<close> The only fuel is that of \<open>advance\<close>, the loops that move a cumulative acknowledgement over what is present in an array: one more
  than the array's length is enough, since the identifiers tested are different (\<open>advance_terminates\<close>), and \<open>receiver_terminates\<close> states that it
  never runs out. Two loops of the code need not end, packing an oversize segment and binding when all
  ports are taken; there \<open>Diverges\<close> is the result of a test that is proved to hold exactly when the loop does not end. All other
  loops are total functions with a measure. Theorems on the sending side assume what the code does not test: that the wait list and the queue
  of resent packages (100000 entries) do not overflow, that the slots of new packages are free (\<open>slots_free\<close>), and, for delivery, that
  identifiers stay below \<open>2 ^ 31\<close>, where \<open>recv_package\<close> narrows them.

  \<^bold>\<open>What is shown.\<close> End-to-end delivery from the handshake to the application, and its completeness when the link is quiet; no freed package is used
  and none is forgotten; no wake-up is lost while a socket runs; the sender keeps its rate; safety and progress of delivery, of the receiver and of the
  packing thread; agreement of the handshake; every request gets a connection; the invariant of the
  server's maps and correct forwarding; a client's log-in and the way of a packet from one tunnel to the other; restoration of routes, of the resolver file and of both after a client
  session; safety, state invariant and answer delivery of the relay; round trips of wire formats, segments and configuration; equivalence of
  platform variants and of the netmask loop with references; and, for behaviour that is wrong or undefined, theorems that exhibit it.

  \<^bold>\<open>Not modelled.\<close> Thread creation, the text of log messages (other than what the logger does with it), the byte orders of
  memory that two threads access without a lock (each such access is an atomic step, noted where it occurs), the signal set-up of the daemon and the socket
  start-up on Windows, the empty daemon of the Windows build, the class \<open>RemoteInfo\<close> (never used), and the
  configuration macros \<open>config.h\<close> and \<open>Sharp.h\<close> other than \<open>MAX\<close> and \<open>MAX_MTU\<close>: none of them computes anything the rest relies on. Code that is commented out
  (\<open>PackageListMap\<close>, the heart beat thread) is not compiled. Closing the tunnel makes the kernel drop the routes on its device; this is not part of
  \<open>kernel_spec\<close>, so the route theorems list these two routes as possibly left.
\<close>

end
